(* ===== verification/Go_Prelude.thy ===== *)
theory Go_Prelude
  imports Main "HOL-Library.Word" "HOL-Library.Multiset"
begin

text \<open>
  The part of the Go language and of its standard library that the components share:
  the 64-bit integer type, error values with \<open>errors.Is\<close>, decimal printing
  (\<open>fmt.Sprintf "%d"\<close>) and parsing (\<open>strconv.ParseInt\<close>, \<open>strconv.Atoi\<close>),
  together with the generic lemmas on lists and signed words that the component theories use.

  Conventions of the development: a Go \<open>int64\<close> that is shifted or masked is a
  \<open>64 word\<close> read by \<open>sint\<close>; an \<open>int\<close> or an atomic counter that only counts is a
  HOL \<open>int\<close>; a string or a byte slice is a \<open>string\<close> (a list of bytes); instants and
  durations are integers (nanoseconds).
\<close>

unbundle bit_operations_syntax

named_theorems int64_simps \<open>reading signed 64-bit words as integers\<close>
named_theorems err_simps \<open>evaluation of error values\<close>

type_synonym int64 = "64 word"


section \<open>Error values\<close>

text \<open>
  \<open>New\<close> is a package-level value made by \<open>errors.New\<close>; its text names it, as no two
  of them share one. \<open>Errorf\<close> is a fresh error without a \<open>%w\<close> verb, \<open>Wrap\<close> one
  that wraps a cause between a prefix and a suffix, \<open>Ext\<close> an error that a service or a
  third-party package reports (a PostgreSQL error carries its SQLSTATE code).
\<close>

datatype go_error =
    New string
  | Errorf string
  | Wrap string go_error string
  | Ext string string

fun errors_Is :: "go_error \<Rightarrow> go_error \<Rightarrow> bool" where
  "errors_Is (Wrap p e s) t = (Wrap p e s = t \<or> errors_Is e t)"
| "errors_Is e t = (e = t)"

fun error_text :: "go_error \<Rightarrow> string" where
  "error_text (New m) = m"
| "error_text (Errorf m) = m"
| "error_text (Wrap p e s) = p @ error_text e @ s"
| "error_text (Ext c m) = m"

lemma errors_Is_refl [simp, err_simps]: "errors_Is e e"
  by (cases e) simp_all

declare errors_Is.simps [err_simps]


section \<open>Decimal numbers\<close>

fun fmt_nat :: "nat \<Rightarrow> string" where
  "fmt_nat n = (if n < 10 then [char_of (48 + n)]
                else fmt_nat (n div 10) @ [char_of (48 + n mod 10)])"

declare fmt_nat.simps [simp del]

text \<open>\<open>fmt.Sprintf("%d", i)\<close>.\<close>

definition fmt_d :: "int \<Rightarrow> string" where
  "fmt_d i = (if i < 0 then CHR ''-'' # fmt_nat (nat (- i)) else fmt_nat (nat i))"

definition is_digit :: "char \<Rightarrow> bool" where
  "is_digit c \<longleftrightarrow> 48 \<le> (of_char c :: nat) \<and> (of_char c :: nat) \<le> 57"

definition digit_val :: "char \<Rightarrow> nat" where
  "digit_val c = of_char c - 48"

definition digits_val :: "string \<Rightarrow> nat" where
  "digits_val cs = foldl (\<lambda>a c. 10 * a + digit_val c) 0 cs"

definition parse_digits :: "string \<Rightarrow> nat option" where
  "parse_digits cs = (if cs \<noteq> [] \<and> list_all is_digit cs then Some (digits_val cs) else None)"

text \<open>
  \<open>strconv.ParseInt(s, 10, 64)\<close> and, on a 64-bit platform, \<open>strconv.Atoi(s)\<close>: an
  optional sign, at least one decimal digit and nothing else, within the range of
  \<open>int64\<close>; \<open>None\<close> is the error return.
\<close>

definition ParseInt64 :: "string \<Rightarrow> int option" where
  "ParseInt64 s =
     (let neg = (case s of c # _ \<Rightarrow> c = CHR ''-'' | [] \<Rightarrow> False);
          body = (case s of c # cs \<Rightarrow> if c = CHR ''-'' \<or> c = CHR ''+'' then cs else s
                          | [] \<Rightarrow> s)
      in case parse_digits body of
           None \<Rightarrow> None
         | Some n \<Rightarrow>
             let i = (if neg then - int n else int n)
             in if - (2 ^ 63) \<le> i \<and> i < 2 ^ 63 then Some i else None)"

lemma fmt_nat_neq_Nil [simp]: "fmt_nat n \<noteq> []"
  by (subst fmt_nat.simps) simp

lemma of_char_digit: "n < 10 \<Longrightarrow> of_char (char_of (48 + n :: nat)) = 48 + n"
  by simp

lemma is_digit_char_of: "n < 10 \<Longrightarrow> is_digit (char_of (48 + n :: nat))"
  unfolding is_digit_def by simp

lemma digit_val_char_of: "n < 10 \<Longrightarrow> digit_val (char_of (48 + n :: nat)) = n"
  unfolding digit_val_def by simp

lemma fmt_nat_digits: "list_all is_digit (fmt_nat n)"
proof (induction n rule: fmt_nat.induct)
  case (1 n)
  then show ?case
    by (subst fmt_nat.simps) (simp add: is_digit_char_of)
qed

lemma digits_val_snoc: "digits_val (cs @ [c]) = 10 * digits_val cs + digit_val c"
  by (simp add: digits_val_def)

lemma digits_val_fmt_nat [simp]: "digits_val (fmt_nat n) = n"
proof (induction n rule: fmt_nat.induct)
  case (1 n)
  show ?case
  proof (cases "n < 10")
    case True
    then show ?thesis
      by (subst fmt_nat.simps) (simp add: digits_val_def digit_val_char_of)
  next
    case False
    with 1 have "digits_val (fmt_nat (n div 10)) = n div 10" by simp
    with False show ?thesis
      by (subst fmt_nat.simps) (simp add: digits_val_snoc digit_val_char_of)
  qed
qed

lemma fmt_nat_inject [simp]: "fmt_nat m = fmt_nat n \<longleftrightarrow> m = n"
  by (metis digits_val_fmt_nat)

lemma not_digit_sign [simp]: "\<not> is_digit (CHR ''-'')" "\<not> is_digit (CHR ''+'')"
  by (simp_all add: is_digit_def)

lemma fmt_nat_Cons_digit: "fmt_nat n = c # cs \<Longrightarrow> is_digit c"
  using fmt_nat_digits [of n] by simp

lemma fmt_d_inject [simp]: "fmt_d i = fmt_d j \<longleftrightarrow> i = j"
proof
  assume eq: "fmt_d i = fmt_d j"
  show "i = j"
  proof (cases "i < 0 \<longleftrightarrow> j < 0")
    case True
    with eq show ?thesis by (auto simp: fmt_d_def split: if_splits)
  next
    case False
    with eq have "\<exists>n cs. fmt_nat n = CHR ''-'' # cs"
      by (auto simp: fmt_d_def split: if_splits dest: sym)
    then show ?thesis using fmt_nat_Cons_digit not_digit_sign(1) by blast
  qed
qed simp

lemma fmt_d_chars: "c \<in> set (fmt_d i) \<Longrightarrow> is_digit c \<or> c = CHR ''-''"
  using fmt_nat_digits by (auto simp: fmt_d_def list_all_iff split: if_splits)

lemma fmt_d_neq_Nil [simp]: "fmt_d i \<noteq> []"
  by (simp add: fmt_d_def)

lemma parse_digits_fmt_nat [simp]: "parse_digits (fmt_nat n) = Some n"
  by (simp add: parse_digits_def fmt_nat_digits)

lemma ParseInt64_fmt_d:
  assumes "- (2 ^ 63) \<le> i" and "i < 2 ^ 63"
  shows "ParseInt64 (fmt_d i) = Some i"
proof (cases "i < 0")
  case True
  with assms show ?thesis by (simp add: ParseInt64_def fmt_d_def)
next
  case False
  obtain c cs where c: "fmt_nat (nat i) = c # cs"
    by (cases "fmt_nat (nat i)") simp_all
  then have "is_digit c" by (rule fmt_nat_Cons_digit)
  then have "c \<noteq> CHR ''-''" "c \<noteq> CHR ''+''" by auto
  with c False assms parse_digits_fmt_nat [of "nat i"] show ?thesis
    by (simp add: ParseInt64_def fmt_d_def)
qed

lemma ParseInt64_range: "ParseInt64 s = Some i \<Longrightarrow> - (2 ^ 63) \<le> i \<and> i < 2 ^ 63"
  by (auto simp: ParseInt64_def Let_def split: option.splits if_splits)


section \<open>Lists\<close>

text \<open>Keeping the last \<open>c\<close> elements of a list that grows at its end.\<close>

lemma drop_snoc_lastn:
  fixes xs :: "'a list" and c :: nat
  defines "ys \<equiv> drop (length xs - c) xs"
  shows "drop (Suc (length ys) - c) (ys @ [x]) = drop (Suc (length xs) - c) (xs @ [x])"
proof (cases "length xs \<le> c")
  case True
  then show ?thesis by (simp add: ys_def)
next
  case False
  have "drop 1 (drop (length xs - c) (xs @ [x])) = drop (Suc (length xs) - c) (xs @ [x])"
    using False by (simp only: drop_drop) (simp add: Suc_diff_le)
  with False show ?thesis by (simp add: ys_def)
qed

lemma length_filter_update:
  "k < length xs \<Longrightarrow>
     length (filter P (xs[k := y])) + (if P (xs ! k) then 1 else 0)
     = length (filter P xs) + (if P y then 1 else 0)"
proof (induction xs arbitrary: k)
  case (Cons x xs)
  show ?case
  proof (cases k)
    case (Suc j)
    with Cons.prems Cons.IH [of j] show ?thesis by auto
  qed simp
qed simp

lemma sum_list_map_update:
  fixes f :: "'a \<Rightarrow> nat"
  assumes "k < length xs"
  shows "sum_list (map f (xs[k := y])) + f (xs ! k) = sum_list (map f xs) + f y"
  using assms
proof (induction xs arbitrary: k)
  case (Cons x xs)
  show ?case
  proof (cases k)
    case (Suc j)
    with Cons.prems Cons.IH [of j] show ?thesis by simp
  qed simp
qed simp


section \<open>Signed 64-bit words\<close>

lemma sint_word_of_int64 [int64_simps]:
  "- (2 ^ 63) \<le> i \<Longrightarrow> i < 2 ^ 63 \<Longrightarrow> sint (word_of_int i :: int64) = i"
  by (simp add: signed_of_int signed_take_bit_int_eq_self)

lemma sint64_bounds: "- (2 ^ 63) \<le> sint (w :: int64)" "sint (w :: int64) < 2 ^ 63"
  using sint_greater_eq [of w] sint_less [of w] by simp_all

lemma sint64_add [int64_simps]:
  "- (2 ^ 63) \<le> sint a + sint b \<Longrightarrow> sint a + sint b < 2 ^ 63
   \<Longrightarrow> sint (a + b :: int64) = sint a + sint b"
  by (simp add: signed_take_bit_int_eq_self sint_word_ariths)

lemma sint64_diff [int64_simps]:
  "- (2 ^ 63) \<le> sint a - sint b \<Longrightarrow> sint a - sint b < 2 ^ 63
   \<Longrightarrow> sint (a - b :: int64) = sint a - sint b"
  by (simp add: signed_take_bit_int_eq_self sint_word_ariths)

lemma sint64_push_bit [int64_simps]:
  assumes "- (2 ^ 63) \<le> sint a * 2 ^ n" and "sint a * 2 ^ n < 2 ^ 63"
  shows "sint (push_bit n a :: int64) = sint a * 2 ^ n"
proof -
  have "push_bit n a = word_of_int (sint a * 2 ^ n)"
    by (simp add: push_bit_eq_mult)
  with assms show ?thesis by (simp only: sint_word_of_int64)
qed

lemma sint64_mod: "sint (w :: int64) mod 2 ^ n = uint w mod 2 ^ n" if "n \<le> 64"
proof -
  have "take_bit n (sint w) = take_bit n (take_bit 64 (sint w))"
    using that by (simp add: min_def)
  also have "take_bit 64 (sint w) = uint w"
    by (simp add: uint_sint)
  finally show ?thesis by (simp add: take_bit_eq_mod)
qed

lemma sint64_and_mask [int64_simps]:
  assumes "n < 64"
  shows "sint (w AND mask n :: int64) = sint w mod 2 ^ n"
proof -
  have lt: "uint w mod 2 ^ n < 2 ^ n" by simp
  also have "(2::int) ^ n \<le> 2 ^ 63"
    using assms by (intro power_increasing) simp_all
  finally have "uint w mod 2 ^ n < 2 ^ 63" .
  moreover have "w AND mask n = word_of_int (uint w mod 2 ^ n)"
    by (simp flip: take_bit_eq_mask take_bit_eq_mod unsigned_take_bit_eq)
  ultimately show ?thesis
    using assms by (simp add: sint_word_of_int64 sint64_mod order.trans [of _ 0])
qed

end
