(* ===== verification/Snowflake.thy ===== *)
theory Snowflake
  imports Go_Prelude
begin

text \<open>
  The identifier generator of \<open>src/internal/snowflake/snowflake.go\<close>.

  The mutex makes every call of \<open>Generate\<close> atomic, so the model is a function on the
  generator's fields. The clock \<open>time.Now().UnixMilli()\<close> is an arbitrary sequence of
  readings: \<open>clk k\<close> is the reading that the \<open>k\<close>-th call returns, and the number of
  readings consumed so far is threaded through. Clocks that stand still or step back are
  included. The busy loop that waits for the next millisecond is a partial function: a clock
  that never advances makes it \<open>None\<close>.
\<close>


section \<open>Constants and state\<close>

definition NodeIDBits :: nat where "NodeIDBits = 10"
definition SequenceBits :: nat where "SequenceBits = 12"
definition TimestampBits :: nat where "TimestampBits = 41"

definition MaxNodeID :: int64 where "MaxNodeID = (- 1) XOR push_bit NodeIDBits (- 1)"
definition MaxSequence :: int64 where "MaxSequence = (- 1) XOR push_bit SequenceBits (- 1)"
definition MaxTimestamp :: int64 where "MaxTimestamp = push_bit TimestampBits 1 - 1"

definition NodeIDShift :: nat where "NodeIDShift = SequenceBits"
definition TimestampShift :: nat where "TimestampShift = SequenceBits + NodeIDBits"

definition DefaultEpoch :: int64 where "DefaultEpoch = 1704067200000"

record Snowflake =
  lastTime :: int64
  nodeID :: int64
  sequence :: int64
  epoch :: int64

definition ErrInvalidNodeID :: go_error where
  "ErrInvalidNodeID = New ''node ID must be between 0 and 1023''"
definition ErrBackwardsTime :: go_error where
  "ErrBackwardsTime = New ''system clock moved backwards''"
definition ErrTimestampOverflow :: go_error where
  "ErrTimestampOverflow =
     New ''timestamp overflow: snowflake ID exceeds 41-bit timestamp capacity''"

type_synonym clock = "nat \<Rightarrow> int64"


section \<open>Operations\<close>

definition NewWithEpoch :: "int64 \<Rightarrow> int64 \<Rightarrow> go_error + Snowflake" where
  "NewWithEpoch node ep =
     (if node <s 0 \<or> MaxNodeID <s node then Inl ErrInvalidNodeID
      else Inr \<lparr>lastTime = 0, nodeID = node, sequence = 0, epoch = ep\<rparr>)"

definition New_sf :: "int64 \<Rightarrow> go_error + Snowflake" where
  "New_sf node = NewWithEpoch node DefaultEpoch"

text \<open>The loop \<open>for now <= s.lastTime\<close>.\<close>

partial_function (option) spin :: "clock \<Rightarrow> int64 \<Rightarrow> int64 \<Rightarrow> nat \<Rightarrow> (int64 \<times> nat) option" where
  "spin clk lastT now k =
     (if now \<le>s lastT then spin clk lastT (clk k) (Suc k) else Some (now, k))"

definition pack :: "int64 \<Rightarrow> int64 \<Rightarrow> int64 \<Rightarrow> int64" where
  "pack t node sq = push_bit TimestampShift t OR push_bit NodeIDShift node OR sq"

text \<open>The tail of \<open>Generate\<close>, from the assignment of \<open>s.lastTime\<close> on.\<close>

definition emit :: "Snowflake \<Rightarrow> int64 \<Rightarrow> int64 \<Rightarrow> (go_error + int64) \<times> Snowflake" where
  "emit s now sq =
     (let s' = s\<lparr>sequence := sq, lastTime := now\<rparr>;
          timeSinceEpoch = now - epoch s
      in if MaxTimestamp <s timeSinceEpoch then (Inl ErrTimestampOverflow, s')
         else (Inr (pack timeSinceEpoch (nodeID s) sq), s'))"

definition Generate ::
  "clock \<Rightarrow> nat \<Rightarrow> Snowflake \<Rightarrow> ((go_error + int64) \<times> Snowflake \<times> nat) option" where
  "Generate clk k s =
     (let now = clk k in
      if now <s lastTime s then Some (Inl ErrBackwardsTime, s, Suc k)
      else if now = lastTime s then
        let sq = (sequence s + 1) AND MaxSequence in
        if sq = 0 then
          (case spin clk (lastTime s) now (Suc k) of
             None \<Rightarrow> None
           | Some (now', k') \<Rightarrow> (case emit s now' sq of (r, s') \<Rightarrow> Some (r, s', k')))
        else (case emit s now sq of (r, s') \<Rightarrow> Some (r, s', Suc k))
      else (case emit s now 0 of (r, s') \<Rightarrow> Some (r, s', Suc k)))"

text \<open>\<open>MustGenerate\<close> panics with the error; \<open>Inl\<close> is the panic.\<close>

definition MustGenerate ::
  "clock \<Rightarrow> nat \<Rightarrow> Snowflake \<Rightarrow> ((go_error + int64) \<times> Snowflake \<times> nat) option" where
  "MustGenerate clk k s =
     (case Generate clk k s of
        None \<Rightarrow> None
      | Some (Inl e, s', k') \<Rightarrow> Some (Inl e, s', k')
      | Some (Inr i, s', k') \<Rightarrow> Some (Inr i, s', k'))"

definition ParseWithEpoch :: "int64 \<Rightarrow> int64 \<Rightarrow> int64 \<times> int64 \<times> int64" where
  "ParseWithEpoch i ep =
     (signed_drop_bit TimestampShift i + ep,
      signed_drop_bit NodeIDShift i AND MaxNodeID,
      i AND MaxSequence)"

definition Parse :: "int64 \<Rightarrow> int64 \<times> int64 \<times> int64" where
  "Parse i =
     (signed_drop_bit TimestampShift i + DefaultEpoch,
      signed_drop_bit NodeIDShift i AND MaxNodeID,
      i AND MaxSequence)"

text \<open>\<open>time.UnixMilli\<close> is kept as the number of milliseconds.\<close>

definition ParseTimeWithEpoch :: "int64 \<Rightarrow> int64 \<Rightarrow> int64" where
  "ParseTimeWithEpoch i ep = signed_drop_bit TimestampShift i + ep"

definition ParseTime :: "int64 \<Rightarrow> int64" where
  "ParseTime i = signed_drop_bit TimestampShift i + DefaultEpoch"

definition Epoch :: "Snowflake \<Rightarrow> int64" where
  "Epoch s = epoch s"

text \<open>A sequence of calls: the identifiers of the calls that succeed, in order.\<close>

fun generate_ids :: "clock \<Rightarrow> nat \<Rightarrow> nat \<Rightarrow> Snowflake \<Rightarrow> (int64 list \<times> Snowflake \<times> nat) option" where
  "generate_ids clk 0 k s = Some ([], s, k)"
| "generate_ids clk (Suc n) k s =
     (case Generate clk k s of
        None \<Rightarrow> None
      | Some (r, s', k') \<Rightarrow>
          (case generate_ids clk n k' s' of
             None \<Rightarrow> None
           | Some (is, s'', k'') \<Rightarrow>
               Some ((case r of Inl _ \<Rightarrow> is | Inr i \<Rightarrow> i # is), s'', k'')))"


section \<open>Evaluation of the constants\<close>

lemma MaxNodeID_eq: "MaxNodeID = 1023"
  by (simp add: MaxNodeID_def NodeIDBits_def mask_eq_exp_minus_1)

lemma MaxSequence_eq: "MaxSequence = 4095"
  by (simp add: MaxSequence_def SequenceBits_def mask_eq_exp_minus_1)

lemma MaxTimestamp_eq: "MaxTimestamp = 2199023255551"
  by (simp add: MaxTimestamp_def TimestampBits_def)

lemmas shift_defs = TimestampShift_def NodeIDShift_def SequenceBits_def NodeIDBits_def
lemmas max_eqs = MaxNodeID_eq MaxSequence_eq MaxTimestamp_eq

lemma mask_eqs: "(1023 :: int64) = mask 10" "(4095 :: int64) = mask 12"
  by (simp_all add: mask_eq_exp_minus_1)


section \<open>Packing and parsing\<close>

definition fields_ok :: "int64 \<Rightarrow> int64 \<Rightarrow> int64 \<Rightarrow> bool" where
  "fields_ok t node sq \<longleftrightarrow>
     - (2 ^ 41) \<le> sint t \<and> sint t < 2 ^ 41 \<and>
     0 \<le> sint node \<and> sint node < 2 ^ 10 \<and> 0 \<le> sint sq \<and> sint sq < 2 ^ 12"

lemma bit_small:
  assumes "0 \<le> sint (w :: int64)" and "sint w < 2 ^ n" and "n < 64"
  shows "\<not> bit w m \<or> m < n"
proof -
  have "uint w = sint w"
    using assms(1) sint64_bounds(2) [of w] by (simp add: uint_sint take_bit_int_eq_self)
  with assms have "take_bit n (uint w) = uint w" by (simp add: take_bit_int_eq_self)
  then have "take_bit n w = w"
    by (metis unsigned_take_bit_eq word_of_int_uint)
  then show ?thesis by (metis bit_take_bit_iff)
qed

lemma pack_add:
  assumes "fields_ok t node sq"
  shows "pack t node sq = push_bit 22 t + push_bit 12 node + sq"
proof -
  have node: "\<And>m. bit node m \<Longrightarrow> m < 10" and sq: "\<And>m. bit sq m \<Longrightarrow> m < 12"
    using assms bit_small [of node 10] bit_small [of sq 12] by (auto simp: fields_ok_def)
  have 1: "push_bit 22 t AND push_bit 12 node = 0"
  proof (rule bit_eqI)
    fix m
    have "\<not> bit node (m - 12)" if "22 \<le> m" using node [of "m - 12"] that by auto
    then show "bit (push_bit 22 t AND push_bit 12 node) m = bit 0 m"
      by (simp add: bit_and_iff bit_push_bit_iff)
  qed
  have 2: "(push_bit 22 t OR push_bit 12 node) AND sq = 0"
  proof (rule bit_eqI)
    fix m
    have "\<not> bit sq m" if "12 \<le> m" using sq [of m] that by auto
    then show "bit ((push_bit 22 t OR push_bit 12 node) AND sq) m = bit 0 m"
      by (cases "12 \<le> m") (auto simp: bit_and_iff bit_or_iff bit_push_bit_iff)
  qed
  show ?thesis
    using 1 2 by (simp add: pack_def shift_defs disjunctive_add_eq_or or.assoc)
qed

lemma sint_pack:
  assumes "fields_ok t node sq"
  shows "sint (pack t node sq) = sint t * 2 ^ 22 + sint node * 2 ^ 12 + sint sq"
proof -
  have t: "sint (push_bit 22 t) = sint t * 2 ^ 22"
    using assms by (intro sint64_push_bit) (auto simp: fields_ok_def)
  have n: "sint (push_bit 12 node) = sint node * 2 ^ 12"
    using assms by (intro sint64_push_bit) (auto simp: fields_ok_def)
  have "sint (push_bit 22 t + push_bit 12 node) = sint t * 2 ^ 22 + sint node * 2 ^ 12"
    using assms t n by (subst sint64_add) (auto simp: fields_ok_def)
  then show ?thesis
    using assms by (subst pack_add [OF assms], subst sint64_add) (auto simp: fields_ok_def)
qed

lemma ParseWithEpoch_pack:
  assumes "fields_ok t node sq"
  shows "ParseWithEpoch (pack t node sq) ep = (t + ep, node, sq)"
proof -
  let ?i = "pack t node sq"
  note i = sint_pack [OF assms]
  have i': "sint ?i = sint sq + 4096 * (sint node + 1024 * sint t)"
    using i by simp
  have b: "0 \<le> sint node" "sint node < 1024" "0 \<le> sint sq" "sint sq < 4096"
    using assms by (auto simp: fields_ok_def)
  have "sint (signed_drop_bit 22 ?i) = sint t"
    using b by (simp add: sint_signed_drop_bit_eq drop_bit_eq_div i)
  moreover have "sint (signed_drop_bit 12 ?i AND mask 10) = sint node"
    using b by (simp add: sint64_and_mask sint_signed_drop_bit_eq drop_bit_eq_div i'
        del: distrib_left_numeral)
  moreover have "sint (?i AND mask 12) = sint sq"
    using b by (simp add: sint64_and_mask i' del: distrib_left_numeral)
  ultimately show ?thesis
    by (auto simp: ParseWithEpoch_def shift_defs max_eqs mask_eqs intro: signed_word_eqI)
qed


section \<open>The wait for the next millisecond\<close>

text \<open>A loop that returns has left the millisecond, with a reading of the clock.\<close>

lemma spin_Some:
  assumes "spin clk lastT now k = Some (now', k')"
  shows "lastT <s now' \<and> (now' = now \<or> (\<exists>j. now' = clk j))"
proof -
  let ?P = "\<lambda>clk lastT now (k :: nat) r. lastT <s fst r \<and> (fst r = now \<or> (\<exists>j. fst r = clk j))"
  have "?P clk lastT now k (now', k')"
  proof (rule spin.raw_induct [where P = ?P, OF _ assms])
    fix f :: "clock \<Rightarrow> int64 \<Rightarrow> int64 \<Rightarrow> nat \<Rightarrow> (int64 \<times> nat) option" and clk lastT now k r
    assume IH: "\<And>clk lastT now k r. f clk lastT now k = Some r \<Longrightarrow> ?P clk lastT now k r"
      and eq: "(if now \<le>s lastT then f clk lastT (clk k) (Suc k) else Some (now, k)) = Some r"
    show "?P clk lastT now k r"
      using eq IH [of clk lastT "clk k" "Suc k" r]
      by (auto simp: word_sless_alt word_sle_eq split: if_splits)
  qed
  then show ?thesis by simp
qed

text \<open>The loop returns as soon as some later reading is past the last time.\<close>

lemma spin_terminates:
  assumes "lastT <s clk (k + d)"
  shows "\<exists>r. spin clk lastT now k = Some r"
  using assms
proof (induction d arbitrary: now k)
  case 0
  then have "\<not> clk k \<le>s lastT" by (simp add: word_sless_alt word_sle_eq)
  then have "spin clk lastT (clk k) (Suc k) = Some (clk k, Suc k)"
    by (simp add: spin.simps)
  then show ?case by (subst spin.simps) simp
next
  case (Suc d)
  then have "\<exists>r. spin clk lastT (clk k) (Suc k) = Some r" by simp
  then show ?case by (subst spin.simps) auto
qed


section \<open>The invariant of a generator\<close>

definition sf_inv :: "int64 \<Rightarrow> Snowflake \<Rightarrow> bool" where
  "sf_inv ep s \<longleftrightarrow>
     epoch s = ep \<and> 0 \<le> sint ep \<and> 0 \<le> sint (lastTime s) \<and>
     0 \<le> sint (nodeID s) \<and> sint (nodeID s) < 2 ^ 10 \<and>
     0 \<le> sint (sequence s) \<and> sint (sequence s) < 2 ^ 12"

text \<open>The position of a generator: every identifier it issued is at most this number.\<close>

definition sf_pos :: "Snowflake \<Rightarrow> int" where
  "sf_pos s = (sint (lastTime s) - sint (epoch s)) * 2 ^ 22
              + sint (nodeID s) * 2 ^ 12 + sint (sequence s)"

definition clock_after :: "int64 \<Rightarrow> clock \<Rightarrow> bool" where
  "clock_after ep clk \<longleftrightarrow> (\<forall>k. sint ep \<le> sint (clk k))"

lemma NewWithEpoch_inv:
  assumes "NewWithEpoch node ep = Inr s" and "0 \<le> sint ep"
  shows "sf_inv ep s" and "nodeID s = node"
  using assms by (auto simp: NewWithEpoch_def sf_inv_def max_eqs word_sless_alt split: if_splits)

lemma sint_next_sequence: "sint ((sq + 1) AND MaxSequence) = (sint sq + 1) mod 4096"
  if "0 \<le> sint sq" "sint sq < 2 ^ 12"
  using that by (simp add: max_eqs mask_eqs sint64_and_mask sint64_add)

lemma emit_keeps:
  assumes "emit s now sq = (r, s')"
  shows "lastTime s' = now" "sequence s' = sq" "nodeID s' = nodeID s" "epoch s' = epoch s"
  using assms by (auto simp: emit_def Let_def split: if_splits)

lemma emit_id:
  assumes "emit s now sq = (Inr i, s')" and "sf_inv ep s"
    and "sint ep \<le> sint now" and "0 \<le> sint sq" and "sint sq < 2 ^ 12"
  shows "fields_ok (now - ep) (nodeID s) sq \<and> i = pack (now - ep) (nodeID s) sq \<and> sint i = sf_pos s'"
proof -
  have d: "sint (now - ep) = sint now - sint ep"
    using assms sint64_bounds [of now] sint64_bounds [of ep]
    by (intro sint64_diff) (auto simp: sf_inv_def)
  have i: "i = pack (now - ep) (nodeID s) sq" "sint (now - ep) \<le> 2199023255551"
    using assms by (auto simp: emit_def Let_def max_eqs word_sless_alt sf_inv_def split: if_splits)
  then have f: "fields_ok (now - ep) (nodeID s) sq"
    using assms d by (auto simp: fields_ok_def sf_inv_def)
  show ?thesis
    using i f assms d emit_keeps [OF assms(1)] by (simp add: sint_pack sf_pos_def sf_inv_def)
qed

text \<open>
  One call, in one statement: what every branch of \<open>Generate\<close> does to the generator.
  The call either reports a clock that moved backwards and changes nothing, or moves on to a
  later position \<open>(now, sq)\<close> and reports what \<open>emit\<close> computes there.
\<close>

lemma Generate_cases:
  assumes "Generate clk k s = Some (r, s', k')" and "sf_inv ep s" and "clock_after ep clk"
  obtains (backwards) "r = Inl ErrBackwardsTime" "s' = s" "k' = Suc k" "clk k <s lastTime s"
    | (emitted) now sq where "emit s now sq = (r, s')" "sint ep \<le> sint now"
        "0 \<le> sint now" "0 \<le> sint sq" "sint sq < 2 ^ 12" "sf_pos s < sf_pos s'"
proof -
  have clk: "\<And>j. sint ep \<le> sint (clk j)" and ep: "0 \<le> sint ep"
    using assms(2,3) by (auto simp: clock_after_def sf_inv_def)
  have sq: "0 \<le> sint (sequence s)" "sint (sequence s) < 4096"
    using assms(2) by (auto simp: sf_inv_def)
  let ?sq = "(sequence s + 1) AND MaxSequence"
  have nx: "sint ?sq = (sint (sequence s) + 1) mod 4096"
    using sq by (simp add: sint_next_sequence)
  consider "clk k <s lastTime s"
    | "clk k = lastTime s" "?sq = 0" | "clk k = lastTime s" "?sq \<noteq> 0" | "lastTime s <s clk k"
    by (auto simp: word_sless_alt) (metis linorder_less_linear signed_word_eqI)
  then show thesis
  proof cases
    case 1
    then show ?thesis using assms(1) backwards by (simp add: Generate_def Let_def)
  next
    case 2
    then obtain now where *: "spin clk (lastTime s) (clk k) (Suc k) = Some (now, k')"
        "emit s now 0 = (r, s')"
      using assms(1) by (auto simp: Generate_def Let_def word_sless_alt split: option.splits prod.splits)
    have g: "lastTime s <s now" "sint ep \<le> sint now"
      using spin_Some [OF *(1)] clk by auto
    then have "sf_pos s < sf_pos s'"
      using emit_keeps [OF *(2)] sq by (simp add: sf_pos_def word_sless_alt)
    then show ?thesis using emitted [OF *(2) g(2)] g ep by simp
  next
    case 3
    then have *: "emit s (clk k) ?sq = (r, s')"
      using assms(1) by (auto simp: Generate_def Let_def word_sless_alt split: prod.splits)
    have "sint ?sq \<noteq> 0" using 3(2) by (metis signed_0 signed_word_eqI)
    then have "sint ?sq = sint (sequence s) + 1"
      using nx sq by (cases "sint (sequence s) = 4095") auto
    then have "sf_pos s < sf_pos s'"
      using emit_keeps [OF *] 3 by (simp add: sf_pos_def)
    then show ?thesis using emitted [OF *] clk ep nx by (simp add: order.trans [OF ep])
  next
    case 4
    then have "clk k \<noteq> lastTime s" by (auto simp: word_sless_alt)
    with 4 have *: "emit s (clk k) 0 = (r, s')"
      using assms(1) by (auto simp: Generate_def Let_def word_sless_alt split: prod.splits)
    then have "sf_pos s < sf_pos s'"
      using emit_keeps [OF *] 4 sq by (simp add: sf_pos_def word_sless_alt)
    then show ?thesis using emitted [OF *] clk ep by (simp add: order.trans [OF ep])
  qed
qed


lemma Generate_inv:
  assumes "Generate clk k s = Some (r, s', k')" and "sf_inv ep s" and "clock_after ep clk"
  shows "sf_inv ep s'" and "nodeID s' = nodeID s" and "sf_pos s \<le> sf_pos s'"
  using assms
  by (cases rule: Generate_cases [OF assms]; auto simp: sf_inv_def dest: emit_keeps)+

lemma Generate_id:
  assumes "Generate clk k s = Some (Inr i, s', k')" and "sf_inv ep s" and "clock_after ep clk"
  shows "sf_pos s < sint i \<and> sint i = sf_pos s' \<and>
    ParseWithEpoch i ep = (lastTime s', nodeID s, sequence s') \<and>
    i = pack (lastTime s' - ep) (nodeID s) (sequence s') \<and> 0 \<le> sint i \<and>
    sint i mod 2 ^ 22 div 2 ^ 12 = sint (nodeID s)"
proof (cases rule: Generate_cases [OF assms])
  case (2 now sq)
  note e = emit_id [OF 2(1) assms(2) 2(2,4,5)]
  have "0 \<le> sf_pos s'"
    using emit_keeps [OF 2(1)] 2 assms(2) by (simp add: sf_pos_def sf_inv_def)
  moreover  have "sint i mod 2 ^ 22 div 2 ^ 12 = sint (nodeID s)"
  proof -
    have "sint i = (sint (nodeID s) * 2 ^ 12 + sint sq) + 2 ^ 22 * sint (now - ep)"
      using e sint_pack [of "now - ep" "nodeID s" sq] by simp
    then have "sint i mod 2 ^ 22 = (sint (nodeID s) * 2 ^ 12 + sint sq) mod 2 ^ 22"
      by (simp only: mod_mult_self2)
    also have "\<dots> = sint (nodeID s) * 2 ^ 12 + sint sq"
      using 2(4,5) assms(2) by (intro mod_pos_pos_trivial) (auto simp: sf_inv_def)
    finally show ?thesis using 2(4,5) by simp
  qed
  ultimately show ?thesis
    using e 2 emit_keeps [OF 2(1)] ParseWithEpoch_pack [of "now - ep" "nodeID s" sq ep] by auto
qed simp


section \<open>The contract of an identifier source\<close>

text \<open>
  What the event store and the HTTP handlers rely on: successive identifiers carry strictly
  increasing keys. \<open>gen\<close> may also report a failure (\<open>None\<close> in its result) or not
  return at all; \<open>pos\<close> is a position that every issued key has reached.
\<close>

fun issue :: "('s \<Rightarrow> ('i option \<times> 's) option) \<Rightarrow> nat \<Rightarrow> 's \<Rightarrow> ('i list \<times> 's) option" where
  "issue gen 0 s = Some ([], s)"
| "issue gen (Suc n) s =
     (case gen s of
        None \<Rightarrow> None
      | Some (r, s') \<Rightarrow>
          map_option (\<lambda>(is, t). (case r of None \<Rightarrow> is | Some i \<Rightarrow> i # is, t)) (issue gen n s'))"

locale increasing_source =
  fixes gen :: "'s \<Rightarrow> ('i option \<times> 's) option"
    and ok :: "'s \<Rightarrow> bool"
    and pos :: "'s \<Rightarrow> int"
    and key :: "'i \<Rightarrow> int"
  assumes gen_ok: "ok s \<Longrightarrow> gen s = Some (r, s') \<Longrightarrow> ok s'"
    and gen_pos: "ok s \<Longrightarrow> gen s = Some (r, s') \<Longrightarrow> pos s \<le> pos s'"
    and gen_key: "ok s \<Longrightarrow> gen s = Some (Some i, s') \<Longrightarrow> pos s < key i \<and> key i \<le> pos s'"
begin

lemma issue_increasing:
  assumes "ok s" and "issue gen n s = Some (is, t)"
  shows "ok t \<and> pos s \<le> pos t \<and> sorted_wrt (<) (map key is) \<and>
         (\<forall>i \<in> set is. pos s < key i \<and> key i \<le> pos t)"
  using assms
proof (induction n arbitrary: s "is")
  case (Suc n)
  then obtain r s' js where g: "gen s = Some (r, s')" and js: "issue gen n s' = Some (js, t)"
      and "is": "is = (case r of None \<Rightarrow> js | Some i \<Rightarrow> i # js)"
    by (auto split: option.splits)
  have IH: "ok t \<and> pos s' \<le> pos t \<and> sorted_wrt (<) (map key js) \<and>
      (\<forall>i \<in> set js. pos s' < key i \<and> key i \<le> pos t)"
    using gen_ok [OF Suc.prems(1) g] js by (rule Suc.IH)
  show ?case
  proof (cases r)
    case None
    then show ?thesis using IH "is" gen_pos [OF Suc.prems(1) g] by fastforce
  next
    case (Some i)
    then show ?thesis
      using IH "is" gen_key [OF Suc.prems(1)] g gen_pos [OF Suc.prems(1) g] by fastforce
  qed
qed simp

lemma issue_distinct: "ok s \<Longrightarrow> issue gen n s = Some (is, t) \<Longrightarrow> distinct is"
  using issue_increasing [of s n "is" t] strict_sorted_iff [of "map key is"]
  by (simp add: distinct_map)

end

text \<open>The generator, as a source on its fields and the number of clock readings consumed.\<close>

definition sf_gen :: "clock \<Rightarrow> Snowflake \<times> nat \<Rightarrow> (int64 option \<times> Snowflake \<times> nat) option" where
  "sf_gen clk = (\<lambda>(s, k). map_option
     (\<lambda>(r, s', k'). (case r of Inl _ \<Rightarrow> None | Inr i \<Rightarrow> Some i, s', k')) (Generate clk k s))"

lemma generate_ids_issue:
  "generate_ids clk n k s = map_option (\<lambda>(is, s', k'). (is, s', k')) (issue (sf_gen clk) n (s, k))"
  by (induction n arbitrary: k s)
    (auto simp: sf_gen_def split: option.splits sum.splits prod.splits)

lemma sf_gen_Some:
  assumes "sf_gen clk (s, k) = Some (x, s', k')"
  obtains r where "Generate clk k s = Some (r, s', k')"
    "x = (case r of Inl _ \<Rightarrow> None | Inr i \<Rightarrow> Some i)"
  using assms by (auto simp: sf_gen_def)

interpretation sf: increasing_source "sf_gen clk"
    "\<lambda>(s, k). sf_inv ep s \<and> clock_after ep clk" "\<lambda>(s, k). sf_pos s" sint
  for ep clk
proof (unfold_locales, goal_cases)
  case (1 s r s')
  then show ?case by (cases s; cases s') (auto elim!: sf_gen_Some dest: Generate_inv)
next
  case (2 s r s')
  then show ?case by (cases s; cases s') (auto elim!: sf_gen_Some dest: Generate_inv)
next
  case (3 s i s')
  then show ?case
    by (cases s; cases s') (fastforce elim!: sf_gen_Some split: sum.splits dest: Generate_id)
qed

lemmas generate_ids_increasing =
  sf.issue_increasing [where s = "(s, k)" and t = "(t, k')" for s k t k', simplified]


section \<open>Runs\<close>

text \<open>What holds of every identifier that one call issues holds of every identifier of a run.\<close>

lemma generate_ids_all:
  assumes "generate_ids clk n k s = Some (is, t, j)"
    and "sf_inv ep s" and "clock_after ep clk" and "nodeID s = node"
    and Q: "\<And>k s i s' k'. Generate clk k s = Some (Inr i, s', k') \<Longrightarrow> sf_inv ep s
              \<Longrightarrow> nodeID s = node \<Longrightarrow> Q i"
  shows "\<forall>i \<in> set is. Q i"
  using assms(1,2,4)
proof (induction n arbitrary: k s "is")
  case (Suc n)
  then obtain r s' k' js where g: "Generate clk k s = Some (r, s', k')"
      and js: "generate_ids clk n k' s' = Some (js, t, j)"
      and "is": "is = (case r of Inl _ \<Rightarrow> js | Inr i \<Rightarrow> i # js)"
    by (auto split: option.splits)
  have "\<forall>i \<in> set js. Q i"
    using Suc.IH [OF js] Generate_inv [OF g Suc.prems(2) assms(3)] Suc.prems(3) by simp
  then show ?case
    using "is" Q [OF _ Suc.prems(2,3)] g by (auto split: sum.splits)
qed simp

definition id_shape :: "int64 \<Rightarrow> int64 \<Rightarrow> int64 \<Rightarrow> bool" where
  "id_shape ep node i \<longleftrightarrow>
     (case ParseWithEpoch i ep of (t, n, sq) \<Rightarrow>
        n = node \<and> 0 \<le> sint sq \<and> sint sq < 2 ^ 12 \<and> i = pack (t - ep) n sq) \<and>
     0 \<le> sint i \<and> sint i mod 2 ^ 22 div 2 ^ 12 = sint node"

lemma id_shapeD:
  assumes "id_shape ep node i"
  shows "fst (snd (ParseWithEpoch i ep)) = node"
    and "i = pack (ParseTimeWithEpoch i ep - ep) node (snd (snd (ParseWithEpoch i ep)))"
    and "sint (snd (snd (ParseWithEpoch i ep))) \<in> {0..<4096}"
  using assms by (auto simp: id_shape_def ParseTimeWithEpoch_def ParseWithEpoch_def)

lemma generate_ids_shape:
  assumes "generate_ids clk n k s = Some (is, t, j)" and "sf_inv ep s" and "clock_after ep clk"
  shows "\<forall>i \<in> set is. id_shape ep (nodeID s) i"
proof (rule generate_ids_all [OF assms refl])
  fix k u i u' k'
  assume "Generate clk k u = Some (Inr i, u', k')" "sf_inv ep u" "nodeID u = nodeID s"
  then show "id_shape ep (nodeID s) i"
    using Generate_id [of clk k u i u' k' ep] Generate_inv [of clk k u "Inr i" u' k' ep] assms(3)
    by (auto simp: id_shape_def sf_inv_def)
qed

lemma Generate_exhausted:
  assumes "Generate clk k s = Some (r, s', k')" and "sf_inv ep s" and "clock_after ep clk"
    and "2 ^ 41 \<le> sint (lastTime s) - sint ep"
  shows "\<exists>e. r = Inl e" and "2 ^ 41 \<le> sint (lastTime s') - sint ep"
proof -
  have "(\<exists>e. r = Inl e) \<and> 2 ^ 41 \<le> sint (lastTime s') - sint ep"
  proof (cases rule: Generate_cases [OF assms(1-3)])
    case 1
    then show ?thesis using assms(4) by simp
  next
    case (2 now sq)
    have "sint (lastTime s) \<le> sint now"
      using assms(1,2) emit_keeps(1) [OF 2(1)] spin_Some
      by (auto simp: Generate_def Let_def word_sless_alt emit_def split: if_splits option.splits prod.splits)
        (fastforce dest: spin_Some simp: word_sless_alt)+
    moreover have "sint (now - ep) = sint now - sint ep"
      using assms(2) 2(2) sint64_bounds [of now] by (intro sint64_diff) (auto simp: sf_inv_def)
    ultimately show ?thesis
      using 2(1) assms by (auto simp: emit_def Let_def max_eqs word_sless_alt sf_inv_def)
  qed
  then show "\<exists>e. r = Inl e" and "2 ^ 41 \<le> sint (lastTime s') - sint ep" by simp_all
qed


section \<open>Properties\<close>

text \<open>A concrete generator for the witnesses: node 1, with the clock standing at 5 ms.\<close>

definition demo_clock :: clock where
  "demo_clock = (\<lambda>_. DefaultEpoch + 5)"

definition demo_sf :: Snowflake where
  "demo_sf = \<lparr>lastTime = 0, nodeID = 1, sequence = 0, epoch = DefaultEpoch\<rparr>"

lemma demo_New: "NewWithEpoch 1 DefaultEpoch = Inr demo_sf"
  by (simp add: NewWithEpoch_def demo_sf_def max_eqs word_sless_alt)

lemma demo_inv: "sf_inv DefaultEpoch demo_sf" "clock_after DefaultEpoch demo_clock"
    "0 \<le> sint DefaultEpoch" "nodeID demo_sf = 1"
  by (simp_all add: sf_inv_def demo_sf_def clock_after_def demo_clock_def DefaultEpoch_def)

lemmas sf_eval = Generate_def emit_def Let_def pack_def shift_defs max_eqs word_sless_alt
  DefaultEpoch_def demo_sf_def demo_clock_def

lemma demo_Generate:
  "Generate demo_clock 0 demo_sf =
     Some (Inr 20975616, demo_sf\<lparr>lastTime := DefaultEpoch + 5\<rparr>, 1)"
  by (simp add: sf_eval)

lemma demo_ids:
  "generate_ids demo_clock (Suc (Suc 0)) 0 demo_sf =
     Some ([20975616, 20975617],
           demo_sf\<lparr>lastTime := DefaultEpoch + 5, sequence := 1\<rparr>, Suc (Suc 0))"
  by (simp add: sf_eval)

text \<open>
  C4. Identifiers of one generator are strictly increasing, hence pairwise different,
  whatever the clock does after the epoch: it may stand still, jump, or step back.
\<close>

theorem snowflake_ids_increasing:
  assumes "NewWithEpoch node ep = Inr s" and "0 \<le> sint ep" and "clock_after ep clk"
    and "generate_ids clk n k s = Some (is, s', k')"
  shows "sorted_wrt (<) (map sint is) \<and> distinct is \<and> (\<forall>i \<in> set is. 0 \<le> sint i)"
proof -
  have inv: "sf_inv ep s" using NewWithEpoch_inv assms(1,2) by blast
  have iss: "issue (sf_gen clk) n (s, k) = Some (is, s', k')"
    using assms(4) by (auto simp: generate_ids_issue)
  have "\<forall>i \<in> set is. 0 \<le> sint i"
    using generate_ids_shape [OF assms(4) inv assms(3)] by (simp add: id_shape_def)
  with iss inv assms(3) show ?thesis
    using generate_ids_increasing [of ep s clk n k "is" s' k'] sf.issue_distinct by auto
qed

theorem snowflake_ids_increasing_witness:
  "sorted_wrt (<) (map sint [20975616, 20975617 :: int64]) \<and>
   distinct [20975616, 20975617 :: int64]"
  using snowflake_ids_increasing [OF demo_New demo_inv(3,2) demo_ids] by blast

text \<open>
  C23. Every identifier that \<open>Generate\<close> issues parses back to the time, the node and the
  sequence number that the generator used.
\<close>

theorem snowflake_roundtrip:
  assumes "Generate clk k s = Some (Inr i, s', k')" and "sf_inv ep s" and "clock_after ep clk"
  shows "ParseWithEpoch i ep = (lastTime s', nodeID s, sequence s') \<and>
         ParseTimeWithEpoch i ep = lastTime s' \<and> nodeID s' = nodeID s \<and> sf_inv ep s'"
  using Generate_id [OF assms] Generate_inv [OF assms]
  by (auto simp: ParseTimeWithEpoch_def ParseWithEpoch_def)

theorem snowflake_roundtrip_witness:
  "ParseWithEpoch 20975616 DefaultEpoch = (DefaultEpoch + 5, 1, 0) \<and>
   ParseTimeWithEpoch 20975616 DefaultEpoch = DefaultEpoch + 5"
  using snowflake_roundtrip [OF demo_Generate demo_inv(1,2)] by (simp add: demo_sf_def)

text \<open>
  C24. Generators with different node numbers and the same epoch never issue the same
  identifier, however their clocks run.
\<close>

theorem snowflake_nodes_disjoint:
  assumes "NewWithEpoch node1 ep = Inr s1" and "NewWithEpoch node2 ep = Inr s2"
    and "node1 \<noteq> node2" and "0 \<le> sint ep" and "clock_after ep clk1" and "clock_after ep clk2"
    and "generate_ids clk1 n1 k1 s1 = Some (is1, t1, j1)"
    and "generate_ids clk2 n2 k2 s2 = Some (is2, t2, j2)"
  shows "set is1 \<inter> set is2 = {}"
proof -
  have inv: "sf_inv ep s1" "nodeID s1 = node1" "sf_inv ep s2" "nodeID s2 = node2"
    using NewWithEpoch_inv assms(1,2,4) by blast+
  have "\<forall>i \<in> set is1. id_shape ep node1 i"
    using generate_ids_shape [OF assms(7) inv(1) assms(5)] inv(2) by simp
  moreover have "\<forall>i \<in> set is2. id_shape ep node2 i"
    using generate_ids_shape [OF assms(8) inv(3) assms(6)] inv(4) by simp
  ultimately have "node1 = node2" if "i \<in> set is1" "i \<in> set is2" for i
    using that id_shapeD(1) by blast
  with assms(3) show ?thesis by blast
qed

theorem snowflake_nodes_disjoint_witness:
  "set [20975616, 20975617] \<inter> set [20979712 :: int64] = {}"
proof -
  let ?s2 = "demo_sf\<lparr>nodeID := 2\<rparr>"
  have n2: "NewWithEpoch 2 DefaultEpoch = Inr ?s2"
    by (simp add: NewWithEpoch_def demo_sf_def max_eqs word_sless_alt)
  have g2: "generate_ids demo_clock 1 0 ?s2 =
      Some ([20979712], ?s2\<lparr>lastTime := DefaultEpoch + 5\<rparr>, 1)"
    by (simp add: sf_eval)
  show ?thesis
    by (rule snowflake_nodes_disjoint [OF demo_New n2 _ demo_inv(3,2,2) demo_ids g2]) simp
qed

text \<open>
  One node issues at most 4096 identifiers that carry the same millisecond.
\<close>

theorem snowflake_rate_bound:
  assumes "NewWithEpoch node ep = Inr s" and "0 \<le> sint ep" and "clock_after ep clk"
    and "generate_ids clk n k s = Some (is, s', k')"
  shows "card {i \<in> set is. ParseTimeWithEpoch i ep = t} \<le> 4096"
proof -
  let ?A = "{i \<in> set is. ParseTimeWithEpoch i ep = t}"
  let ?sq = "\<lambda>i. sint (snd (snd (ParseWithEpoch i ep)))"
  have inv: "sf_inv ep s" using NewWithEpoch_inv assms(1,2) by blast
  have shape: "id_shape ep (nodeID s) i" if "i \<in> ?A" for i
    using generate_ids_shape [OF assms(4) inv assms(3)] that by simp
  have "inj_on ?sq ?A"
  proof (rule inj_onI)
    fix i j assume ij: "i \<in> ?A" "j \<in> ?A" "?sq i = ?sq j"
    have "snd (snd (ParseWithEpoch i ep)) = snd (snd (ParseWithEpoch j ep))"
      using ij(3) by (rule signed_word_eqI)
    with ij show "i = j"
      using id_shapeD(2) [OF shape [OF ij(1)]] id_shapeD(2) [OF shape [OF ij(2)]] by simp
  qed
  moreover have "?sq ` ?A \<subseteq> {0..<4096}"
    using shape id_shapeD(3) by blast
  ultimately have "card ?A \<le> card {0..<4096 :: int}"
    by (intro card_inj_on_le) auto
  then show ?thesis by simp
qed

theorem snowflake_rate_bound_witness:
  "card {i \<in> set [20975616, 20975617]. ParseTimeWithEpoch i DefaultEpoch = DefaultEpoch + 5} \<le> 4096"
  by (rule snowflake_rate_bound [OF demo_New demo_inv(3,2) demo_ids])

text \<open>
  C25. \<open>Generate\<close> returns: at once when the millisecond still has sequence numbers left
  or the clock is not standing, and otherwise as soon as some later reading of the clock is
  past the last time used.
\<close>

theorem Generate_returns:
  assumes "lastTime s <s clk (Suc k + d)"
  shows "\<exists>r s' k'. Generate clk k s = Some (r, s', k')"
  using assms spin_terminates [of "lastTime s" clk "Suc k" d "clk k"]
  by (auto simp: Generate_def Let_def split: prod.splits)

theorem Generate_returns_witness:
  "\<exists>r s' k'. Generate (\<lambda>k. if k < 3 then 7 else 8) 0
     \<lparr>lastTime = 7, nodeID = 1, sequence = 4095, epoch = 0\<rparr> = Some (r, s', k')"
  by (rule Generate_returns [where d = 2]) (simp add: word_sless_alt)

text \<open>
  The error returns. A clock behind the last time leaves the generator untouched; a time
  past the 41 bits is reported after the generator has moved on, and from then on no call
  ever issues an identifier again.
\<close>

theorem Generate_errors:
  assumes "Generate clk k s = Some (Inl e, s', k')" and "sf_inv ep s" and "clock_after ep clk"
  shows "(e = ErrBackwardsTime \<and> s' = s \<and> clk k <s lastTime s) \<or>
         (e = ErrTimestampOverflow \<and> 2 ^ 41 \<le> sint (lastTime s') - sint ep \<and> sf_pos s < sf_pos s' \<and>
          (\<forall>j r u j'. Generate clk j s' = Some (r, u, j') \<longrightarrow> (\<exists>e'. r = Inl e')))"
proof (cases rule: Generate_cases [OF assms])
  case (2 now sq)
  have "sint (now - ep) = sint now - sint ep"
    using assms(2) 2(2) sint64_bounds [of now] by (intro sint64_diff) (auto simp: sf_inv_def)
  then have "e = ErrTimestampOverflow" "2 ^ 41 \<le> sint (lastTime s') - sint ep"
    using 2 assms(2) by (auto simp: emit_def Let_def max_eqs word_sless_alt sf_inv_def split: if_splits)
  then show ?thesis
    using 2(6) Generate_exhausted(1) Generate_inv(1) [OF assms] assms(3) by blast
qed simp

theorem Generate_errors_witness:
  "\<not> errors_Is ErrBackwardsTime ErrTimestampOverflow \<and>
   Generate demo_clock 0 (demo_sf\<lparr>lastTime := DefaultEpoch + 9\<rparr>) =
     Some (Inl ErrBackwardsTime, demo_sf\<lparr>lastTime := DefaultEpoch + 9\<rparr>, 1) \<and>
   demo_clock 0 <s DefaultEpoch + 9"
proof -
  let ?s = "demo_sf\<lparr>lastTime := DefaultEpoch + 9\<rparr>"
  have g: "Generate demo_clock 0 ?s = Some (Inl ErrBackwardsTime, ?s, 1)"
    by (simp add: sf_eval)
  have i: "sf_inv DefaultEpoch ?s"
    by (simp add: sf_inv_def demo_sf_def DefaultEpoch_def)
  show ?thesis
    using Generate_errors [OF g i demo_inv(2)] g
    by (simp add: ErrBackwardsTime_def ErrTimestampOverflow_def demo_sf_def)
qed

end
