(* ===== verification/Go_Float.thy ===== *)
theory Go_Float
  imports Go_Prelude Complex_Main "HOL-Library.Log_Nat"
begin

text \<open>
  Go's \<open>float64\<close> arithmetic, as far as the backoff computation uses it: a finite float is
  the rational number it denotes, and every operation rounds its exact result to 53
  significant bits, to nearest with ties to even. Infinities, NaN and subnormal numbers are
  outside the model: the delays and factors of the program are far from them.
\<close>

type_synonym float64 = rat

definition round_even :: "rat \<Rightarrow> int" where
  "round_even y =
     (let f = \<lfloor>y\<rfloor>; r = y - of_int f
      in if r < 1 / 2 then f else if 1 / 2 < r then f + 1 else if even f then f else f + 1)"

definition exp2 :: "int \<Rightarrow> rat" where
  "exp2 e = (if 0 \<le> e then 2 ^ nat e else 1 / 2 ^ nat (- e))"

text \<open>The exponent \<open>e\<close> with \<open>2\<^sup>e \<le> x < 2\<^sup>e\<^sup>+\<^sup>1\<close>, for positive \<open>x\<close>.\<close>

definition exponent :: "rat \<Rightarrow> int" where
  "exponent x =
     (case quotient_of x of (p, q) \<Rightarrow>
        if q \<le> p then int (floorlog 2 (nat (p div q))) - 1
        else - int (floorlog 2 (nat ((q - 1) div p))))"

definition round64 :: "rat \<Rightarrow> float64" where
  "round64 x =
     (if x = 0 then 0
      else let u = exp2 (exponent \<bar>x\<bar> - 52) in of_int (round_even (x / u)) * u)"

definition float_of_int :: "int \<Rightarrow> float64" where
  "float_of_int n = round64 (of_int n)"

definition float_mult :: "float64 \<Rightarrow> float64 \<Rightarrow> float64" where
  "float_mult x y = round64 (x * y)"

definition float_Min :: "float64 \<Rightarrow> float64 \<Rightarrow> float64" where
  "float_Min x y = min x y"

text \<open>Conversion of a float to an integer type discards the fraction.\<close>

definition int_of_float :: "float64 \<Rightarrow> int" where
  "int_of_float x = (if 0 \<le> x then \<lfloor>x\<rfloor> else \<lceil>x\<rceil>)"

lemma round_even_of_int [simp]: "round_even (of_int n) = n"
  by (simp add: round_even_def)

lemma exponent_of_int:
  assumes "0 < n" and "n < 2 ^ 53"
  shows "exponent (of_int n) \<le> 52"
proof -
  have "floorlog 2 (nat n) \<le> 53"
    using assms by (intro floorlog_leI) auto
  then show ?thesis using assms by (simp add: exponent_def)
qed

lemma round64_of_int:
  assumes "\<bar>n\<bar> < 2 ^ 53"
  shows "round64 (of_int n) = of_int n"
proof (cases "n = 0")
  case False
  define e where "e = nat (52 - exponent (of_int \<bar>n\<bar>))"
  have "exponent (of_int \<bar>n\<bar>) \<le> 52"
    using assms False by (intro exponent_of_int) auto
  then have u: "exp2 (exponent (of_int \<bar>n\<bar>) - 52) = 1 / 2 ^ e"
    by (cases "exponent (of_int \<bar>n\<bar>) = 52") (auto simp: exp2_def e_def)
  have "(of_int n :: rat) / (1 / 2 ^ e) = of_int (n * 2 ^ e)" by simp
  then have "round_even (of_int n / (1 / 2 ^ e)) = n * 2 ^ e"
    by (simp only: round_even_of_int)
  with False u show ?thesis by (simp add: round64_def Let_def flip: of_int_abs)
qed (simp add: round64_def)

lemma int_of_float_of_int [simp]: "int_of_float (of_int n) = n"
  by (simp add: int_of_float_def)

lemma int_of_float_mono: "x \<le> y \<Longrightarrow> int_of_float x \<le> int_of_float y"
  unfolding int_of_float_def
  by (auto intro: floor_mono ceiling_mono) 
    (meson ceiling_le_zero floor_mono le_floor_iff linorder_not_le order.trans zero_le_floor less_imp_le)

end
