(* ===== verification/Retry.thy ===== *)
theory Retry
  imports Go_Float
begin

text \<open>
  The package \<open>src/internal/retry/retry.go\<close>: the bounded dead letter queue, the retry loop
  with exponential backoff, and the batch retry with its per-item goroutines.

  What the environment decides is an argument: \<open>ctx_view\<close> says what the context reports at
  each attempt, and a schedule (a list of goroutine numbers) says in which order the
  goroutines of \<open>BatchRetry\<close> run. A theorem about every view and every schedule is a
  theorem about every interleaving. The operation under retry transforms a state \<open>'s\<close>,
  the store it works on.
\<close>


section \<open>Configuration and results\<close>

record retry_config =
  MaxAttempts :: int
  BaseDelay :: int
  MaxDelay :: int
  Multiplier :: float64

definition ms :: int where "ms = 1000000"

definition DefaultConfig :: retry_config where
  "DefaultConfig = \<lparr>MaxAttempts = 5, BaseDelay = 50 * ms, MaxDelay = 1000 * ms, Multiplier = 2\<rparr>"

record retry_Result =
  Success :: bool
  Attempts :: int
  Err :: "go_error option"

definition Canceled :: go_error where "Canceled = New ''context canceled''"
definition DeadlineExceeded :: go_error where
  "DeadlineExceeded = New ''context deadline exceeded''"

definition ctxErr :: "go_error \<Rightarrow> go_error option" where
  "ctxErr e = (if e = Canceled then Some Canceled
               else if e = DeadlineExceeded then Some DeadlineExceeded else None)"

definition DefaultRetryable :: "go_error option \<Rightarrow> bool" where
  "DefaultRetryable err = (case err of None \<Rightarrow> False | Some e \<Rightarrow> ctxErr e = None)"


section \<open>The dead letter queue\<close>

record 'e DeadLetterEvent =
  Event :: 'e
  Reason :: string
  dl_Attempts :: int
  LastError :: "go_error option"
  Timestamp :: int

record 'e DeadLetterQueue =
  dlq_events :: "'e DeadLetterEvent list"
  dlq_maxSize :: int

text \<open>\<open>make\<close> panics on a negative capacity (\<open>None\<close>).\<close>

definition NewDeadLetterQueue :: "int \<Rightarrow> 'e DeadLetterQueue option" where
  "NewDeadLetterQueue maxSize =
     (if maxSize < 0 then None else Some \<lparr>dlq_events = [], dlq_maxSize = maxSize\<rparr>)"

text \<open>
  \<open>copy(events, events[1:])\<close> moves every element one place to the front and leaves the
  last one where it is.
\<close>

definition shift_left :: "'a list \<Rightarrow> 'a list" where
  "shift_left xs = (if xs = [] then [] else tl xs @ [last xs])"

definition Add :: "'e DeadLetterQueue \<Rightarrow> 'e DeadLetterEvent \<Rightarrow> 'e DeadLetterQueue" where
  "Add q e =
     (let es = dlq_events q @ [e]
      in if int (length es) > dlq_maxSize q
         then q\<lparr>dlq_events := take (nat (dlq_maxSize q)) (shift_left es)\<rparr>
         else q\<lparr>dlq_events := es\<rparr>)"

definition Len :: "'e DeadLetterQueue \<Rightarrow> nat" where
  "Len q = length (dlq_events q)"

definition GetAll :: "'e DeadLetterQueue \<Rightarrow> 'e DeadLetterEvent list" where
  "GetAll q = dlq_events q"

definition dlq_inv :: "'e DeadLetterQueue \<Rightarrow> bool" where
  "dlq_inv q \<longleftrightarrow> 0 \<le> dlq_maxSize q \<and> int (Len q) \<le> dlq_maxSize q"


section \<open>The retry loop\<close>

text \<open>
  \<open>ctx_err a\<close> is \<open>ctx.Err()\<close> right after attempt \<open>a\<close>; \<open>ctx_done a\<close> is
  \<open>Some e\<close> when the context ends, with \<open>e\<close>, before the timer of the backoff after
  attempt \<open>a\<close> fires.
\<close>

record ctx_view =
  ctx_err :: "nat \<Rightarrow> go_error option"
  ctx_done :: "nat \<Rightarrow> go_error option"

definition Background :: ctx_view where
  "Background = \<lparr>ctx_err = (\<lambda>_. None), ctx_done = (\<lambda>_. None)\<rparr>"

type_synonym 's effect = "'s \<Rightarrow> go_error option \<times> 's"

definition next_delay :: "retry_config \<Rightarrow> int \<Rightarrow> int" where
  "next_delay cfg delay =
     int_of_float (float_Min (float_mult (float_of_int delay) (Multiplier cfg))
                             (float_of_int (MaxDelay cfg)))"

text \<open>One iteration of the loop: it returns, or goes on with a new delay.\<close>

datatype outcome = Return retry_Result | Continue go_error int "int list"

definition attempt ::
  "retry_config \<Rightarrow> ctx_view \<Rightarrow> 's effect \<Rightarrow> int \<Rightarrow> int \<Rightarrow> 's \<Rightarrow> outcome \<times> 's" where
  "attempt cfg ctx fn a delay s =
     (case fn s of
        (None, s') \<Rightarrow> (Return \<lparr>Success = True, Attempts = a + 1, Err = None\<rparr>, s')
      | (Some e, s') \<Rightarrow>
          (case ctx_err ctx (nat a) of
             Some c \<Rightarrow>
               (Return \<lparr>Success = False, Attempts = a + 1,
                        Err = Some (Wrap ''retry cancelled: '' c '''')\<rparr>, s')
           | None \<Rightarrow>
               if a < MaxAttempts cfg - 1 then
                 (case ctx_done ctx (nat a) of
                    Some c \<Rightarrow>
                      (Return \<lparr>Success = False, Attempts = a + 1,
                               Err = Some (Wrap ''retry cancelled during backoff: '' c '''')\<rparr>, s')
                  | None \<Rightarrow> (Continue e (next_delay cfg delay) [delay], s'))
               else (Continue e delay [], s')))"

definition exhausted :: "retry_config \<Rightarrow> go_error option \<Rightarrow> retry_Result" where
  "exhausted cfg lastErr =
     \<lparr>Success = False, Attempts = MaxAttempts cfg,
      Err = Some (case lastErr of
                    None \<Rightarrow> Errorf ''max retries exceeded: %!w(<nil>)''
                  | Some e \<Rightarrow> Wrap ''max retries exceeded: '' e '''')\<rparr>"

function retry_loop ::
  "retry_config \<Rightarrow> ctx_view \<Rightarrow> 's effect \<Rightarrow> int \<Rightarrow> int \<Rightarrow> go_error option \<Rightarrow> 's
   \<Rightarrow> retry_Result \<times> int list \<times> 's" where
  "retry_loop cfg ctx fn a delay lastErr s =
     (if a < MaxAttempts cfg then
        (case attempt cfg ctx fn a delay s of
           (Return r, s') \<Rightarrow> (r, [], s')
         | (Continue e delay' slept, s') \<Rightarrow>
             (case retry_loop cfg ctx fn (a + 1) delay' (Some e) s' of
                (r, ds, s'') \<Rightarrow> (r, slept @ ds, s'')))
      else (exhausted cfg lastErr, [], s))"
  by pat_completeness auto
termination
  by (relation "measure (\<lambda>(cfg, ctx, fn, a, delay, lastErr, s). nat (MaxAttempts cfg - a))") auto

declare retry_loop.simps [simp del]

text \<open>The result, the delays slept between the attempts, and the final state.\<close>

definition WithRetry ::
  "ctx_view \<Rightarrow> retry_config \<Rightarrow> 's effect \<Rightarrow> 's \<Rightarrow> retry_Result \<times> int list \<times> 's" where
  "WithRetry ctx cfg fn s = retry_loop cfg ctx fn 0 (BaseDelay cfg) None s"


section \<open>Batch retry\<close>

text \<open>
  A goroutine waits for a slot of the semaphore, runs the iterations of its retry loop, adds
  a dead letter when they failed, and exits.
\<close>

datatype gphase =
    Waiting
  | Running int int "go_error option"
  | Failing retry_Result
  | Exited retry_Result

fun holds_slot :: "gphase \<Rightarrow> bool" where
  "holds_slot Waiting = False"
| "holds_slot (Running _ _ _) = True"
| "holds_slot (Failing _) = True"
| "holds_slot (Exited _) = False"

definition sem_cap :: nat where "sem_cap = 10"

definition slots :: "gphase list \<Rightarrow> nat" where
  "slots gs = length (filter holds_slot gs)"

definition dead_letter :: "'i \<Rightarrow> retry_Result \<Rightarrow> int \<Rightarrow> 'i DeadLetterEvent" where
  "dead_letter i r now =
     \<lparr>Event = i, Reason = ''max retries exceeded'', dl_Attempts = Attempts r,
      LastError = Err r, Timestamp = now\<rparr>"

record ('s, 'i) batch_state =
  phases :: "gphase list"
  bstore :: 's
  bdlq :: "'i DeadLetterQueue"

record batch_env =
  env_batch :: ctx_view
  env_item :: "nat \<Rightarrow> ctx_view"
  env_now :: "nat \<Rightarrow> int"
  env_sched :: "nat list"

definition gstep ::
  "retry_config \<Rightarrow> batch_env \<Rightarrow> ('i \<Rightarrow> 's effect) \<Rightarrow> 'i list \<Rightarrow> nat
   \<Rightarrow> ('s, 'i) batch_state \<Rightarrow> ('s, 'i) batch_state" where
  "gstep cfg env itemFn items k b =
     (if length (phases b) \<le> k then b
      else case phases b ! k of
        Waiting \<Rightarrow>
          if slots (phases b) < sem_cap
          then b\<lparr>phases := (phases b)[k := Running 0 (BaseDelay cfg) None]\<rparr> else b
      | Running a delay lastErr \<Rightarrow>
          if a < MaxAttempts cfg then
            (case attempt cfg (env_item env k) (itemFn (items ! k)) a delay (bstore b) of
               (Return r, s') \<Rightarrow>
                 b\<lparr>phases := (phases b)[k := if Success r then Exited r else Failing r],
                   bstore := s'\<rparr>
             | (Continue e delay' _, s') \<Rightarrow>
                 b\<lparr>phases := (phases b)[k := Running (a + 1) delay' (Some e)], bstore := s'\<rparr>)
          else b\<lparr>phases := (phases b)[k := Failing (exhausted cfg lastErr)]\<rparr>
      | Failing r \<Rightarrow>
          b\<lparr>phases := (phases b)[k := Exited r],
            bdlq := Add (bdlq b) (dead_letter (items ! k) r (env_now env k))\<rparr>
      | Exited r \<Rightarrow> b)"

definition run_sched ::
  "retry_config \<Rightarrow> batch_env \<Rightarrow> ('i \<Rightarrow> 's effect) \<Rightarrow> 'i list \<Rightarrow> nat list
   \<Rightarrow> ('s, 'i) batch_state \<Rightarrow> ('s, 'i) batch_state" where
  "run_sched cfg env itemFn items ks b = foldl (\<lambda>b k. gstep cfg env itemFn items k b) b ks"

fun is_exited :: "gphase \<Rightarrow> bool" where
  "is_exited (Exited _) = True"
| "is_exited _ = False"

definition spawn :: "'i list \<Rightarrow> 's \<Rightarrow> 'i DeadLetterQueue \<Rightarrow> ('s, 'i) batch_state" where
  "spawn items s dlq = \<lparr>phases = replicate (length items) Waiting, bstore = s, bdlq = dlq\<rparr>"

text \<open>
  \<open>None\<close>: the schedule ends before every goroutine has exited, so that \<open>wg.Wait\<close> has
  not returned yet.
\<close>

definition BatchRetry ::
  "batch_env \<Rightarrow> retry_config \<Rightarrow> 'i list \<Rightarrow> ('i list \<Rightarrow> 's effect) \<Rightarrow> ('i \<Rightarrow> 's effect)
   \<Rightarrow> 's \<Rightarrow> 'i DeadLetterQueue \<Rightarrow> ('s \<times> 'i DeadLetterQueue) option" where
  "BatchRetry env cfg items fn itemFn s dlq =
     (if items = [] then Some (s, dlq)
      else case WithRetry (env_batch env) cfg (fn items) s of (result, _, s') \<Rightarrow>
        if Success result then Some (s', dlq)
        else let b = run_sched cfg env itemFn items (env_sched env) (spawn items s' dlq)
             in if list_all is_exited (phases b) then Some (bstore b, bdlq b) else None)"


section \<open>The dead letter queue keeps the most recent entries\<close>

text \<open>
  The contract of a bounded log: adding to it drops the oldest entries beyond the capacity.
\<close>

locale bounded_log =
  fixes view :: "'q \<Rightarrow> 'e list"
    and add :: "'q \<Rightarrow> 'e \<Rightarrow> 'q"
    and cap :: "'q \<Rightarrow> nat"
    and ok :: "'q \<Rightarrow> bool"
  assumes view_cap: "ok q \<Longrightarrow> length (view q) \<le> cap q"
    and view_add: "ok q \<Longrightarrow> view (add q e) = drop (Suc (length (view q)) - cap q) (view q @ [e])"
    and cap_add: "ok q \<Longrightarrow> cap (add q e) = cap q"
    and ok_add: "ok q \<Longrightarrow> ok (add q e)"
begin

lemma ok_foldl: "ok q \<Longrightarrow> ok (foldl add q es) \<and> cap (foldl add q es) = cap q"
  by (induction es arbitrary: q) (simp_all add: ok_add cap_add)

lemma view_foldl:
  "ok q \<Longrightarrow> view (foldl add q es) = drop (length (view q) + length es - cap q) (view q @ es)"
proof (induction es rule: rev_induct)
  case Nil
  then show ?case using view_cap by simp
next
  case (snoc e es)
  let ?q = "foldl add q es"
  have "view (add ?q e) = drop (Suc (length (view ?q)) - cap q) (view ?q @ [e])"
    using view_add ok_foldl [OF snoc.prems] by simp
  also have "\<dots> = drop (length (view q) + length (es @ [e]) - cap q) (view q @ es @ [e])"
    using snoc drop_snoc_lastn [of "view q @ es" "cap q" e] by simp
  finally show ?case by simp
qed

lemma view_foldl_fits:
  "ok q \<Longrightarrow> length (view q) + length es \<le> cap q \<Longrightarrow> view (foldl add q es) = view q @ es"
  by (simp add: view_foldl)

end

lemma NewDeadLetterQueue_inv: "NewDeadLetterQueue n = Some q \<Longrightarrow> dlq_inv q"
  by (auto simp: NewDeadLetterQueue_def dlq_inv_def Len_def split: if_splits)

lemma Add_events:
  assumes "dlq_inv q"
  shows "dlq_events (Add q e) =
           drop (Suc (Len q) - nat (dlq_maxSize q)) (dlq_events q @ [e])"
proof (cases "int (Len q) < dlq_maxSize q")
  case True
  then show ?thesis by (simp add: Add_def Let_def Len_def)
next
  case False
  with assms have l: "Len q = nat (dlq_maxSize q)" by (auto simp: dlq_inv_def)
  have "take (Len q) (shift_left (dlq_events q @ [e])) = tl (dlq_events q @ [e])"
    by (simp add: shift_left_def Len_def)
  with l False show ?thesis by (simp add: Add_def Let_def Len_def drop_Suc del: drop_append)
qed

interpretation dlq: bounded_log dlq_events Add "\<lambda>q. nat (dlq_maxSize q)" dlq_inv
proof (unfold_locales, goal_cases)
  case (1 q)
  then show ?case by (auto simp: dlq_inv_def Len_def)
next
  case (2 q e)
  then show ?case by (simp add: Add_events Len_def)
next
  case (3 q e)
  then show ?case by (simp add: Add_def Let_def)
next
  case (4 q e)
  have "dlq_maxSize (Add q e) = dlq_maxSize q" by (simp add: Add_def Let_def)
  with 4 show ?case by (auto simp: dlq_inv_def Add_events Len_def simp del: drop_append)
qed


section \<open>Behaviour of the retry loop\<close>

text \<open>The state after \<open>n\<close> calls of the operation, and the result of call number \<open>n\<close>.\<close>

fun calls :: "'s effect \<Rightarrow> nat \<Rightarrow> 's \<Rightarrow> 's" where
  "calls fn 0 s = s"
| "calls fn (Suc n) s = calls fn n (snd (fn s))"

definition result_of :: "'s effect \<Rightarrow> nat \<Rightarrow> 's \<Rightarrow> go_error option" where
  "result_of fn n s = fst (fn (calls fn n s))"

definition cancelled :: "ctx_view \<Rightarrow> nat \<Rightarrow> bool" where
  "cancelled ctx a \<longleftrightarrow> ctx_err ctx a \<noteq> None \<or> ctx_done ctx a \<noteq> None"

text \<open>
  What a loop entered at attempt \<open>a\<close> has done when it returns after \<open>n\<close> more calls.
\<close>

definition loop_spec ::
  "retry_config \<Rightarrow> ctx_view \<Rightarrow> 's effect \<Rightarrow> int \<Rightarrow> 's \<Rightarrow> nat \<Rightarrow> retry_Result \<Rightarrow> 's \<Rightarrow> bool" where
  "loop_spec cfg ctx fn a s n r s' \<longleftrightarrow>
     Attempts r = a + int n \<and> s' = calls fn n s \<and> a + int n \<le> MaxAttempts cfg \<and>
     (\<forall>j. Suc j < n \<longrightarrow> result_of fn j s \<noteq> None) \<and>
     (Success r \<longleftrightarrow> 0 < n \<and> result_of fn (n - 1) s = None) \<and>
     (Err r = None \<longleftrightarrow> Success r) \<and>
     (\<not> Success r \<longrightarrow> a + int n = MaxAttempts cfg \<or> (0 < n \<and> cancelled ctx (nat (a + int n - 1))))"

lemma loop_spec_Suc:
  assumes "loop_spec cfg ctx fn (a + 1) (snd (fn s)) n r s'" and "fst (fn s) = Some e" and "0 \<le> a"
  shows "loop_spec cfg ctx fn a s (Suc n) r s'"
proof -
  have shift: "result_of fn (Suc j) s = result_of fn j (snd (fn s))" for j
    by (simp add: result_of_def)
  have first: "result_of fn 0 s \<noteq> None" using assms(2) by (simp add: result_of_def)
  have all: "result_of fn j s \<noteq> None" if "Suc j < Suc n" for j
    using that assms(1) first shift [of "j - 1"] by (cases j) (auto simp: loop_spec_def)
  have lst: "result_of fn n s = None \<longleftrightarrow> 0 < n \<and> result_of fn (n - 1) (snd (fn s)) = None"
    using first shift [of "n - 1"] by (cases n) auto
  have ix: "nat (a + int (Suc n) - 1) = nat (a + 1 + int n - 1)" by simp
  show ?thesis
    using assms(1,3) all lst unfolding loop_spec_def ix by (auto simp: algebra_simps)
qed

lemma retry_loop_spec:
  assumes "retry_loop cfg ctx fn a delay lastErr s = (r, ds, s')" and "0 \<le> a" "a \<le> MaxAttempts cfg"
  shows "\<exists>n. loop_spec cfg ctx fn a s n r s'"
  using assms
proof (induction cfg ctx fn a delay lastErr s arbitrary: r ds s' rule: retry_loop.induct)
  case (1 cfg ctx fn a delay lastErr s)
  show ?case
  proof (cases "a < MaxAttempts cfg")
    case False
    with "1.prems" have "loop_spec cfg ctx fn a s 0 r s'"
      by (auto simp: retry_loop.simps [of cfg ctx fn a] loop_spec_def exhausted_def)
    then show ?thesis ..
  next
    case True
    obtain oc t where at: "attempt cfg ctx fn a delay s = (oc, t)" by fastforce
    show ?thesis
    proof (cases oc)
      case (Return r')
      then have "r' = r" "t = s'"
        using "1.prems"(1) True at by (simp_all add: retry_loop.simps [of cfg ctx fn a])
      then have "loop_spec cfg ctx fn a s 1 r s'"
        using at Return True "1.prems"(2)
        by (auto simp: attempt_def loop_spec_def result_of_def cancelled_def
            split: prod.splits option.splits if_splits)
      then show ?thesis ..
    next
      case (Continue e delay' slept)
      then obtain ds' where rec: "retry_loop cfg ctx fn (a + 1) delay' (Some e) t = (r, ds', s')"
        using "1.prems"(1) True at
        by (auto simp: retry_loop.simps [of cfg ctx fn a] split: prod.splits)
      have fn: "fn s = (Some e, t)"
        using at Continue by (auto simp: attempt_def split: prod.splits option.splits if_splits)
      have "\<exists>n. loop_spec cfg ctx fn (a + 1) t n r s'"
        using "1.IH" [OF True at [symmetric] Continue rec] True "1.prems"(2) by simp
      then show ?thesis using loop_spec_Suc [where fn = fn and s = s] fn "1.prems"(2) by fastforce
    qed
  qed
qed

lemma WithRetry_spec:
  assumes "WithRetry ctx cfg fn s = (r, ds, s')" and "0 \<le> MaxAttempts cfg"
  shows "\<exists>n. loop_spec cfg ctx fn 0 s n r s'"
  using retry_loop_spec [of cfg ctx fn 0] assms by (simp add: WithRetry_def)


section \<open>The backoff\<close>

text \<open>The delay before retry number \<open>k\<close>: the base delay times \<open>m\<^sup>k\<close>, capped.\<close>

definition backoff :: "retry_config \<Rightarrow> int \<Rightarrow> nat \<Rightarrow> int" where
  "backoff cfg m k = min (BaseDelay cfg * m ^ k) (MaxDelay cfg)"

definition backoff_exact :: "retry_config \<Rightarrow> int \<Rightarrow> bool" where
  "backoff_exact cfg m \<longleftrightarrow>
     Multiplier cfg = of_int m \<and> 1 \<le> m \<and> 0 \<le> BaseDelay cfg \<and>
     BaseDelay cfg \<le> MaxDelay cfg \<and> MaxDelay cfg * m < 2 ^ 53"

lemma next_delay_exact:
  assumes "backoff_exact cfg m" and "0 \<le> d" and "d \<le> MaxDelay cfg"
  shows "next_delay cfg d = min (d * m) (MaxDelay cfg)"
proof -
  have m: "1 \<le> m" "MaxDelay cfg * m < 2 ^ 53" "0 \<le> MaxDelay cfg"
    using assms by (auto simp: backoff_exact_def)
  have dm: "d * m \<le> MaxDelay cfg * m" "MaxDelay cfg \<le> MaxDelay cfg * m"
    using assms m by (auto intro: mult_right_mono mult_left_mono [of 1 m, simplified])
  have "float_of_int d = of_int d" "float_of_int (MaxDelay cfg) = of_int (MaxDelay cfg)"
    using dm m assms by (auto simp: float_of_int_def intro!: round64_of_int)
  moreover have "float_mult (of_int d) (Multiplier cfg) = of_int (d * m)"
  proof -
    have "d * m < 2 ^ 53" using dm(1) m(2) by (rule le_less_trans)
    moreover have "0 \<le> d * m" using assms(2) m(1) by simp
    ultimately have "\<bar>d * m\<bar> < 2 ^ 53" by (simp only: abs_of_nonneg)
    then show ?thesis
      using round64_of_int [of "d * m"] assms(1) by (simp add: float_mult_def backoff_exact_def)
  qed
  ultimately show ?thesis
    unfolding next_delay_def float_Min_def
    by (simp only: of_int_min [symmetric] int_of_float_of_int)
qed

lemma backoff_Suc:
  assumes "backoff_exact cfg m"
  shows "next_delay cfg (backoff cfg m k) = backoff cfg m (Suc k)"
proof -
  let ?x = "BaseDelay cfg * m ^ k" and ?M = "MaxDelay cfg"
  have m: "1 \<le> m" "0 \<le> BaseDelay cfg" "0 \<le> ?M"
    using assms by (auto simp: backoff_exact_def)
  have "min (min ?x ?M * m) ?M = min (?x * m) ?M"
  proof (cases "?x \<le> ?M")
    case False
    then have "?M \<le> ?M * m" "?M * m \<le> ?x * m"
      using m mult_left_mono [of 1 m ?M] mult_right_mono [of ?M ?x m] by auto
    then have "?M \<le> ?M * m" "?M \<le> ?x * m" by linarith+
    with False show ?thesis by (simp add: min_def)
  qed (simp add: min_def)
  with assms m show ?thesis
    by (subst next_delay_exact [OF assms]) (auto simp: backoff_def mult_ac)
qed

lemma retry_loop_attempts:
  assumes "retry_loop cfg ctx fn a delay lastErr s = (r, ds, s')" and "a < MaxAttempts cfg"
  shows "a + 1 \<le> Attempts r"
  using assms
proof (induction cfg ctx fn a delay lastErr s arbitrary: r ds s' rule: retry_loop.induct)
  case (1 cfg ctx fn a delay lastErr s)
  obtain oc t where at: "attempt cfg ctx fn a delay s = (oc, t)" by fastforce
  show ?case
  proof (cases oc)
    case (Return r')
    then have "r' = r"
      using "1.prems" at by (simp add: retry_loop.simps [of cfg ctx fn a])
    moreover have "Attempts r' = a + 1"
      using at Return by (auto simp: attempt_def split: prod.splits option.splits if_splits)
    ultimately show ?thesis by simp
  next
    case (Continue e delay' slept)
    then obtain ds' where rec: "retry_loop cfg ctx fn (a + 1) delay' (Some e) t = (r, ds', s')"
      using "1.prems" at by (auto simp: retry_loop.simps [of cfg ctx fn a] split: prod.splits)
    show ?thesis
    proof (cases "a + 1 < MaxAttempts cfg")
      case True
      with "1.IH" [OF "1.prems"(2) at [symmetric] Continue rec] show ?thesis by simp
    next
      case False
      with rec "1.prems"(2) show ?thesis
        by (auto simp: retry_loop.simps [of cfg ctx fn "a + 1"] exhausted_def)
    qed
  qed
qed

lemma retry_loop_delays:
  assumes "retry_loop cfg ctx fn a delay lastErr s = (r, ds, s')"
    and "backoff_exact cfg m" and "0 \<le> a" and "delay = backoff cfg m (nat a)"
  shows "ds = map (backoff cfg m) [nat a ..< nat (Attempts r - 1)] \<and>
         a + int (length ds) \<le> max a (MaxAttempts cfg - 1)"
  using assms
proof (induction cfg ctx fn a delay lastErr s arbitrary: r ds s' rule: retry_loop.induct)
  case (1 cfg ctx fn a delay lastErr s)
  show ?case
  proof (cases "a < MaxAttempts cfg")
    case False
    with "1.prems" show ?thesis
      by (auto simp: retry_loop.simps [of cfg ctx fn a] exhausted_def)
  next
    case True
    obtain oc t where at: "attempt cfg ctx fn a delay s = (oc, t)" by fastforce
    show ?thesis
    proof (cases oc)
      case (Return r')
      then have "ds = []" "r' = r"
        using "1.prems"(1) True at by (simp_all add: retry_loop.simps [of cfg ctx fn a])
      moreover have "Attempts r' = a + 1"
        using at Return by (auto simp: attempt_def split: prod.splits option.splits if_splits)
      ultimately show ?thesis by simp
    next
      case (Continue e delay' slept)
      then obtain ds' where rec: "retry_loop cfg ctx fn (a + 1) delay' (Some e) t = (r, ds', s')"
          and ds: "ds = slept @ ds'"
        using "1.prems"(1) True at
        by (auto simp: retry_loop.simps [of cfg ctx fn a] split: prod.splits)
      consider "slept = [delay]" "delay' = next_delay cfg delay" "a < MaxAttempts cfg - 1"
        | "slept = []" "\<not> a + 1 < MaxAttempts cfg"
        using at Continue by (auto simp: attempt_def split: prod.splits option.splits if_splits)
      then show ?thesis
      proof cases
        case 1
        have "delay' = backoff cfg m (nat (a + 1))"
          using 1 "1.prems" backoff_Suc [OF "1.prems"(2), of "nat a"] by (simp add: nat_add_distrib)
        then have ih: "ds' = map (backoff cfg m) [nat (a + 1) ..< nat (Attempts r - 1)] \<and>
            a + 1 + int (length ds') \<le> max (a + 1) (MaxAttempts cfg - 1)"
          using "1.prems"(3) by (intro "1.IH" [OF True at [symmetric] Continue rec "1.prems"(2)]) simp
        have "a + 1 + 1 \<le> Attempts r" using 1(3) by (intro retry_loop_attempts [OF rec]) simp
        then have "[nat a ..< nat (Attempts r - 1)] = nat a # [nat (a + 1) ..< nat (Attempts r - 1)]"
          using "1.prems"(3) by (simp add: upt_conv_Cons Suc_nat_eq_nat_zadd1 algebra_simps)
        then have "ds = map (backoff cfg m) [nat a ..< nat (Attempts r - 1)]"
          using ih 1(1) ds "1.prems"(4) by simp
        moreover have "length ds = Suc (length ds')" using ds 1(1) by simp
        then have "a + int (length ds) \<le> max a (MaxAttempts cfg - 1)" using ih 1(3) by linarith
        ultimately show ?thesis by blast
      next
        case 2
        then have "ds' = []" "Attempts r = MaxAttempts cfg"
          using rec by (auto simp: retry_loop.simps [of cfg ctx fn "a + 1"] exhausted_def)
        then show ?thesis using 2 ds by simp
      qed
    qed
  qed
qed


section \<open>Interleavings of a batch\<close>

text \<open>The moves of the goroutines, one rule per kind of move.\<close>

inductive batch_move ::
  "retry_config \<Rightarrow> batch_env \<Rightarrow> ('i \<Rightarrow> 's effect) \<Rightarrow> 'i list
   \<Rightarrow> ('s, 'i) batch_state \<Rightarrow> ('s, 'i) batch_state \<Rightarrow> bool"
  for cfg env itemFn items where
  start: "\<lbrakk>k < length (phases b); phases b ! k = Waiting; slots (phases b) < sem_cap\<rbrakk>
    \<Longrightarrow> batch_move cfg env itemFn items b
          (b\<lparr>phases := (phases b)[k := Running 0 (BaseDelay cfg) None]\<rparr>)"
| again: "\<lbrakk>k < length (phases b); phases b ! k = Running a d le; a < MaxAttempts cfg;
     attempt cfg (env_item env k) (itemFn (items ! k)) a d (bstore b) = (Continue e d' ds, s')\<rbrakk>
    \<Longrightarrow> batch_move cfg env itemFn items b
          (b\<lparr>phases := (phases b)[k := Running (a + 1) d' (Some e)], bstore := s'\<rparr>)"
| succeed: "\<lbrakk>k < length (phases b); phases b ! k = Running a d le; a < MaxAttempts cfg;
     attempt cfg (env_item env k) (itemFn (items ! k)) a d (bstore b) = (Return r, s'); Success r\<rbrakk>
    \<Longrightarrow> batch_move cfg env itemFn items b
          (b\<lparr>phases := (phases b)[k := Exited r], bstore := s'\<rparr>)"
| fail: "\<lbrakk>k < length (phases b); phases b ! k = Running a d le; a < MaxAttempts cfg;
     attempt cfg (env_item env k) (itemFn (items ! k)) a d (bstore b) = (Return r, s'); \<not> Success r\<rbrakk>
    \<Longrightarrow> batch_move cfg env itemFn items b
          (b\<lparr>phases := (phases b)[k := Failing r], bstore := s'\<rparr>)"
| exhaust: "\<lbrakk>k < length (phases b); phases b ! k = Running a d le; \<not> a < MaxAttempts cfg\<rbrakk>
    \<Longrightarrow> batch_move cfg env itemFn items b
          (b\<lparr>phases := (phases b)[k := Failing (exhausted cfg le)]\<rparr>)"
| bury: "\<lbrakk>k < length (phases b); phases b ! k = Failing r\<rbrakk>
    \<Longrightarrow> batch_move cfg env itemFn items b
          (b\<lparr>phases := (phases b)[k := Exited r],
             bdlq := Add (bdlq b) (dead_letter (items ! k) r (env_now env k))\<rparr>)"

lemma gstep_move:
  "gstep cfg env itemFn items k b = b \<or>
   batch_move cfg env itemFn items b (gstep cfg env itemFn items k b)"
  by (auto simp: gstep_def split: gphase.splits prod.splits outcome.splits
      intro: batch_move.intros)

lemma batch_move_gstep:
  assumes "batch_move cfg env itemFn items b b'"
  shows "\<exists>k. gstep cfg env itemFn items k b = b'"
  using assms
proof cases
  case (start k)
  then show ?thesis by (intro exI [of _ k]) (simp add: gstep_def)
next
  case (again k)
  then show ?thesis by (intro exI [of _ k]) (simp add: gstep_def)
next
  case (succeed k)
  then show ?thesis by (intro exI [of _ k]) (simp add: gstep_def)
next
  case (fail k)
  then show ?thesis by (intro exI [of _ k]) (simp add: gstep_def)
next
  case (exhaust k)
  then show ?thesis by (intro exI [of _ k]) (simp add: gstep_def)
next
  case (bury k)
  then show ?thesis by (intro exI [of _ k]) (simp add: gstep_def)
qed

lemma run_sched_invariant:
  assumes "\<And>b b'. batch_move cfg env itemFn items b b' \<Longrightarrow> I b \<Longrightarrow> I b'" and "I b"
  shows "I (run_sched cfg env itemFn items ks b)"
  using assms(2)
proof (induction ks arbitrary: b)
  case (Cons k ks)
  have "I (gstep cfg env itemFn items k b)"
    using gstep_move [of cfg env itemFn items k b] assms(1) Cons.prems by metis
  then show ?case using Cons.IH by (simp add: run_sched_def)
qed (simp add: run_sched_def)

lemma slots_update:
  "k < length gs \<Longrightarrow>
     slots (gs[k := p]) + (if holds_slot (gs ! k) then 1 else 0)
     = slots gs + (if holds_slot p then 1 else 0)"
  by (simp add: slots_def length_filter_update)

text \<open>The semaphore: at most ten goroutines are past it.\<close>

definition sem_inv :: "'i list \<Rightarrow> ('s, 'i) batch_state \<Rightarrow> bool" where
  "sem_inv items b \<longleftrightarrow> length (phases b) = length items \<and> slots (phases b) \<le> sem_cap"

lemma sem_inv_update:
  assumes "sem_inv items b" and "k < length (phases b)"
    and "holds_slot p \<Longrightarrow> holds_slot (phases b ! k) \<or> slots (phases b) < sem_cap"
    and "phases b' = (phases b)[k := p]"
  shows "sem_inv items b'"
  using assms slots_update [OF assms(2), of p] by (auto simp: sem_inv_def split: if_splits)

lemma batch_move_sem_inv:
  "batch_move cfg env itemFn items b b' \<Longrightarrow> sem_inv items b \<Longrightarrow> sem_inv items b'"
  by (erule batch_move.cases) (auto intro: sem_inv_update)

lemma spawn_sem_inv: "sem_inv items (spawn items s dlq)"
  by (simp add: sem_inv_def spawn_def slots_def)

text \<open>
  The dead letters: the queue has received one entry per goroutine that exited without
  success, in some order, and nothing else.
\<close>

fun exit_result :: "gphase \<Rightarrow> retry_Result option" where
  "exit_result (Exited r) = Some r"
| "exit_result _ = None"

definition buried :: "('s, 'i) batch_state \<Rightarrow> nat set" where
  "buried b = {k. k < length (phases b) \<and> (\<exists>r. phases b ! k = Exited r \<and> \<not> Success r)}"

definition letter :: "batch_env \<Rightarrow> 'i list \<Rightarrow> ('s, 'i) batch_state \<Rightarrow> nat \<Rightarrow> 'i DeadLetterEvent" where
  "letter env items b k =
     dead_letter (items ! k) (the (exit_result (phases b ! k))) (env_now env k)"

definition dead_inv ::
  "batch_env \<Rightarrow> 'i list \<Rightarrow> 'i DeadLetterQueue \<Rightarrow> ('s, 'i) batch_state \<Rightarrow> bool" where
  "dead_inv env items dlq0 b \<longleftrightarrow>
     length (phases b) = length items \<and>
     (\<forall>k < length (phases b). \<forall>r. phases b ! k = Failing r \<longrightarrow> \<not> Success r) \<and>
     (\<exists>log. distinct log \<and> set log = buried b \<and>
            bdlq b = foldl Add dlq0 (map (letter env items b) log))"

lemma dead_inv_frame:
  assumes "dead_inv env items dlq0 b" and "k < length (phases b)"
    and "\<not> is_exited (phases b ! k)"
    and "\<And>r. p = Exited r \<Longrightarrow> Success r" and "\<And>r. p = Failing r \<Longrightarrow> \<not> Success r"
    and "phases b' = (phases b)[k := p]" and "bdlq b' = bdlq b"
  shows "dead_inv env items dlq0 b'"
proof -
  obtain log where log: "distinct log" "set log = buried b"
      "bdlq b = foldl Add dlq0 (map (letter env items b) log)"
    using assms(1) by (auto simp: dead_inv_def)
  have buried: "buried b' = buried b"
    using assms(2,3) assms(4) [of "the (exit_result p)"]
    by (cases p) (auto simp: buried_def assms(6) nth_list_update split: if_splits)
  have "letter env items b' j = letter env items b j" if "j \<in> set log" for j
  proof -
    from that log(2) have "j \<in> buried b" by simp
    then have "j \<noteq> k" using assms(3) unfolding buried_def by fastforce
    then show ?thesis using assms(6) by (simp add: letter_def)
  qed
  then have "map (letter env items b') log = map (letter env items b) log" by simp
  then have "bdlq b' = foldl Add dlq0 (map (letter env items b') log)"
    using log(3) assms(7) by (simp del: map_eq_conv)
  moreover have "length (phases b') = length items"
      "\<forall>j < length (phases b'). \<forall>r. phases b' ! j = Failing r \<longrightarrow> \<not> Success r"
    using assms(1,2,5) by (auto simp: assms(6) dead_inv_def nth_list_update split: if_splits)
  ultimately show ?thesis
    using log(1,2) buried unfolding dead_inv_def by blast
qed

lemma dead_inv_bury:
  assumes "dead_inv env items dlq0 b" and "k < length (phases b)" and "phases b ! k = Failing r"
    and "phases b' = (phases b)[k := Exited r]"
    and "bdlq b' = Add (bdlq b) (dead_letter (items ! k) r (env_now env k))"
  shows "dead_inv env items dlq0 b'"
proof -
  obtain log where log: "distinct log" "set log = buried b"
      "bdlq b = foldl Add dlq0 (map (letter env items b) log)"
    using assms(1) by (auto simp: dead_inv_def)
  have r: "\<not> Success r" using assms(1-3) by (auto simp: dead_inv_def)
  have k: "k \<notin> set log" using log(2) assms(3) by (auto simp: buried_def)
  have buried: "buried b' = insert k (buried b)"
    using assms(2,3) r by (auto simp: buried_def assms(4) nth_list_update split: if_splits)
  have "letter env items b' j = letter env items b j" if "j \<in> set log" for j
    using that k assms(4) by (cases "j = k") (auto simp: letter_def)
  then have "map (letter env items b') log = map (letter env items b) log" by simp
  moreover have "letter env items b' k = dead_letter (items ! k) r (env_now env k)"
    using assms(2,4) by (simp add: letter_def)
  ultimately have "bdlq b' = foldl Add dlq0 (map (letter env items b') (log @ [k]))"
    using log(3) assms(5) by (simp del: map_eq_conv)
  moreover have "distinct (log @ [k])" "set (log @ [k]) = buried b'"
    using log k buried by auto
  moreover have "length (phases b') = length items"
      "\<forall>j < length (phases b'). \<forall>r. phases b' ! j = Failing r \<longrightarrow> \<not> Success r"
    using assms(1,2) by (auto simp: assms(4) dead_inv_def nth_list_update split: if_splits)
  ultimately show ?thesis unfolding dead_inv_def by blast
qed

lemma batch_move_dead_inv:
  assumes "batch_move cfg env itemFn items b b'" and "dead_inv env items dlq0 b"
  shows "dead_inv env items dlq0 b'"
  using assms
proof (induction rule: batch_move.induct)
  case (bury k b r)
  show ?case by (rule dead_inv_bury [OF bury(3) bury(1,2)]) simp_all
next
  case (start k)
  show ?case
    by (rule dead_inv_frame [OF start.prems start.hyps(1)]) (simp_all add: start.hyps)
next
  case (exhaust k)
  show ?case
    by (rule dead_inv_frame [OF exhaust.prems exhaust.hyps(1)])
      (auto simp: exhaust.hyps exhausted_def)
next
  case (again k)
  show ?case
    by (rule dead_inv_frame [OF again.prems again.hyps(1)]) (simp_all add: again.hyps)
next
  case (succeed k)
  show ?case
    by (rule dead_inv_frame [OF succeed.prems succeed.hyps(1)]) (simp_all add: succeed.hyps)
next
  case (fail k)
  show ?case
    by (rule dead_inv_frame [OF fail.prems fail.hyps(1)]) (simp_all add: fail.hyps)
qed

lemma spawn_dead_inv: "dead_inv env items dlq (spawn items s dlq)"
  by (auto simp: dead_inv_def spawn_def buried_def intro: exI [of _ "[]"])


section \<open>Every batch ends\<close>

text \<open>The number of moves that the goroutines can still make at most.\<close>

fun weight :: "retry_config \<Rightarrow> gphase \<Rightarrow> nat" where
  "weight cfg Waiting = nat (MaxAttempts cfg) + 3"
| "weight cfg (Running a _ _) = nat (MaxAttempts cfg - a) + 2"
| "weight cfg (Failing _) = 1"
| "weight cfg (Exited _) = 0"

definition work :: "retry_config \<Rightarrow> ('s, 'i) batch_state \<Rightarrow> nat" where
  "work cfg b = sum_list (map (weight cfg) (phases b))"

lemma work_update:
  assumes "k < length (phases b)" and "phases b' = (phases b)[k := p]"
    and "weight cfg p < weight cfg (phases b ! k)"
  shows "work cfg b' < work cfg b"
  using assms sum_list_map_update [OF assms(1), of "weight cfg" p] by (simp add: work_def)

lemma batch_move_work: "batch_move cfg env itemFn items b b' \<Longrightarrow> work cfg b' < work cfg b"
  by (erule batch_move.cases) (auto intro!: work_update)

lemma gstep_work:
  "gstep cfg env itemFn items k b = b \<or>
   work cfg (gstep cfg env itemFn items k b) < work cfg b"
  using gstep_move [of cfg env itemFn items k b] batch_move_work by blast

lemma run_sched_Cons:
  "run_sched cfg env itemFn items (k # ks) b =
   run_sched cfg env itemFn items ks (gstep cfg env itemFn items k b)"
  by (simp add: run_sched_def)

lemma run_sched_append:
  "run_sched cfg env itemFn items (ks @ js) b =
   run_sched cfg env itemFn items js (run_sched cfg env itemFn items ks b)"
  by (simp add: run_sched_def)

lemma run_sched_work:
  "work cfg (run_sched cfg env itemFn items ks b) < work cfg b \<or>
   (\<forall>k \<in> set ks. gstep cfg env itemFn items k b = b) \<and> run_sched cfg env itemFn items ks b = b"
proof (induction ks arbitrary: b)
  case (Cons k ks)
  show ?case
    using Cons.IH [of "gstep cfg env itemFn items k b"] gstep_work [of cfg env itemFn items k b]
    by (auto simp: run_sched_Cons)
qed (simp add: run_sched_def)

text \<open>Some goroutine can move as long as one has not exited.\<close>

lemma batch_progress:
  assumes "sem_inv items b" and "\<not> list_all is_exited (phases b)"
  shows "\<exists>k < length items. gstep cfg env itemFn items k b \<noteq> b"
proof (cases "\<exists>k < length (phases b). holds_slot (phases b ! k)")
  case True
  then obtain k where k: "k < length (phases b)" "holds_slot (phases b ! k)" by blast
  have "\<exists>b'. batch_move cfg env itemFn items b b' \<and> gstep cfg env itemFn items k b = b'"
  proof (cases "phases b ! k")
    case (Running a d le)
    then show ?thesis
      using k by (cases "attempt cfg (env_item env k) (itemFn (items ! k)) a d (bstore b)";
          cases "fst (attempt cfg (env_item env k) (itemFn (items ! k)) a d (bstore b))")
        (auto simp: gstep_def intro: batch_move.intros)
  next
    case (Failing r)
    then show ?thesis using k by (auto simp: gstep_def intro: batch_move.intros)
  qed (use k in auto)
  then have "gstep cfg env itemFn items k b \<noteq> b" by (auto dest: batch_move_work)
  then show ?thesis using k(1) assms(1) by (auto simp: sem_inv_def)
next
  case False
  then have "slots (phases b) = 0" by (auto simp: slots_def filter_empty_conv in_set_conv_nth)
  moreover obtain k where k: "k < length (phases b)" "phases b ! k = Waiting"
    using False assms(2) by (metis holds_slot.simps(2,3) is_exited.elims(3) list_all_length)
  ultimately have "batch_move cfg env itemFn items b (gstep cfg env itemFn items k b)"
    by (auto simp: gstep_def sem_cap_def intro: batch_move.start)
  then have "gstep cfg env itemFn items k b \<noteq> b" by (auto dest: batch_move_work)
  then show ?thesis using k(1) assms(1) by (auto simp: sem_inv_def)
qed

lemma round_work:
  assumes "sem_inv items b"
  shows "list_all is_exited (phases b) \<or>
    work cfg (run_sched cfg env itemFn items [0..<length items] b) < work cfg b"
  using batch_progress [OF assms, of cfg env itemFn]
    run_sched_work [of cfg env itemFn items "[0..<length items]" b] by fastforce

lemma all_exited_iff_work: "list_all is_exited (phases b) \<longleftrightarrow> work cfg b = 0"
proof -
  have "is_exited p \<longleftrightarrow> weight cfg p = 0" for p by (cases p) auto
  then show ?thesis by (auto simp: work_def list_all_iff)
qed

lemma rounds_complete:
  assumes "sem_inv items b" and "work cfg b \<le> m"
  shows "list_all is_exited (phases
           (run_sched cfg env itemFn items (concat (replicate m [0..<length items])) b))"
  using assms
proof (induction m arbitrary: b)
  case 0
  then show ?case using all_exited_iff_work [of b cfg] by (simp add: run_sched_def)
next
  case (Suc m)
  let ?b = "run_sched cfg env itemFn items [0..<length items] b"
  have "work cfg ?b \<le> m"
    using round_work [OF Suc.prems(1), of cfg env itemFn] Suc.prems(2)
      all_exited_iff_work [of b cfg] run_sched_work [of cfg env itemFn items "[0..<length items]" b]
    by auto
  moreover have "sem_inv items ?b"
    using batch_move_sem_inv Suc.prems(1) by (rule run_sched_invariant)
  ultimately show ?case using Suc.IH by (simp add: run_sched_append)
qed

lemma work_spawn: "work cfg (spawn items s dlq) = length items * (nat (MaxAttempts cfg) + 3)"
  by (simp add: work_def spawn_def sum_list_replicate)


section \<open>No item of a batch is lost\<close>

text \<open>
  What the caller's store promises: an insert that reports success has stored its items, and
  nothing that is stored is taken away by an insert, as long as the store is in good order, which
  it stays.
\<close>

locale accepting_store =
  fixes batch :: "'i list \<Rightarrow> 's effect"
    and single :: "'i \<Rightarrow> 's effect"
    and stored :: "'s \<Rightarrow> 'i \<Rightarrow> bool"
    and ok :: "'s \<Rightarrow> bool"
  assumes batch_accepts: "ok s \<Longrightarrow> batch xs s = (None, s') \<Longrightarrow> x \<in> set xs \<Longrightarrow> stored s' x"
    and batch_keeps: "ok s \<Longrightarrow> stored s x \<Longrightarrow> stored (snd (batch xs s)) x"
    and batch_ok: "ok s \<Longrightarrow> ok (snd (batch xs s))"
    and single_accepts: "ok s \<Longrightarrow> single x s = (None, s') \<Longrightarrow> stored s' x"
    and single_keeps: "ok s \<Longrightarrow> stored s y \<Longrightarrow> stored (snd (single x s)) y"
    and single_ok: "ok s \<Longrightarrow> ok (snd (single x s))"
begin

lemma attempt_snd: "attempt cfg ctx fn a d s = (oc, s') \<Longrightarrow> s' = snd (fn s)"
  by (auto simp: attempt_def split: prod.splits option.splits if_splits)

lemma attempt_accepts:
  "ok s \<Longrightarrow> attempt cfg ctx (single x) a d s = (Return r, s') \<Longrightarrow> Success r \<Longrightarrow> stored s' x"
  using single_accepts [of s x s']
  by (auto simp: attempt_def split: prod.splits option.splits if_splits)

definition stored_inv :: "'i list \<Rightarrow> ('s, 'i) batch_state \<Rightarrow> bool" where
  "stored_inv items b \<longleftrightarrow> ok (bstore b) \<and>
     (\<forall>k < length (phases b). \<forall>r. phases b ! k = Exited r \<and> Success r \<longrightarrow> stored (bstore b) (items ! k)) \<and>
     (\<forall>k < length (phases b). \<forall>r. phases b ! k = Failing r \<longrightarrow> \<not> Success r)"

lemma stored_inv_update:
  assumes "stored_inv items b" and "k < length (phases b)"
    and "phases b' = (phases b)[k := p]" and "ok (bstore b')"
    and "\<And>x. stored (bstore b) x \<Longrightarrow> stored (bstore b') x"
    and "\<And>r. p = Exited r \<Longrightarrow> Success r \<Longrightarrow> stored (bstore b') (items ! k)"
    and "\<And>r. p = Failing r \<Longrightarrow> \<not> Success r"
  shows "stored_inv items b'"
  using assms(1,2,4-7)
  by (auto simp: stored_inv_def assms(3) nth_list_update split: if_splits)

lemma move_stored_inv:
  assumes "batch_move cfg env single items b b'" and "stored_inv items b"
  shows "stored_inv items b'"
proof -
  have o: "ok (bstore b)" using assms(2) by (simp add: stored_inv_def)
  note up = stored_inv_update [OF assms(2)]
  from assms(1) show ?thesis
  proof cases
    case (start k)
    show ?thesis by (rule up [OF start(2)], simp add: start) (simp_all add: start o)
  next
    case (again k)
    show ?thesis
      by (rule up [OF again(2)], simp add: again)
        (simp_all add: again attempt_snd [OF again(5)] single_keeps single_ok o)
  next
    case (succeed k)
    show ?thesis
      by (rule up [OF succeed(2)], simp add: succeed)
        (simp_all add: succeed attempt_accepts [OF o succeed(5,6)],
         simp_all add: attempt_snd [OF succeed(5)] single_keeps single_ok o)
  next
    case (fail k)
    show ?thesis
      by (rule up [OF fail(2)], simp add: fail)
        (simp_all add: fail attempt_snd [OF fail(5)] single_keeps single_ok o)
  next
    case (exhaust k)
    show ?thesis by (rule up [OF exhaust(2)], simp add: exhaust) (auto simp: exhaust exhausted_def o)
  next
    case (bury k r)
    have "\<not> Success r" using assms(2) bury by (auto simp: stored_inv_def)
    then show ?thesis by (intro up [OF bury(2), where p = "Exited r"]) (simp_all add: bury o)
  qed
qed

lemma calls_ok: "ok s \<Longrightarrow> ok (calls (batch xs) n s)"
  by (induction n arbitrary: s) (simp_all add: batch_ok)

lemma calls_batch_accepts:
  assumes "ok s" and "0 < n" and "result_of (batch xs) (n - 1) s = None" and "x \<in> set xs"
  shows "stored (calls (batch xs) n s) x"
proof -
  have "calls (batch xs) n s = snd (batch xs (calls (batch xs) (n - 1) s))"
    using assms(2)
  proof (induction n arbitrary: s)
    case (Suc n)
    then show ?case by (cases n) simp_all
  qed simp
  then show ?thesis
    using assms(3,4) batch_accepts [OF calls_ok [OF assms(1), of xs "n - 1"], of xs]
    by (cases "batch xs (calls (batch xs) (n - 1) s)") (simp add: result_of_def)
qed

definition accounted :: "'i list \<Rightarrow> 's \<Rightarrow> 'i DeadLetterEvent list \<Rightarrow> bool" where
  "accounted items s' ls \<longleftrightarrow>
     length ls \<le> length items \<and> Event ` set ls \<subseteq> set items \<and>
     (distinct items \<longrightarrow> distinct (map Event ls)) \<and>
     (\<forall>x \<in> set items. stored s' x \<or> x \<in> Event ` set ls)"

lemma exited_accounted:
  assumes "list_all is_exited (phases b)" and "dead_inv env items dlq b" and "stored_inv items b"
  shows "\<exists>log. bdlq b = foldl Add dlq log \<and> accounted items (bstore b) log"
proof -
  obtain ks where ks: "distinct ks" "set ks = buried b"
      "bdlq b = foldl Add dlq (map (letter env items b) ks)"
      and len: "length (phases b) = length items"
    using assms(2) by (auto simp: dead_inv_def)
  have ev: "Event (letter env items b k) = items ! k" for k
    by (simp add: letter_def dead_letter_def)
  have bur: "set ks \<subseteq> {..< length items}" using ks(2) len by (auto simp: buried_def)
  have "stored (bstore b) x \<or> x \<in> Event ` letter env items b ` set ks" if "x \<in> set items" for x
  proof -
    obtain k where k: "k < length items" "x = items ! k"
      using \<open>x \<in> set items\<close> by (auto simp: in_set_conv_nth)
    then obtain q where q: "phases b ! k = Exited q"
      using assms(1) len by (metis is_exited.elims(2) list_all_length)
    show ?thesis
    proof (cases "Success q")
      case True
      then show ?thesis using assms(3) k q len by (auto simp: stored_inv_def)
    next
      case False
      then have "k \<in> set ks" using ks(2) k q len by (auto simp: buried_def)
      then show ?thesis using k(2) ev [of k] by (metis imageI)
    qed
  qed
  moreover have "length ks \<le> length items"
    using bur ks(1) card_mono [of "{..< length items}" "set ks"] by (simp add: distinct_card)
  moreover have "distinct (map Event (map (letter env items b) ks))" if "distinct items"
  proof -
    have "inj_on (\<lambda>k. items ! k) (set ks)"
      using that bur by (intro inj_onI) (metis lessThan_iff nth_eq_iff_index_eq subset_iff)
    then show ?thesis using ks(1) ev by (simp add: distinct_map comp_def inj_on_def)
  qed
  moreover have "Event ` letter env items b ` set ks \<subseteq> set items"
    using bur ev by auto
  ultimately have "accounted items (bstore b) (map (letter env items b) ks)"
    by (simp add: accounted_def)
  with ks(3) show ?thesis by blast
qed

lemma BatchRetry_accounted:
  assumes "BatchRetry env cfg items batch single s dlq = Some (s', dlq')" and "0 \<le> MaxAttempts cfg"
    and "ok s"
  shows "\<exists>log. dlq' = foldl Add dlq log \<and> accounted items s' log \<and> ok s'"
proof (cases "items = []")
  case True
  with assms show ?thesis by (auto simp: BatchRetry_def accounted_def intro!: exI [of _ "[]"])
next
  case False
  obtain r ds t where w: "WithRetry (env_batch env) cfg (batch items) s = (r, ds, t)"
    by (cases "WithRetry (env_batch env) cfg (batch items) s")
  obtain n where n: "loop_spec cfg (env_batch env) (batch items) 0 s n r t"
    using WithRetry_spec [OF w assms(2)] by blast
  then have ot: "ok t" using calls_ok [OF assms(3)] by (auto simp: loop_spec_def)
  show ?thesis
  proof (cases "Success r")
    case True
    have "\<forall>x \<in> set items. stored t x"
      using n True calls_batch_accepts [OF assms(3)] by (auto simp: loop_spec_def)
    then show ?thesis
      using assms(1) False True w ot
      by (auto simp: BatchRetry_def accounted_def intro: exI [of _ "[]"])
  next
    case fails: False
    define b where "b = run_sched cfg env single items (env_sched env) (spawn items t dlq)"
    have ex: "list_all is_exited (phases b)" and res: "s' = bstore b" "dlq' = bdlq b"
      using assms(1) False fails w by (auto simp: BatchRetry_def b_def Let_def split: if_splits)
    have "dead_inv env items dlq b" unfolding b_def
      using batch_move_dead_inv spawn_dead_inv by (rule run_sched_invariant)
    moreover have "stored_inv items b" unfolding b_def
      using move_stored_inv by (rule run_sched_invariant) (auto simp: stored_inv_def spawn_def ot)
    ultimately show ?thesis using ex res exited_accounted by (auto simp: stored_inv_def)
  qed
qed

end


section \<open>Properties\<close>

text \<open>A concrete operation for the witnesses: it fails on its first two calls.\<close>

definition flaky :: "nat effect" where
  "flaky n = (if n < 2 then Some (Errorf ''down'') else None, n + 1)"

lemma DefaultConfig_exact: "backoff_exact DefaultConfig 2"
  by (simp add: backoff_exact_def DefaultConfig_def ms_def)

lemma DefaultConfig_delay:
  "0 \<le> d \<Longrightarrow> d \<le> 1000000000 \<Longrightarrow> next_delay DefaultConfig d = min (d * 2) 1000000000"
  using next_delay_exact [OF DefaultConfig_exact, of d] by (simp add: DefaultConfig_def ms_def)

lemma DefaultConfig_fields:
  "MaxAttempts DefaultConfig = 5" "BaseDelay DefaultConfig = 50000000"
  by (simp_all add: DefaultConfig_def ms_def)

lemma flaky_WithRetry:
  "WithRetry Background DefaultConfig flaky 0 =
     (\<lparr>Success = True, Attempts = 3, Err = None\<rparr>, [50000000, 100000000], 3)"
  by (simp add: WithRetry_def retry_loop.simps attempt_def flaky_def Background_def
      DefaultConfig_fields DefaultConfig_delay)

text \<open>
  C15. \<open>WithRetry\<close> calls its operation at most \<open>MaxAttempts\<close> times, stops at the first
  success, reports success exactly then together with the number of calls made, and gives up
  earlier only when the context has ended.
\<close>

theorem WithRetry_correct:
  assumes "WithRetry ctx cfg fn s = (r, ds, s')" and "0 \<le> MaxAttempts cfg"
  shows "\<exists>n. Attempts r = int n \<and> int n \<le> MaxAttempts cfg \<and> s' = calls fn n s \<and>
           (\<forall>j. Suc j < n \<longrightarrow> result_of fn j s \<noteq> None) \<and>
           (Success r \<longleftrightarrow> 0 < n \<and> result_of fn (n - 1) s = None) \<and>
           (Err r = None \<longleftrightarrow> Success r) \<and>
           (\<not> Success r \<longrightarrow> int n = MaxAttempts cfg \<or> (0 < n \<and> cancelled ctx (n - 1)))"
  using WithRetry_spec [OF assms] unfolding loop_spec_def by (auto simp: nat_diff_distrib)

theorem WithRetry_correct_witness:
  "\<exists>n. Attempts \<lparr>Success = True, Attempts = 3, Err = None\<rparr> = int n \<and> (3 :: nat) = calls flaky n 0"
  using WithRetry_correct [OF flaky_WithRetry] by (auto simp: DefaultConfig_fields)

text \<open>
  C26. \<open>WithRetry\<close> sleeps once between any two attempts and at no other time: with
  \<open>n\<close> attempts made it has slept through exactly \<open>n - 1\<close> delays, whether it ended by a success,
  by exhaustion or by the context (a backoff the context cuts short is not counted), and
  the \<open>k\<close>-th of them, from 0, is \<open>min (BaseDelay * m\<^sup>k) MaxDelay\<close>. The conditions
  are those under which the float computation of the code is exact: the multiplier is a
  whole number \<open>m \<ge> 1\<close>, \<open>0 \<le> BaseDelay \<le> MaxDelay\<close>, and \<open>MaxDelay * m\<close> stays
  below \<open>2\<^sup>5\<^sup>3\<close> nanoseconds; the defaults of the code meet them.
\<close>

theorem WithRetry_backoff:
  assumes "WithRetry ctx cfg fn s = (r, ds, s')" and "backoff_exact cfg m"
  shows "length ds = nat (Attempts r - 1) \<and>
         (\<forall>k < length ds. ds ! k = min (BaseDelay cfg * m ^ k) (MaxDelay cfg)) \<and>
         int (length ds) \<le> max 0 (MaxAttempts cfg - 1)"
proof -
  have "BaseDelay cfg = backoff cfg m 0"
    using assms(2) by (simp add: backoff_def backoff_exact_def)
  then have ds: "ds = map (backoff cfg m) [nat 0..<nat (Attempts r - 1)] \<and>
      0 + int (length ds) \<le> max 0 (MaxAttempts cfg - 1)"
    by (intro retry_loop_delays [OF assms(1) [unfolded WithRetry_def] assms(2)]) simp_all
  have "ds ! k = backoff cfg m k" if "k < length ds" for k
    using ds that by (metis add_0 length_map length_upt minus_nat.diff_0 nat_0 nth_map nth_upt)
  moreover have "length ds = nat (Attempts r - 1)"
    using ds by (metis length_map length_upt minus_nat.diff_0 nat_0)
  moreover have "int (length ds) \<le> max 0 (MaxAttempts cfg - 1)" using ds by linarith
  ultimately show ?thesis unfolding backoff_def by blast
qed

theorem WithRetry_backoff_witness:
  "\<exists>r ds. WithRetry Background DefaultConfig flaky 0 = (r, ds, 3) \<and> Attempts r = 3 \<and>
     length ds = 2 \<and> ds ! 0 = 50000000 \<and> ds ! 1 = 100000000"
proof -
  from WithRetry_backoff [OF flaky_WithRetry DefaultConfig_exact]
  have "[50000000, 100000000] ! k = min (BaseDelay DefaultConfig * 2 ^ k) (MaxDelay DefaultConfig)"
    if "k < 2" for k using that by simp
  from this [of 0] this [of 1] show ?thesis
    by (simp add: flaky_WithRetry)
qed

text \<open>
  C27. The dead letter queue holds the most recent entries, in order, never more than its
  maximum size.
\<close>

theorem dlq_keeps_recent:
  assumes "dlq_inv q"
  shows "GetAll (foldl Add q es) =
           drop (Len q + length es - nat (dlq_maxSize q)) (GetAll q @ es) \<and>
         int (Len (foldl Add q es)) \<le> dlq_maxSize q"
proof -
  have "dlq_inv (foldl Add q es)" "nat (dlq_maxSize (foldl Add q es)) = nat (dlq_maxSize q)"
    using dlq.ok_foldl [OF assms] by simp_all
  then have "int (Len (foldl Add q es)) \<le> dlq_maxSize q"
    using assms by (auto simp: dlq_inv_def)
  moreover have "GetAll (foldl Add q es) =
      drop (Len q + length es - nat (dlq_maxSize q)) (GetAll q @ es)"
    unfolding GetAll_def Len_def by (rule dlq.view_foldl [OF assms])
  ultimately show ?thesis by blast
qed

theorem dlq_keeps_recent_witness:
  "GetAll (foldl Add \<lparr>dlq_events = [], dlq_maxSize = 2\<rparr>
     (map (\<lambda>i. dead_letter i (exhausted DefaultConfig None) 0) [1, 2, 3 :: nat])) =
   map (\<lambda>i. dead_letter i (exhausted DefaultConfig None) 0) [2, 3]"
proof -
  have "dlq_inv \<lparr>dlq_events = ([] :: nat DeadLetterEvent list), dlq_maxSize = 2\<rparr>"
    by (simp add: dlq_inv_def Len_def)
  from dlq_keeps_recent [OF this,
      of "map (\<lambda>i. dead_letter i (exhausted DefaultConfig None) 0) [1, 2, 3]"]
  show ?thesis by (simp add: GetAll_def Len_def)
qed

text \<open>
  At no point of any interleaving are more than ten goroutines of a batch past the
  semaphore.
\<close>

theorem BatchRetry_semaphore:
  "slots (phases (run_sched cfg env itemFn items ks (spawn items s dlq))) \<le> 10"
proof -
  have "sem_inv items (run_sched cfg env itemFn items ks (spawn items s dlq))"
    using batch_move_sem_inv spawn_sem_inv by (rule run_sched_invariant)
  then show ?thesis by (simp add: sem_inv_def sem_cap_def)
qed

text \<open>
  C28. \<open>BatchRetry\<close> returns under every store and every context once each goroutine has
  been scheduled often enough; in particular the semaphore cannot deadlock the goroutines.
\<close>

theorem BatchRetry_completes:
  assumes "env_sched env = concat (replicate m [0..<length items])"
    and "length items * (nat (MaxAttempts cfg) + 3) \<le> m"
  shows "\<exists>s' dlq'. BatchRetry env cfg items fn itemFn s dlq = Some (s', dlq')"
proof -
  have "list_all is_exited (phases
      (run_sched cfg env itemFn items (env_sched env) (spawn items t dlq)))" for t
    using rounds_complete [OF spawn_sem_inv, of cfg items t dlq m env itemFn] assms
    by (simp add: work_spawn)
  then show ?thesis by (simp add: BatchRetry_def Let_def split: prod.splits)
qed

theorem BatchRetry_completes_witness:
  "\<exists>s' dlq'. BatchRetry
     \<lparr>env_batch = Background, env_item = (\<lambda>_. Background), env_now = (\<lambda>_. 0),
      env_sched = concat (replicate 16 [0..<length [7, 8 :: nat]])\<rparr>
     DefaultConfig [7, 8] (\<lambda>_. flaky) (\<lambda>_. flaky) 0 \<lparr>dlq_events = [], dlq_maxSize = 2\<rparr>
     = Some (s', dlq')"
  by (rule BatchRetry_completes [where m = 16]) (simp_all add: DefaultConfig_fields)

end
