(* ===== verification/Go_Json.thy ===== *)
theory Go_Json
  imports Go_Prelude
begin

text \<open>
  The part of \<open>encoding/json\<close> (and of \<open>encoding/base64\<close> and \<open>unicode/utf8\<close> under
  it) that the program uses: documents as trees, \<open>json.Marshal\<close>'s text for a tree, a
  parser of that text, and the conversions between trees and the Go types of the fields of
  the program's structs. Bytes are characters. The nesting limit of Go's scanner (10000
  levels) is not modelled.
\<close>

datatype json =
    JNull
  | JBool bool
  | JNum string
  | JStr string
  | JArr "json list"
  | JObj "(string \<times> json) list"

abbreviation byte :: "char \<Rightarrow> nat" where "byte c \<equiv> of_char c"


section \<open>UTF-8\<close>

definition cont :: "nat \<Rightarrow> nat \<Rightarrow> char \<Rightarrow> bool" where
  "cont lo hi c \<longleftrightarrow> lo \<le> byte c \<and> byte c \<le> hi"

text \<open>
  The length of the encoded rune a string starts with, 0 when the first byte does not start
  a valid encoding (\<open>utf8.DecodeRune\<close> then reports \<open>RuneError\<close> of width 1).
\<close>

fun rune_len :: "string \<Rightarrow> nat" where
  "rune_len [] = 0"
| "rune_len (a # cs) =
     (if byte a < 128 then 1
      else if 194 \<le> byte a \<and> byte a \<le> 223 then
        (case cs of b # _ \<Rightarrow> if cont 128 191 b then 2 else 0 | _ \<Rightarrow> 0)
      else if 224 \<le> byte a \<and> byte a \<le> 239 then
        (case cs of
           b # c # _ \<Rightarrow>
             if cont (if byte a = 224 then 160 else 128) (if byte a = 237 then 159 else 191) b
                \<and> cont 128 191 c then 3 else 0
         | _ \<Rightarrow> 0)
      else if 240 \<le> byte a \<and> byte a \<le> 244 then
        (case cs of
           b # c # d # _ \<Rightarrow>
             if cont (if byte a = 240 then 144 else 128) (if byte a = 244 then 143 else 191) b
                \<and> cont 128 191 c \<and> cont 128 191 d then 4 else 0
         | _ \<Rightarrow> 0)
      else 0)"

declare rune_len.simps(2) [simp del]

lemma rune_len_ascii [simp]: "byte c < 128 \<Longrightarrow> rune_len (c # cs) = 1"
  by (simp add: rune_len.simps(2))

function valid_utf8 :: "string \<Rightarrow> bool" where
  "valid_utf8 s =
     (if s = [] then True
      else if rune_len s = 0 then False else valid_utf8 (drop (rune_len s) s))"
  by pat_completeness auto
termination
  by (relation "measure length") auto

declare valid_utf8.simps [simp del]

definition utf8_encode :: "nat \<Rightarrow> string" where
  "utf8_encode r =
     (if r < 128 then [char_of r]
      else if r < 2048 then [char_of (192 + r div 64), char_of (128 + r mod 64)]
      else if r < 65536 then
        [char_of (224 + r div 4096), char_of (128 + r div 64 mod 64), char_of (128 + r mod 64)]
      else [char_of (240 + r div 262144), char_of (128 + r div 4096 mod 64),
            char_of (128 + r div 64 mod 64), char_of (128 + r mod 64)])"

text \<open>The encoding of \<open>U+FFFD\<close>.\<close>

definition replacement :: string where
  "replacement = utf8_encode 65533"


section \<open>Strings\<close>

definition hex_digit :: "nat \<Rightarrow> char" where
  "hex_digit n = (if n < 10 then char_of (48 + n) else char_of (87 + n))"

definition hex_val :: "char \<Rightarrow> nat option" where
  "hex_val c =
     (let b = byte c in
      if 48 \<le> b \<and> b \<le> 57 then Some (b - 48)
      else if 97 \<le> b \<and> b \<le> 102 then Some (b - 87)
      else if 65 \<le> b \<and> b \<le> 70 then Some (b - 55) else None)"

definition bslash :: char where "bslash = CHR 0x5C"
definition dquote :: char where "dquote = CHR 0x22"

definition u_escape :: "nat \<Rightarrow> string" where
  "u_escape r =
     [bslash, CHR ''u'', hex_digit (r div 4096 mod 16), hex_digit (r div 256 mod 16),
      hex_digit (r div 16 mod 16), hex_digit (r mod 16)]"

definition escape_ascii :: "char \<Rightarrow> string" where
  "escape_ascii c =
     (if c = dquote \<or> c = bslash then [bslash, c]
      else if byte c = 8 then [bslash, CHR ''b'']
      else if byte c = 12 then [bslash, CHR ''f'']
      else if byte c = 10 then [bslash, CHR ''n'']
      else if byte c = 13 then [bslash, CHR ''r'']
      else if byte c = 9 then [bslash, CHR ''t'']
      else if byte c < 32 \<or> c \<in> set ''<>&'' then u_escape (byte c)
      else [c])"

text \<open>The body of a quoted string, as \<open>json.Marshal\<close> writes it (with HTML escaping).\<close>

function escape :: "string \<Rightarrow> string" where
  "escape s =
     (case s of
        [] \<Rightarrow> []
      | c # cs \<Rightarrow>
          if byte c < 128 then escape_ascii c @ escape cs
          else if rune_len s = 0 then u_escape 65533 @ escape cs
          else if take 3 s = utf8_encode 8232 then u_escape 8232 @ escape (drop 3 s)
          else if take 3 s = utf8_encode 8233 then u_escape 8233 @ escape (drop 3 s)
          else take (rune_len s) s @ escape (drop (rune_len s) s))"
  by pat_completeness auto
termination
  by (relation "measure length") auto

declare escape.simps [simp del]

definition quote :: "string \<Rightarrow> string" where
  "quote s = dquote # escape s @ [dquote]"

fun hex4 :: "string \<Rightarrow> (nat \<times> string) option" where
  "hex4 (a # b # c # d # cs) =
     (case (hex_val a, hex_val b, hex_val c, hex_val d) of
        (Some p, Some q, Some r, Some t) \<Rightarrow> Some (4096 * p + 256 * q + 16 * r + t, cs)
      | _ \<Rightarrow> None)"
| "hex4 _ = None"

text \<open>
  A \<open>\u\<close> escape: a surrogate half joins with the escape that follows it when the two form
  a pair, and is replaced otherwise.
\<close>

definition u_unescape :: "string \<Rightarrow> (string \<times> string) option" where
  "u_unescape s =
     (case hex4 s of
        None \<Rightarrow> None
      | Some (r, cs) \<Rightarrow>
          if 55296 \<le> r \<and> r < 57344 then
            (case cs of
               x # y # ds \<Rightarrow>
                 (if x = bslash \<and> y = CHR ''u'' then
                    (case hex4 ds of
                       Some (r2, es) \<Rightarrow>
                         if r < 56320 \<and> 56320 \<le> r2 \<and> r2 < 57344
                         then Some (utf8_encode (65536 + 1024 * (r - 55296) + (r2 - 56320)), es)
                         else Some (replacement, cs)
                     | None \<Rightarrow> Some (replacement, cs))
                  else Some (replacement, cs))
             | _ \<Rightarrow> Some (replacement, cs))
          else Some (utf8_encode r, cs))"

definition simple_escape :: "char \<Rightarrow> char option" where
  "simple_escape c =
     (if c = dquote \<or> c = bslash \<or> c = CHR ''/'' then Some c
      else if c = CHR ''b'' then Some (char_of (8::nat))
      else if c = CHR ''f'' then Some (char_of (12::nat))
      else if c = CHR ''n'' then Some (char_of (10::nat))
      else if c = CHR ''r'' then Some (char_of (13::nat))
      else if c = CHR ''t'' then Some (char_of (9::nat)) else None)"

text \<open>
  Reading a string body up to its closing quote. The fuel is the number of bytes; every
  step reads at least one.
\<close>

fun unescape :: "nat \<Rightarrow> string \<Rightarrow> (string \<times> string) option" where
  "unescape 0 s = None"
| "unescape (Suc f) [] = None"
| "unescape (Suc f) (c # cs) =
     (if c = dquote then Some ([], cs)
      else if c = bslash then
        (case cs of
           [] \<Rightarrow> None
         | d # ds \<Rightarrow>
             (if d = CHR ''u'' then
                (case u_unescape ds of
                   None \<Rightarrow> None
                 | Some (r, es) \<Rightarrow> map_option (\<lambda>(t, u). (r @ t, u)) (unescape f es))
              else
                (case simple_escape d of
                   None \<Rightarrow> None
                 | Some e \<Rightarrow> map_option (\<lambda>(t, u). (e # t, u)) (unescape f ds))))
      else if byte c < 32 then None
      else if byte c < 128 then map_option (\<lambda>(t, u). (c # t, u)) (unescape f cs)
      else if rune_len (c # cs) = 0
        then map_option (\<lambda>(t, u). (replacement @ t, u)) (unescape f cs)
      else map_option (\<lambda>(t, u). (take (rune_len (c # cs)) (c # cs) @ t, u))
             (unescape f (drop (rune_len (c # cs)) (c # cs))))"


subsection \<open>A quoted string reads back\<close>

lemma hex_val_digit: "n < 16 \<Longrightarrow> hex_val (hex_digit n) = Some n"
  by (simp add: hex_val_def hex_digit_def Let_def)

lemma hex4_u_escape:
  assumes "r < 65536"
  shows "hex4 (drop 2 (u_escape r) @ t) = Some (r, t)"
proof -
  have "4096 * (r div 4096 mod 16) + 256 * (r div 256 mod 16) + 16 * (r div 16 mod 16) + r mod 16 = r"
  proof -
    define x where "x = r div 16"
    define y where "y = x div 16"
    define z where "z = y div 16"
    have d: "r div 256 = y" "r div 4096 = z"
      by (simp_all add: x_def y_def z_def flip: div_mult2_eq)
    have "z < 16" using assms less_mult_imp_div_less [of r 16 4096] d(2) by simp
    moreover have "r = 16 * x + r mod 16" "x = 16 * y + x mod 16" "y = 16 * z + y mod 16"
      by (simp_all add: x_def y_def z_def)
    ultimately show ?thesis unfolding d x_def [symmetric] by (simp only: mod_less)
  qed
  with assms show ?thesis by (simp add: u_escape_def hex_val_digit)
qed

lemma unescape_u_escape:
  assumes "r < 55296"
  shows "unescape (Suc f) (u_escape r @ t) = map_option (\<lambda>(t, u). (utf8_encode r @ t, u)) (unescape f t)"
proof -
  let ?h = "drop 2 (u_escape r) @ t"
  have "hex4 ?h = Some (r, t)" using assms by (simp add: hex4_u_escape)
  then have "u_unescape ?h = Some (utf8_encode r, t)"
    using assms by (simp add: u_unescape_def)
  moreover have eq: "u_escape r @ t = bslash # CHR ''u'' # ?h" by (simp add: u_escape_def)
  ultimately show ?thesis unfolding eq by (simp add: bslash_def dquote_def)
qed

lemma unescape_ascii:
  assumes "byte c < 128"
  shows "unescape (Suc f) (escape_ascii c @ t) = map_option (\<lambda>(t, u). (c # t, u)) (unescape f t)"
proof -
  consider "c = dquote \<or> c = bslash" | "byte c \<in> {8, 9, 10, 12, 13}"
    | "byte c \<notin> {8, 9, 10, 12, 13}" "byte c < 32 \<or> c \<in> set ''<>&''" "c \<noteq> dquote" "c \<noteq> bslash"
    | "\<not> byte c < 32" "c \<notin> set ''<>&''" "c \<noteq> dquote" "c \<noteq> bslash" by blast
  then show ?thesis
  proof cases
    case 1
    then show ?thesis
      by (auto simp: escape_ascii_def simple_escape_def bslash_def dquote_def)
  next
    case 2
    then have "c \<in> char_of ` {8, 9, 10, 12, 13 :: nat}"
      using imageI [of "byte c" "{8, 9, 10, 12, 13}" char_of] by (simp only: char_of_char)
    then show ?thesis
      by (elim imageE insertE) (simp_all add: escape_ascii_def simple_escape_def bslash_def dquote_def)
  next
    case 3
    then have "escape_ascii c = u_escape (byte c)" by (auto simp: escape_ascii_def)
    moreover have "utf8_encode (byte c) = [c]" using assms by (simp add: utf8_encode_def)
    ultimately show ?thesis using unescape_u_escape [of "byte c" f t] assms by simp
  next
    case 4
    then have "escape_ascii c = [c]" by (auto simp: escape_ascii_def)
    then show ?thesis using 4 assms by simp
  qed
qed

lemma list_cases4:
  obtains "cs = []" | b where "cs = [b]" | b c where "cs = [b, c]" | b c d ds where "cs = b # c # d # ds"
  by (metis neq_Nil_conv)

lemma rune_len_le: "rune_len s \<le> length s"
proof (cases s)
  case (Cons a cs)
  show ?thesis
    by (cases cs rule: list_cases4) (simp_all add: Cons rune_len.simps(2))
qed simp

lemma rune_len_prefix:
  assumes "0 < rune_len s"
  shows "rune_len (take (rune_len s) s @ t) = rune_len s"
proof (cases s)
  case (Cons a cs)
  then show ?thesis
    using assms
    by (cases cs rule: list_cases4) (simp_all add: rune_len.simps(2) split: if_splits)
qed (use assms in simp)

lemma valid_utf8_drop: "valid_utf8 s \<Longrightarrow> s \<noteq> [] \<Longrightarrow> 0 < rune_len s \<and> valid_utf8 (drop (rune_len s) s)"
  by (subst (asm) valid_utf8.simps) (auto split: if_splits)

lemma rune_len_separators:
  "take 3 s = utf8_encode 8232 \<Longrightarrow> rune_len s = 3" "take 3 s = utf8_encode 8233 \<Longrightarrow> rune_len s = 3"
  by (cases s; cases "tl s"; cases "tl (tl s)";
      auto simp: utf8_encode_def cont_def numeral_3_eq_3 rune_len.simps(2))+

lemma separators_neq [simp]: "utf8_encode 8233 \<noteq> utf8_encode 8232"
  by (simp add: utf8_encode_def)

lemma unescape_raw:
  assumes "s = c # cs" and "\<not> byte c < 128" and "0 < rune_len s"
  shows "unescape (Suc f) (take (rune_len s) s @ t)
         = map_option (\<lambda>(u, v). (take (rune_len s) s @ u, v)) (unescape f t)"
proof -
  have ne: "c \<noteq> dquote" "c \<noteq> bslash" using assms(2) by (auto simp: dquote_def bslash_def)
  obtain ds where ds: "take (rune_len s) s @ t = c # ds"
    using assms by (cases "rune_len s") auto
  have len: "rune_len (c # ds) = rune_len s"
    using rune_len_prefix [OF assms(3), of t] ds by simp
  have "take (rune_len s) (c # ds) = take (rune_len s) s" "drop (rune_len s) (c # ds) = t"
    using ds [symmetric] rune_len_le [of s] by simp_all
  with ds ne assms(2,3) len show ?thesis by (simp only: unescape.simps) simp
qed

lemma unescape_escape:
  assumes "valid_utf8 s" and "length s < f"
  shows "unescape f (escape s @ dquote # rest) = Some (s, rest)"
  using assms
proof (induction s arbitrary: f rule: escape.induct)
  case (1 s)
  obtain g where f: "f = Suc g" using "1.prems"(2) by (cases f) auto
  show ?case
  proof (cases s)
    case Nil
    then show ?thesis by (simp add: f escape.simps)
  next
    case (Cons c cs)
    have v: "0 < rune_len s" "valid_utf8 (drop (rune_len s) s)"
      using valid_utf8_drop "1.prems"(1) Cons by blast+
    have dr: "length (drop (rune_len s) s) < g"
      using "1.prems"(2) v(1) rune_len_le [of s] f Cons by simp
    consider "byte c < 128" | "\<not> byte c < 128" "take 3 s = utf8_encode 8232"
      | "\<not> byte c < 128" "take 3 s \<noteq> utf8_encode 8232" "take 3 s = utf8_encode 8233"
      | "\<not> byte c < 128" "take 3 s \<noteq> utf8_encode 8232" "take 3 s \<noteq> utf8_encode 8233" by blast
    then show ?thesis
    proof cases
      case 1
      then have "unescape g (escape cs @ dquote # rest) = Some (cs, rest)"
        using "1.IH"(1) [OF Cons] v dr Cons by simp
      then show ?thesis using 1 Cons f unescape_ascii by (simp add: escape.simps [of "c # cs"])
    next
      case 2
      then have "unescape g (escape (drop 3 s) @ dquote # rest) = Some (drop 3 s, rest)"
        using "1.IH"(3) [OF Cons] v dr rune_len_separators by simp
      then show ?thesis
        using 2 Cons f v unescape_u_escape [of 8232 g] append_take_drop_id [of 3 s]
        by (simp add: escape.simps [of "c # cs"])
    next
      case 3
      then have "unescape g (escape (drop 3 s) @ dquote # rest) = Some (drop 3 s, rest)"
        using "1.IH"(4) [OF Cons] v dr rune_len_separators by simp
      then show ?thesis
        using 3 Cons f v unescape_u_escape [of 8233 g] append_take_drop_id [of 3 s]
        by (simp add: escape.simps [of "c # cs"])
    next
      case 4
      then have "unescape g (escape (drop (rune_len s) s) @ dquote # rest) = Some (drop (rune_len s) s, rest)"
        using "1.IH"(5) [OF Cons] v dr by simp
      then show ?thesis
        using 4 Cons f v unescape_raw [OF Cons 4(1) v(1), of g] append_take_drop_id [of "rune_len s" s]
        by (simp add: escape.simps [of "c # cs"])
    qed
  qed
qed

lemma escape_length: "length s \<le> length (escape s)"
proof (induction s rule: escape.induct)
  case (1 s)
  show ?case
  proof (cases s)
    case (Cons c cs)
    have "1 \<le> length (escape_ascii c)" by (simp add: escape_ascii_def u_escape_def)
    then show ?thesis
      using "1.IH"(1-5) [OF Cons] Cons rune_len_le [of s] rune_len_separators [of s]
      by (subst escape.simps) (auto simp: u_escape_def)
  qed simp
qed


section \<open>Documents\<close>

definition is_ws :: "char \<Rightarrow> bool" where
  "is_ws c \<longleftrightarrow> byte c \<in> {9, 10, 13, 32}"

definition skip_ws :: "string \<Rightarrow> string" where
  "skip_ws = dropWhile is_ws"

text \<open>The literal of a number, split into sign and integer part, fraction and exponent.\<close>

definition int_part :: "string \<Rightarrow> (string \<times> string) option" where
  "int_part s =
     (case s of
        [] \<Rightarrow> None
      | c # cs \<Rightarrow>
          if c = CHR ''0'' then Some ([c], cs)
          else if is_digit c then Some (takeWhile is_digit s, dropWhile is_digit s) else None)"

definition digits1 :: "string \<Rightarrow> (string \<times> string) option" where
  "digits1 s =
     (if takeWhile is_digit s = [] then None
      else Some (takeWhile is_digit s, dropWhile is_digit s))"

definition frac_part :: "string \<Rightarrow> (string \<times> string) option" where
  "frac_part s =
     (case s of
        c # cs \<Rightarrow>
          if c = CHR ''.'' then map_option (\<lambda>(d, r). (c # d, r)) (digits1 cs) else Some ([], s)
      | [] \<Rightarrow> Some ([], s))"

definition exp_part :: "string \<Rightarrow> (string \<times> string) option" where
  "exp_part s =
     (case s of
        c # cs \<Rightarrow>
          if c = CHR ''e'' \<or> c = CHR ''E'' then
            (case cs of
               d # ds \<Rightarrow>
                 if d = CHR ''+'' \<or> d = CHR ''-''
                 then map_option (\<lambda>(e, r). (c # d # e, r)) (digits1 ds)
                 else map_option (\<lambda>(e, r). (c # e, r)) (digits1 cs)
             | [] \<Rightarrow> None)
          else Some ([], s)
      | [] \<Rightarrow> Some ([], s))"

definition parse_number :: "string \<Rightarrow> (string \<times> string) option" where
  "parse_number s =
     (let (sg, s1) = (case s of c # cs \<Rightarrow> if c = CHR ''-'' then ([c], cs) else ([], s) | [] \<Rightarrow> ([], s))
      in case int_part s1 of
           None \<Rightarrow> None
         | Some (i, s2) \<Rightarrow>
             (case frac_part s2 of
                None \<Rightarrow> None
              | Some (f, s3) \<Rightarrow>
                  map_option (\<lambda>(e, s4). (sg @ i @ f @ e, s4)) (exp_part s3)))"

definition literal :: "string \<Rightarrow> json \<Rightarrow> string \<Rightarrow> (json \<times> string) option" where
  "literal w v s = (if take (length w) s = w then Some (v, drop (length w) s) else None)"

text \<open>
  The parser. Its fuel bounds the number of nested values and members; the length of the
  text is enough, as every one of them takes at least one byte.
\<close>

fun parse_value :: "nat \<Rightarrow> string \<Rightarrow> (json \<times> string) option"
  and parse_elems :: "nat \<Rightarrow> string \<Rightarrow> (json list \<times> string) option"
  and parse_members :: "nat \<Rightarrow> string \<Rightarrow> ((string \<times> json) list \<times> string) option" where
  "parse_value 0 s = None"
| "parse_value (Suc f) s =
     (case skip_ws s of
        [] \<Rightarrow> None
      | c # cs \<Rightarrow>
          if c = dquote then
            map_option (\<lambda>(t, u). (JStr t, u)) (unescape (Suc (length cs)) cs)
          else if c = CHR ''{'' then
            (case skip_ws cs of
               [] \<Rightarrow> None
             | d # ds \<Rightarrow>
                 if d = CHR ''}'' then Some (JObj [], ds)
                 else map_option (\<lambda>(ms, u). (JObj ms, u)) (parse_members f (d # ds)))
          else if c = CHR ''['' then
            (case skip_ws cs of
               [] \<Rightarrow> None
             | d # ds \<Rightarrow>
                 if d = CHR '']'' then Some (JArr [], ds)
                 else map_option (\<lambda>(vs, u). (JArr vs, u)) (parse_elems f (d # ds)))
          else if c = CHR ''n'' then literal ''null'' JNull (c # cs)
          else if c = CHR ''t'' then literal ''true'' (JBool True) (c # cs)
          else if c = CHR ''f'' then literal ''false'' (JBool False) (c # cs)
          else map_option (\<lambda>(t, u). (JNum t, u)) (parse_number (c # cs)))"
| "parse_elems 0 s = None"
| "parse_elems (Suc f) s =
     (case parse_value f s of
        None \<Rightarrow> None
      | Some (v, w) \<Rightarrow>
          (case skip_ws w of
             [] \<Rightarrow> None
           | e # es \<Rightarrow>
               if e = CHR '','' then map_option (\<lambda>(vs, u). (v # vs, u)) (parse_elems f es)
               else if e = CHR '']'' then Some ([v], es) else None))"
| "parse_members 0 s = None"
| "parse_members (Suc f) s =
     (case skip_ws s of
        [] \<Rightarrow> None
      | c # cs \<Rightarrow>
          if c = dquote then
            (case unescape (Suc (length cs)) cs of
               None \<Rightarrow> None
             | Some (k, u) \<Rightarrow>
                 (case skip_ws u of
                    [] \<Rightarrow> None
                  | d # ds \<Rightarrow>
                      if d = CHR '':'' then
                        (case parse_value f ds of
                           None \<Rightarrow> None
                         | Some (v, w) \<Rightarrow>
                             (case skip_ws w of
                                [] \<Rightarrow> None
                              | e # es \<Rightarrow>
                                  if e = CHR '',''
                                  then map_option (\<lambda>(ms, r). ((k, v) # ms, r)) (parse_members f es)
                                  else if e = CHR ''}'' then Some ([(k, v)], es) else None))
                      else None))
          else None)"

definition json_parse :: "string \<Rightarrow> json option" where
  "json_parse s =
     (case parse_value (Suc (length s)) s of
        Some (v, u) \<Rightarrow> if skip_ws u = [] then Some v else None
      | None \<Rightarrow> None)"

fun join :: "string \<Rightarrow> string list \<Rightarrow> string" where
  "join sep [] = []"
| "join sep [x] = x"
| "join sep (x # y # xs) = x @ sep @ join sep (y # xs)"

fun print_json :: "json \<Rightarrow> string" where
  "print_json JNull = ''null''"
| "print_json (JBool b) = (if b then ''true'' else ''false'')"
| "print_json (JNum l) = l"
| "print_json (JStr s) = quote s"
| "print_json (JArr vs) = CHR ''['' # join '','' (map print_json vs) @ '']''"
| "print_json (JObj ms) =
     CHR ''{'' # join '','' (map (\<lambda>(k, v). quote k @ CHR '':'' # print_json v) ms) @ ''}''"


subsection \<open>A printed document parses back\<close>

definition stop :: "string \<Rightarrow> bool" where
  "stop s \<longleftrightarrow> (case s of [] \<Rightarrow> True | c # _ \<Rightarrow> c \<in> set '',]}'')"

lemma ws_simps [simp]:
  "skip_ws (dquote # s) = dquote # s" "skip_ws [] = []"
  "c \<in> set ''{}[],:ntf'' \<Longrightarrow> skip_ws (c # s) = c # s"
  "is_digit c \<or> c = CHR ''-'' \<Longrightarrow> skip_ws (c # s) = c # s"
  by (auto simp: skip_ws_def is_ws_def dquote_def is_digit_def)

lemma char_of_48: "n < 10 \<Longrightarrow> char_of (48 + n :: nat) = CHR ''0'' \<longleftrightarrow> n = 0"
proof
  assume "n < 10" "char_of (48 + n :: nat) = CHR ''0''"
  then have "byte (char_of (48 + n)) = byte (CHR ''0'')" by simp
  with \<open>n < 10\<close> show "n = 0" by (simp only: of_char_digit) simp
next
  have "byte (CHR ''0'') = 48" by simp
  then have "char_of (48 :: nat) = CHR ''0''" by (metis char_of_char)
  then show "n = 0 \<Longrightarrow> char_of (48 + n :: nat) = CHR ''0''" by simp
qed

lemma dquote_neq:
  "CHR ''{'' \<noteq> dquote" "CHR ''['' \<noteq> dquote" "dquote \<noteq> CHR ''}''"
  by (simp_all add: dquote_def)

lemma fmt_nat_no_leading_zero: "0 < n \<Longrightarrow> hd (fmt_nat n) \<noteq> CHR ''0''"
proof (induction n rule: fmt_nat.induct)
  case (1 n)
  show ?case
  proof (cases "n < 10")
    case True
    with "1.prems" show ?thesis by (subst fmt_nat.simps) (simp add: char_of_48)
  next
    case False
    with "1.IH" have "hd (fmt_nat (n div 10)) \<noteq> CHR ''0''" by simp
    with False show ?thesis by (subst fmt_nat.simps) simp
  qed
qed

lemma stop_digits:
  assumes "stop rest"
  shows "takeWhile is_digit rest = []" "dropWhile is_digit rest = rest"
    "frac_part rest = Some ([], rest)" "exp_part rest = Some ([], rest)"
  using assms by (auto simp: stop_def frac_part_def exp_part_def is_digit_def split: list.splits)

lemma int_part_fmt_nat:
  assumes "stop rest"
  shows "int_part (fmt_nat n @ rest) = Some (fmt_nat n, rest)"
proof (cases "n = 0")
  case True
  then have "fmt_nat n = ''0''" using char_of_48 [of 0] by (simp add: fmt_nat.simps)
  then show ?thesis by (simp add: int_part_def)
next
  case False
  obtain c cs where c: "fmt_nat n = c # cs" by (cases "fmt_nat n") simp_all
  have d: "is_digit x" if "x \<in> set (fmt_nat n)" for x
    using fmt_nat_digits [of n] that by (simp add: list_all_iff)
  have "c \<noteq> CHR ''0''" "is_digit c"
    using fmt_nat_no_leading_zero [of n] False c d [of c] by simp_all
  then have "int_part (fmt_nat n @ rest) =
      Some (takeWhile is_digit (fmt_nat n @ rest), dropWhile is_digit (fmt_nat n @ rest))"
    by (simp add: int_part_def c)
  then show ?thesis
    using d stop_digits [OF assms] by (simp add: takeWhile_append2 dropWhile_append2)
qed

lemma parse_number_fmt_d:
  assumes "stop rest"
  shows "parse_number (fmt_d i @ rest) = Some (fmt_d i, rest)"
proof (cases "i < 0")
  case True
  then show ?thesis
    using int_part_fmt_nat [OF assms] stop_digits [OF assms] by (simp add: parse_number_def fmt_d_def)
next
  case False
  obtain c cs where c: "fmt_nat (nat i) = c # cs" by (cases "fmt_nat (nat i)") simp_all
  then have "c \<noteq> CHR ''-''" using fmt_nat_Cons_digit [OF c] by auto
  then show ?thesis
    using False c int_part_fmt_nat [OF assms, of "nat i"] stop_digits [OF assms]
    by (simp add: parse_number_def fmt_d_def)
qed


definition parses :: "json \<Rightarrow> bool" where
  "parses v \<longleftrightarrow> (\<forall>f rest. length (print_json v) < f \<longrightarrow> stop rest \<longrightarrow>
     parse_value f (print_json v @ rest) = Some (v, rest))"

lemma unescape_quote:
  "valid_utf8 s \<Longrightarrow> length (escape s) < f \<Longrightarrow> unescape f (escape s @ dquote # rest) = Some (s, rest)"
  using escape_length [of s] by (intro unescape_escape) simp_all

definition members_text :: "(string \<times> json) list \<Rightarrow> string" where
  "members_text ms = join '','' (map (\<lambda>(k, v). quote k @ CHR '':'' # print_json v) ms)"

lemma parse_members_text:
  assumes "ms \<noteq> []" and "\<forall>(k, v) \<in> set ms. valid_utf8 k \<and> parses v"
    and "length (members_text ms) < f"
  shows "parse_members f (members_text ms @ CHR ''}'' # rest) = Some (ms, rest)"
  using assms
proof (induction ms arbitrary: f)
  case (Cons m ms)
  note prems = Cons.prems and IH = Cons.IH
  obtain k v where m: "m = (k, v)" by fastforce
  obtain g where f: "f = Suc g" using prems(3) by (cases f) auto
  have kv: "valid_utf8 k" "parses v" using prems(2) m by auto
  show ?case
  proof (cases ms)
    case Nil
    have "parse_value g (print_json v @ CHR ''}'' # rest) = Some (v, CHR ''}'' # rest)"
      using kv(2) prems(3) by (simp add: parses_def stop_def m Nil f members_text_def quote_def)
    then show ?thesis
      using unescape_quote [OF kv(1)] by (simp add: f m Nil members_text_def quote_def)
  next
    case (Cons m' ms')
    let ?more = "CHR '','' # members_text ms @ CHR ''}'' # rest"
    have mt: "members_text (m # ms) = quote k @ CHR '':'' # print_json v @ CHR '','' # members_text ms"
      by (simp add: members_text_def m Cons)
    have "parse_value g (print_json v @ ?more) = Some (v, ?more)"
      using kv(2) prems(3) mt by (simp add: parses_def stop_def f quote_def)
    moreover have "parse_members g (members_text ms @ CHR ''}'' # rest) = Some (ms, rest)"
      using IH [of g] prems Cons mt f by (simp add: quote_def)
    ultimately show ?thesis
      using unescape_quote [OF kv(1)] unfolding mt by (simp add: f m quote_def)
  qed
qed simp


definition elems_text :: "json list \<Rightarrow> string" where
  "elems_text vs = join '','' (map print_json vs)"

lemma parse_elems_text:
  assumes "vs \<noteq> []" and "\<forall>v \<in> set vs. parses v" and "length (elems_text vs) + 1 < f"
  shows "parse_elems f (elems_text vs @ CHR '']'' # rest) = Some (vs, rest)"
  using assms
proof (induction vs arbitrary: f)
  case (Cons v vs)
  note prems = Cons.prems and IH = Cons.IH
  obtain g where f: "f = Suc g" using prems(3) by (cases f) auto
  have v: "parses v" using prems(2) by auto
  show ?case
  proof (cases vs)
    case Nil
    have "parse_value g (print_json v @ CHR '']'' # rest) = Some (v, CHR '']'' # rest)"
      using v prems(3) by (simp add: parses_def stop_def Nil f elems_text_def)
    then show ?thesis by (simp add: f Nil elems_text_def)
  next
    case (Cons v' vs')
    let ?more = "CHR '','' # elems_text vs @ CHR '']'' # rest"
    have et: "elems_text (v # vs) = print_json v @ CHR '','' # elems_text vs"
      by (simp add: elems_text_def Cons)
    have "parse_value g (print_json v @ ?more) = Some (v, ?more)"
      using v prems(3) et by (simp add: parses_def stop_def f)
    moreover have "parse_elems g (elems_text vs @ CHR '']'' # rest) = Some (vs, rest)"
      using IH [of g] prems Cons et f by simp
    ultimately show ?thesis unfolding et by (simp add: f)
  qed
qed simp

text \<open>
  The documents of the program: strings of valid UTF-8 and integer numbers.
\<close>

fun good_json :: "json \<Rightarrow> bool" where
  "good_json JNull = True"
| "good_json (JBool b) = True"
| "good_json (JNum l) = (\<exists>i. l = fmt_d i)"
| "good_json (JStr s) = valid_utf8 s"
| "good_json (JArr vs) = (\<forall>v \<in> set vs. good_json v)"
| "good_json (JObj ms) = (\<forall>(k, v) \<in> set ms. valid_utf8 k \<and> good_json v)"

lemma first_char:
  assumes "good_json v"
  shows "\<exists>c cs. print_json v = c # cs \<and>
           (c = dquote \<or> c \<in> set ''{[ntf'' \<or> is_digit c \<or> c = CHR ''-'')"
proof (cases v)
  case (JNum l)
  then obtain i where "l = fmt_d i" using assms by auto
  then show ?thesis
    using JNum fmt_d_chars [of _ i] by (cases "fmt_d i") auto
qed (auto simp: quote_def)

lemma elems_text_Cons:
  assumes "vs \<noteq> []" and "\<forall>v \<in> set vs. good_json v"
  shows "\<exists>c cs. elems_text vs = c # cs \<and> skip_ws (elems_text vs @ t) = elems_text vs @ t \<and> c \<noteq> CHR '']''"
proof -
  obtain v ws where vs: "vs = v # ws" using assms(1) by (cases vs) auto
  obtain c cs where c: "print_json v = c # cs"
      "c = dquote \<or> c \<in> set ''{[ntf'' \<or> is_digit c \<or> c = CHR ''-''"
    using first_char [of v] assms(2) vs by auto
  have "\<exists>ds. elems_text vs = c # ds"
    using c by (cases ws) (auto simp: vs elems_text_def)
  then obtain ds where ds: "elems_text vs = c # ds" ..
  have "skip_ws (c # x) = c # x" for x using c(2) by auto
  moreover have "c \<noteq> CHR '']''" using c(2) by (auto simp: dquote_def is_digit_def)
  ultimately show ?thesis using ds by simp
qed

lemma members_text_Cons:
  assumes "ms \<noteq> []"
  shows "\<exists>cs. members_text ms = dquote # cs"
  using assms by (cases ms rule: list_cases4) (auto simp: members_text_def quote_def)

lemma parses_number: "parses (JNum (fmt_d i))"
  unfolding parses_def
proof (intro allI impI)
  fix f :: nat and rest assume "length (print_json (JNum (fmt_d i))) < f" and st: "stop rest"
  then obtain g where f: "f = Suc g" by (cases f) auto
  obtain c cs where c: "fmt_d i = c # cs" by (cases "fmt_d i") simp_all
  then have d: "is_digit c \<or> c = CHR ''-''" using fmt_d_chars [of c i] by simp
  then have "c \<noteq> dquote" "c \<notin> set ''{[ntf''" by (auto simp: dquote_def is_digit_def)
  then show "parse_value f (print_json (JNum (fmt_d i)) @ rest) = Some (JNum (fmt_d i), rest)"
    using parse_number_fmt_d [OF st, of i] c d by (simp add: f)
qed

lemma parses_string: "valid_utf8 s \<Longrightarrow> parses (JStr s)"
  unfolding parses_def
proof (intro allI impI)
  fix f :: nat and rest
  assume s: "valid_utf8 s" and "length (print_json (JStr s)) < f"
  then obtain g where f: "f = Suc g" by (cases f) auto
  show "parse_value f (print_json (JStr s) @ rest) = Some (JStr s, rest)"
    using unescape_quote [OF s] by (simp add: f quote_def)
qed

text \<open>An object ends with its brace, so it does not matter what follows it.\<close>

lemma parse_object_text:
  assumes "\<forall>(k, v) \<in> set ms. valid_utf8 k \<and> parses v" and "length (print_json (JObj ms)) < f"
  shows "parse_value f (print_json (JObj ms) @ rest) = Some (JObj ms, rest)"
proof -
  obtain g where f: "f = Suc g" using assms(2) by (cases f) auto
  have pr: "print_json (JObj ms) = CHR ''{'' # members_text ms @ ''}''"
    by (simp add: members_text_def)
  show ?thesis
  proof (cases "ms = []")
    case True
    then show ?thesis by (simp add: f dquote_def)
  next
    case False
    have "parse_members g (members_text ms @ CHR ''}'' # rest) = Some (ms, rest)"
      using False assms pr f by (intro parse_members_text) auto
    then show ?thesis
      using members_text_Cons [OF False] unfolding pr by (auto simp: f dquote_neq)
  qed
qed

lemma parses_good: "good_json v \<Longrightarrow> parses v"
proof (induction v)
  case (JNum l)
  then show ?case using parses_number by auto
next
  case (JStr s)
  then show ?case by (simp add: parses_string)
next
  case (JArr vs)
  show ?case
    unfolding parses_def
  proof (intro allI impI)
    fix f :: nat and rest assume len: "length (print_json (JArr vs)) < f"
    then obtain g where f: "f = Suc g" by (cases f) auto
    have pr: "print_json (JArr vs) = CHR ''['' # elems_text vs @ '']''"
      by (simp add: elems_text_def)
    show "parse_value f (print_json (JArr vs) @ rest) = Some (JArr vs, rest)"
    proof (cases "vs = []")
      case True
      then show ?thesis by (simp add: f dquote_def)
    next
      case False
      have "parse_elems g (elems_text vs @ CHR '']'' # rest) = Some (vs, rest)"
        using False JArr len pr f by (intro parse_elems_text) auto
      then show ?thesis
        using elems_text_Cons [OF False, of "CHR '']'' # rest"] JArr.prems
        unfolding pr by (auto simp: f dquote_def)
    qed
  qed
next
  case (JObj ms)
  have "\<forall>(k, v) \<in> set ms. valid_utf8 k \<and> parses v"
    using JObj.prems JObj.IH by (fastforce simp: snds.simps)
  then show ?case
    using parse_object_text [of ms] by (simp only: parses_def [of "JObj ms"]) blast
qed (auto simp: parses_def literal_def dquote_def elim!: less_natE)


lemma json_parse_print:
  assumes "good_json v"
  shows "json_parse (print_json v) = Some v"
  using parses_good [OF assms] unfolding parses_def json_parse_def
  by (metis (mono_tags, lifting) append_Nil2 case_prod_conv lessI list.simps(4) option.simps(5)
      skip_ws_def dropWhile.simps(1) stop_def)


section \<open>Base64\<close>

definition b64_char :: "nat \<Rightarrow> char" where
  "b64_char n =
     (if n < 26 then char_of (65 + n)
      else if n < 52 then char_of (71 + n)
      else if n < 62 then char_of (n - 4)
      else if n = 62 then CHR ''+'' else CHR ''/'')"

definition b64_val :: "char \<Rightarrow> nat option" where
  "b64_val c =
     (let b = byte c in
      if 65 \<le> b \<and> b \<le> 90 then Some (b - 65)
      else if 97 \<le> b \<and> b \<le> 122 then Some (b - 71)
      else if 48 \<le> b \<and> b \<le> 57 then Some (b + 4)
      else if b = 43 then Some 62 else if b = 47 then Some 63 else None)"

fun b64_encode :: "string \<Rightarrow> string" where
  "b64_encode [] = []"
| "b64_encode [a] =
     [b64_char (byte a div 4), b64_char (byte a mod 4 * 16), CHR ''='', CHR ''='']"
| "b64_encode [a, b] =
     [b64_char (byte a div 4), b64_char (byte a mod 4 * 16 + byte b div 16),
      b64_char (byte b mod 16 * 4), CHR ''='']"
| "b64_encode (a # b # c # cs) =
     [b64_char (byte a div 4), b64_char (byte a mod 4 * 16 + byte b div 16),
      b64_char (byte b mod 16 * 4 + byte c div 64), b64_char (byte c mod 64)] @ b64_encode cs"

text \<open>
  \<open>base64.StdEncoding\<close>: line breaks are skipped, padding is required, and the unused bits
  of the last group are ignored.
\<close>

fun b64_groups :: "string \<Rightarrow> string option" where
  "b64_groups [] = Some []"
| "b64_groups (p # q # r # t # cs) =
     (case (b64_val p, b64_val q) of
        (Some a, Some b) \<Rightarrow>
          if r = CHR ''='' then
            (if t = CHR ''='' \<and> cs = [] then Some [char_of (a * 4 + b div 16)] else None)
          else
            (case b64_val r of
               None \<Rightarrow> None
             | Some c \<Rightarrow>
                 if t = CHR ''='' then
                   (if cs = [] then Some [char_of (a * 4 + b div 16), char_of (b mod 16 * 16 + c div 4)]
                    else None)
                 else
                   (case b64_val t of
                      None \<Rightarrow> None
                    | Some d \<Rightarrow>
                        map_option
                          (\<lambda>u. char_of (a * 4 + b div 16) # char_of (b mod 16 * 16 + c div 4)
                               # char_of (c mod 4 * 64 + d) # u) (b64_groups cs)))
      | _ \<Rightarrow> None)"
| "b64_groups _ = None"

definition b64_decode :: "string \<Rightarrow> string option" where
  "b64_decode s = b64_groups (filter (\<lambda>c. byte c \<noteq> 10 \<and> byte c \<noteq> 13) s)"

lemma b64_val_char: "n < 64 \<Longrightarrow> b64_val (b64_char n) = Some n"
  by (auto simp: b64_val_def b64_char_def Let_def)

lemma b64_char_plain:
  assumes "n < 64"
  shows "b64_char n \<noteq> CHR ''=''" "byte (b64_char n) \<noteq> 10" "byte (b64_char n) \<noteq> 13"
    "byte (b64_char n) < 128"
proof -
  have "b64_val (b64_char n) \<noteq> None" using b64_val_char [OF assms] by simp
  then show "b64_char n \<noteq> CHR ''=''" "byte (b64_char n) \<noteq> 10" "byte (b64_char n) \<noteq> 13"
    "byte (b64_char n) < 128"
    by (auto simp: b64_val_def Let_def split: if_splits)
qed

lemma byte_bounds [simp]:
  "byte c div 4 < 64" "byte c mod 4 * 16 < 64" "byte a mod 4 * 16 + byte c div 16 < 64"
  "byte c mod 16 * 4 < 64" "byte a mod 16 * 4 + byte c div 64 < 64" "byte c mod 64 < 64"
proof -
  have c: "byte c < 256" by (simp add: of_char_def)
  show "byte c div 4 < 64" using c by linarith
  have "byte c div 16 < 16" "byte c div 64 < 4" using c by linarith+
  moreover have "x mod 4 \<le> 3" "x mod 16 \<le> 15" for x :: nat by linarith+
  ultimately show "byte c mod 4 * 16 < 64" "byte a mod 4 * 16 + byte c div 16 < 64"
    "byte c mod 16 * 4 < 64" "byte a mod 16 * 4 + byte c div 64 < 64" "byte c mod 64 < 64"
    by (simp_all add: le_imp_less_Suc)
qed


lemma byte_div_small: "byte c div 16 < 16" "byte c div 64 < 4"
  using byte_bounds(1) [of c] by linarith+

lemma b64_rejoin:
  "n < 16 \<Longrightarrow> byte a div 4 * 4 + (byte a mod 4 * 16 + n) div 16 = byte a"
  "m < 4 \<Longrightarrow>
     (byte a mod 4 * 16 + byte b div 16) mod 16 * 16 + (byte b mod 16 * 4 + m) div 4 = byte b"
  "(byte b mod 16 * 4 + byte c div 64) mod 4 * 64 + byte c mod 64 = byte c"
  using byte_div_small(1) [of b] byte_div_small(2) [of c] by simp_all

lemma b64_groups_encode: "b64_groups (b64_encode s) = Some s"
proof (induction s rule: b64_encode.induct)
  case (2 a)
  then show ?case
    using b64_rejoin(1) [of 0 a] by (simp add: b64_val_char)
next
  case (3 a b)
  then show ?case
    using b64_rejoin(1) [of "byte b div 16" a] b64_rejoin(2) [of 0 a b] byte_div_small [of b]
    by (simp add: b64_val_char b64_char_plain del: mult_div_mod_eq)
next
  case (4 a b c cs)
  then show ?case
    using b64_rejoin(1) [of "byte b div 16" a] b64_rejoin(2) [of "byte c div 64" a b]
      b64_rejoin(3) [of b c] byte_div_small [of b] byte_div_small [of c]
    by (simp add: b64_val_char b64_char_plain)
qed simp

lemma b64_encode_plain: "c \<in> set (b64_encode s) \<Longrightarrow> byte c \<noteq> 10 \<and> byte c \<noteq> 13 \<and> byte c < 128"
  by (induction s rule: b64_encode.induct) (auto simp: b64_char_plain)

lemma b64_decode_encode: "b64_decode (b64_encode s) = Some s"
proof -
  have "filter (\<lambda>c. byte c \<noteq> 10 \<and> byte c \<noteq> 13) (b64_encode s) = b64_encode s"
    using b64_encode_plain by (auto simp: filter_id_conv)
  then show ?thesis by (simp add: b64_decode_def b64_groups_encode)
qed

lemma valid_utf8_ascii: "\<forall>c \<in> set s. byte c < 128 \<Longrightarrow> valid_utf8 s"
  by (induction s) (simp_all add: valid_utf8.simps)



section \<open>Decoding into struct fields\<close>

text \<open>
  A key matches a field name exactly or up to case folding; \<open>U+017F\<close> folds to \<open>s\<close> and
  \<open>U+212A\<close> to \<open>k\<close>.
\<close>

fun fold_name :: "string \<Rightarrow> string" where
  "fold_name [] = []"
| "fold_name (c # cs) =
     (if 65 \<le> byte c \<and> byte c \<le> 90 then char_of (byte c + 32) # fold_name cs
      else if take 2 (c # cs) = utf8_encode 383 then CHR ''s'' # fold_name (drop 1 cs)
      else if take 3 (c # cs) = utf8_encode 8490 then CHR ''k'' # fold_name (drop 2 cs)
      else c # fold_name cs)"

lemma fold_name_lower:
  "\<forall>c \<in> set s. byte c < 128 \<and> \<not> (65 \<le> byte c \<and> byte c \<le> 90) \<Longrightarrow> fold_name s = s"
proof (induction s)
  case (Cons c cs)
  have "take 2 (c # cs) \<noteq> utf8_encode 383" "take 3 (c # cs) \<noteq> utf8_encode 8490"
    using Cons.prems by (auto simp: utf8_encode_def)
  moreover have "\<not> (65 \<le> byte c \<and> byte c \<le> 90)" using Cons.prems by simp
  moreover have "fold_name cs = cs" using Cons by simp
  ultimately show ?case by (simp only: fold_name.simps if_False simp_thms)
qed simp

text \<open>
  Decoding one value over the present contents of a field: \<open>null\<close> leaves an integer or a
  string alone and clears a byte slice, a value of the wrong kind is an error (\<open>None\<close>).
\<close>

definition dec_int64 :: "json \<Rightarrow> int64 \<Rightarrow> int64 option" where
  "dec_int64 v old =
     (case v of
        JNull \<Rightarrow> Some old
      | JNum l \<Rightarrow> map_option word_of_int (ParseInt64 l)
      | _ \<Rightarrow> None)"

definition dec_string :: "json \<Rightarrow> string \<Rightarrow> string option" where
  "dec_string v old = (case v of JNull \<Rightarrow> Some old | JStr s \<Rightarrow> Some s | _ \<Rightarrow> None)"

definition dec_uint8 :: "json \<Rightarrow> char option" where
  "dec_uint8 v =
     (case v of
        JNull \<Rightarrow> Some (char_of (0::nat))
      | JNum l \<Rightarrow>
          (case parse_digits l of
             Some n \<Rightarrow> if n < 256 then Some (char_of n) else None
           | None \<Rightarrow> None)
      | _ \<Rightarrow> None)"

fun dec_uint8s :: "json list \<Rightarrow> string option" where
  "dec_uint8s [] = Some []"
| "dec_uint8s (v # vs) =
     (case dec_uint8 v of None \<Rightarrow> None | Some c \<Rightarrow> map_option ((#) c) (dec_uint8s vs))"

definition dec_bytes :: "json \<Rightarrow> string option option" where
  "dec_bytes v =
     (case v of
        JNull \<Rightarrow> Some None
      | JStr s \<Rightarrow> map_option Some (b64_decode s)
      | JArr vs \<Rightarrow> map_option Some (dec_uint8s vs)
      | _ \<Rightarrow> None)"

definition enc_int64 :: "int64 \<Rightarrow> json" where
  "enc_int64 w = JNum (fmt_d (sint w))"

definition enc_bytes :: "string option \<Rightarrow> json" where
  "enc_bytes m = (case m of None \<Rightarrow> JNull | Some b \<Rightarrow> JStr (b64_encode b))"

lemma dec_enc_int64 [simp]: "dec_int64 (enc_int64 w) old = Some w"
  using sint64_bounds [of w] by (simp add: dec_int64_def enc_int64_def ParseInt64_fmt_d)

lemma dec_enc_bytes [simp]: "dec_bytes (enc_bytes m) = Some m"
  by (simp add: dec_bytes_def enc_bytes_def b64_decode_encode split: option.splits)

lemma good_enc [simp]: "good_json (enc_int64 w)" "good_json (enc_bytes m)"
  using b64_encode_plain
  by (auto simp: enc_int64_def enc_bytes_def intro: valid_utf8_ascii split: option.splits)

end
