(* ===== verification/Persistence.thy ===== *)
theory Persistence
  imports Go_Json "HOL-Library.AList"
begin

text \<open>
  The write-ahead log of \<open>src/internal/queue/persistence.go\<close> and the error values of
  \<open>src/internal/queue/errors.go\<close>.

  The embedded database (bbolt) is a parameter: a record of the operations the code calls on
  it. What the code relies on is the predicate \<open>bolt_ok\<close>, which states bbolt's documented
  behaviour. Channels are lists with a flag for \<open>close\<close>; the result channels that
  \<open>EnqueueAsync\<close> allocates live in a store, so that the writer goroutine and the caller
  share them. A Go run-time panic (a send on a closed channel, a second \<open>close\<close>) is the
  value \<open>None\<close> of a step.
\<close>


section \<open>Errors\<close>

definition ErrQueueStopped :: go_error where "ErrQueueStopped = New ''queue is stopped''"
definition ErrQueueFull :: go_error where "ErrQueueFull = New ''queue full''"
definition ErrQueueChannelFull :: go_error where
  "ErrQueueChannelFull = New ''queue channel full''"
definition ErrPersistenceClosed :: go_error where
  "ErrPersistenceClosed = New ''persistence is closed''"
definition ErrQueueAlreadyStarted :: go_error where
  "ErrQueueAlreadyStarted = New ''queue already started''"
definition ErrQueueAlreadyStopped :: go_error where
  "ErrQueueAlreadyStopped = New ''queue already stopped''"

lemmas queue_errors = ErrQueueStopped_def ErrQueueFull_def ErrQueueChannelFull_def
  ErrPersistenceClosed_def ErrQueueAlreadyStarted_def ErrQueueAlreadyStopped_def


section \<open>Pending events\<close>

record PendingEvent =
  EventID :: int64
  UserID :: int64
  EventType :: string
  Metadata :: "string option"
  EnqueuedAt :: int64

definition zero_event :: PendingEvent where
  "zero_event = \<lparr>EventID = 0, UserID = 0, EventType = [], Metadata = None, EnqueuedAt = 0\<rparr>"

definition marshal_tree :: "PendingEvent \<Rightarrow> json" where
  "marshal_tree e =
     JObj [(''event_id'', enc_int64 (EventID e)), (''user_id'', enc_int64 (UserID e)),
           (''event_type'', JStr (EventType e)), (''metadata'', enc_bytes (Metadata e)),
           (''enqueued_at'', enc_int64 (EnqueuedAt e))]"

text \<open>\<open>json.Marshal(event)\<close>; it cannot fail on this struct.\<close>

definition marshal :: "PendingEvent \<Rightarrow> string" where
  "marshal e = print_json (marshal_tree e)"

text \<open>One member of the document; unknown keys are skipped.\<close>

definition set_field :: "PendingEvent \<Rightarrow> string \<times> json \<Rightarrow> PendingEvent option" where
  "set_field e kv =
     (case kv of (k, v) \<Rightarrow>
        let n = fold_name k in
        if n = ''event_id'' then map_option (\<lambda>x. e\<lparr>EventID := x\<rparr>) (dec_int64 v (EventID e))
        else if n = ''user_id'' then map_option (\<lambda>x. e\<lparr>UserID := x\<rparr>) (dec_int64 v (UserID e))
        else if n = ''event_type'' then map_option (\<lambda>x. e\<lparr>EventType := x\<rparr>) (dec_string v (EventType e))
        else if n = ''metadata'' then map_option (\<lambda>x. e\<lparr>Metadata := x\<rparr>) (dec_bytes v)
        else if n = ''enqueued_at'' then map_option (\<lambda>x. e\<lparr>EnqueuedAt := x\<rparr>) (dec_int64 v (EnqueuedAt e))
        else Some e)"

fun set_fields :: "PendingEvent \<Rightarrow> (string \<times> json) list \<Rightarrow> PendingEvent option" where
  "set_fields e [] = Some e"
| "set_fields e (m # ms) = (case set_field e m of None \<Rightarrow> None | Some e' \<Rightarrow> set_fields e' ms)"

text \<open>\<open>json.Unmarshal(v, &event)\<close> into a fresh variable; \<open>None\<close> is the error return.\<close>

definition unmarshal :: "string \<Rightarrow> PendingEvent option" where
  "unmarshal s =
     (case json_parse s of
        None \<Rightarrow> None
      | Some JNull \<Rightarrow> Some zero_event
      | Some (JObj ms) \<Rightarrow> set_fields zero_event ms
      | Some _ \<Rightarrow> None)"

definition event_key :: "int64 \<Rightarrow> string" where
  "event_key i = fmt_d (sint i)"

lemma event_key_inject [simp]: "event_key i = event_key j \<longleftrightarrow> i = j"
  by (auto simp: event_key_def intro: signed_word_eqI)

lemma good_marshal_tree: "valid_utf8 (EventType e) \<Longrightarrow> good_json (marshal_tree e)"
  by (auto simp: marshal_tree_def intro!: valid_utf8_ascii)

lemma fold_field_names:
  "fold_name ''event_id'' = ''event_id''" "fold_name ''user_id'' = ''user_id''"
  "fold_name ''event_type'' = ''event_type''" "fold_name ''metadata'' = ''metadata''"
  "fold_name ''enqueued_at'' = ''enqueued_at''"
  by (rule fold_name_lower, simp)+

lemma set_fields_marshal:
  "set_fields zero_event
     [(''event_id'', enc_int64 (EventID e)), (''user_id'', enc_int64 (UserID e)),
      (''event_type'', JStr (EventType e)), (''metadata'', enc_bytes (Metadata e)),
      (''enqueued_at'', enc_int64 (EnqueuedAt e))] = Some e"
  by (cases e) (simp add: set_field_def dec_string_def zero_event_def Let_def fold_field_names
      del: fold_name.simps)

lemma unmarshal_marshal:
  assumes "valid_utf8 (EventType e)"
  shows "unmarshal (marshal e) = Some e"
  using json_parse_print [OF good_marshal_tree [OF assms]] set_fields_marshal [of e]
  by (simp add: unmarshal_def marshal_def marshal_tree_def del: set_fields.simps)

section \<open>The embedded database\<close>

text \<open>
  The operations of bbolt that the code calls, over an abstract type of database contents.
  The closure given to \<open>Update\<close> maps the contents to an error or to new contents, the one
  given to \<open>View\<close> to the error it returns.
\<close>

record 'db bolt =
  Update :: "('db \<Rightarrow> go_error + 'db) \<Rightarrow> 'db \<Rightarrow> go_error option \<times> 'db"
  View :: "('db \<Rightarrow> go_error option) \<Rightarrow> 'db \<Rightarrow> go_error option"
  HasBucket :: "string \<Rightarrow> 'db \<Rightarrow> bool"
  CreateBucketIfNotExists :: "string \<Rightarrow> 'db \<Rightarrow> go_error + 'db"
  Put :: "string \<Rightarrow> string \<Rightarrow> string \<Rightarrow> 'db \<Rightarrow> go_error + 'db"
  Delete :: "string \<Rightarrow> string \<Rightarrow> 'db \<Rightarrow> go_error + 'db"
  ForEach :: "string \<Rightarrow> 'db \<Rightarrow> (string \<times> string) list"
  KeyN :: "string \<Rightarrow> 'db \<Rightarrow> int"

text \<open>
  What bbolt documents of them: a transaction whose function returns an error is rolled back,
  one whose function succeeds is committed or reports why not; a bucket is a finite map whose
  keys \<open>ForEach\<close> visits once each; \<open>KeyN\<close> counts them. \<open>Delete\<close> fails in a
  read-only transaction only.
\<close>

definition bolt_ok :: "'db bolt \<Rightarrow> bool" where
  "bolt_ok b \<longleftrightarrow>
     (\<forall>f d e. f d = Inl e \<longrightarrow> Update b f d = (Some e, d)) \<and>
     (\<forall>f d d'. f d = Inr d' \<longrightarrow> Update b f d = (None, d') \<or> (\<exists>e. Update b f d = (Some e, d))) \<and>
     (\<forall>f d e. f d = Some e \<longrightarrow> View b f d = Some e) \<and>
     (\<forall>n d. HasBucket b n d \<longrightarrow>
        distinct (map fst (ForEach b n d)) \<and> KeyN b n d = int (length (ForEach b n d))) \<and>
     (\<forall>n d d'. CreateBucketIfNotExists b n d = Inr d' \<longrightarrow>
        HasBucket b n d' \<and> ForEach b n d' = (if HasBucket b n d then ForEach b n d else [])) \<and>
     (\<forall>n k v d d'. HasBucket b n d \<and> Put b n k v d = Inr d' \<longrightarrow>
        HasBucket b n d' \<and> map_of (ForEach b n d') = (map_of (ForEach b n d))(k \<mapsto> v)) \<and>
     (\<forall>n k d. HasBucket b n d \<longrightarrow> (\<exists>d'. Delete b n k d = Inr d' \<and>
        HasBucket b n d' \<and> map_of (ForEach b n d') = (map_of (ForEach b n d))(k := None)))"


section \<open>The persistence object\<close>

definition bucketName :: string where "bucketName = ''pending_events''"
definition writeBufferSize :: nat where "writeBufferSize = 1000"

text \<open>
  A result channel has room for one value; \<open>ch_got\<close> is what its reader has taken out.
\<close>

record err_chan =
  ch_buf :: "go_error option list"
  ch_got :: "go_error option list"
  ch_closed :: bool

record writeRequest =
  event :: PendingEvent
  errCh :: nat

text \<open>Where the writer goroutine and the one effective \<open>Close\<close> call stand.\<close>

datatype writer =
    W_recv
  | W_check writeRequest
  | W_update writeRequest
  | W_send writeRequest "go_error option"
  | W_exited

datatype closer = C_idle | C_marked | C_waiting | C_closing | C_done

record 'db Persistence =
  bolt :: "'db bolt"
  disk :: 'db
  path :: string
  closed :: bool
  writeCh :: "writeRequest list"
  writeCh_closed :: bool
  writing :: writer
  closing :: closer
  db_closed :: bool
  errChs :: "err_chan list"

text \<open>
  \<open>mkdir\<close> and \<open>open_res\<close> are what \<open>os.MkdirAll\<close> and \<open>bbolt.Open\<close> report.
\<close>

definition NewPersistence ::
  "'db bolt \<Rightarrow> go_error option \<Rightarrow> go_error + 'db \<Rightarrow> string \<Rightarrow> go_error + 'db Persistence" where
  "NewPersistence b mkdir open_res pth =
     (case mkdir of
        Some e \<Rightarrow> Inl (Wrap ''failed to create persistence directory: '' e '''')
      | None \<Rightarrow>
          (case open_res of
             Inl e \<Rightarrow> Inl (Wrap ''failed to open persistence database: '' e '''')
           | Inr d \<Rightarrow>
               (case Update b (CreateBucketIfNotExists b bucketName) d of
                  (Some e, _) \<Rightarrow> Inl (Wrap ''failed to create bucket: '' e '''')
                | (None, d') \<Rightarrow>
                    Inr \<lparr>bolt = b, disk = d', path = pth, closed = False, writeCh = [],
                         writeCh_closed = False, writing = W_recv, closing = C_idle,
                         db_closed = False, errChs = []\<rparr>)))"

text \<open>
  A send of a result and the \<open>close\<close> after it. A send on a closed channel and a second
  \<open>close\<close> panic (\<open>None\<close>); a send on a full channel would block for good, which is
  \<open>None\<close> too.
\<close>

definition answer :: "nat \<Rightarrow> go_error option \<Rightarrow> 'db Persistence \<Rightarrow> 'db Persistence option" where
  "answer c r p =
     (if c < length (errChs p) \<and> \<not> ch_closed (errChs p ! c) \<and> ch_buf (errChs p ! c) = [] then
        Some (p\<lparr>errChs := (errChs p)[c := (errChs p ! c)\<lparr>ch_buf := [r], ch_closed := True\<rparr>]\<rparr>)
      else None)"

definition is_closed_error :: go_error where
  "is_closed_error = Errorf ''persistence is closed''"

definition put_event :: "'db bolt \<Rightarrow> PendingEvent \<Rightarrow> 'db \<Rightarrow> go_error + 'db" where
  "put_event b e d =
     (if \<not> HasBucket b bucketName d then Inl (Errorf ''bucket not found'')
      else Put b bucketName (event_key (EventID e)) (marshal e) d)"

definition write_event :: "PendingEvent \<Rightarrow> 'db Persistence \<Rightarrow> go_error option \<times> 'db Persistence" where
  "write_event e p =
     (case Update (bolt p) (put_event (bolt p) e) (disk p) of (err, d) \<Rightarrow> (err, p\<lparr>disk := d\<rparr>))"

text \<open>
  One step of the writer goroutine. It waits on an empty open channel (the state does not
  change) and ends on an empty closed one.
\<close>

definition writeLoop :: "'db Persistence \<Rightarrow> 'db Persistence option" where
  "writeLoop p =
     (case writing p of
        W_recv \<Rightarrow>
          (case writeCh p of
             req # rest \<Rightarrow> Some (p\<lparr>writeCh := rest, writing := W_check req\<rparr>)
           | [] \<Rightarrow> if writeCh_closed p then Some (p\<lparr>writing := W_exited\<rparr>) else Some p)
      | W_check req \<Rightarrow>
          if closed p then Some (p\<lparr>writing := W_send req (Some is_closed_error)\<rparr>)
          else Some (p\<lparr>writing := W_update req\<rparr>)
      | W_update req \<Rightarrow>
          (case write_event (event req) p of (err, q) \<Rightarrow> Some (q\<lparr>writing := W_send req err\<rparr>))
      | W_send req err \<Rightarrow> answer (errCh req) err (p\<lparr>writing := W_recv\<rparr>)
      | W_exited \<Rightarrow> Some p)"

definition new_chan :: err_chan where
  "new_chan = \<lparr>ch_buf = [], ch_got = [], ch_closed = False\<rparr>"

definition EnqueueAsync ::
  "PendingEvent \<Rightarrow> 'db Persistence \<Rightarrow> ('db Persistence \<times> nat) option" where
  "EnqueueAsync ev p =
     (let c = length (errChs p); p1 = p\<lparr>errChs := errChs p @ [new_chan]\<rparr> in
      if closed p then map_option (\<lambda>q. (q, c)) (answer c (Some is_closed_error) p1)
      else if writeCh_closed p then None
      else if length (writeCh p) < writeBufferSize
      then Some (p1\<lparr>writeCh := writeCh p @ [\<lparr>event = ev, errCh = c\<rparr>]\<rparr>, c)
      else map_option (\<lambda>q. (q, c)) (answer c (Some (Errorf ''persistence write buffer full'')) p1))"

text \<open>
  \<open><-errCh\<close>: the value and the new state, or \<open>None\<close> while the reader waits. An empty
  closed channel yields the zero value \<open>nil\<close>.
\<close>

definition receive :: "nat \<Rightarrow> 'db Persistence \<Rightarrow> (go_error option \<times> 'db Persistence) option" where
  "receive c p =
     (if c < length (errChs p) then
        (case ch_buf (errChs p ! c) of
           r # rs \<Rightarrow> Some (r, p\<lparr>errChs := (errChs p)[c := (errChs p ! c)
                          \<lparr>ch_buf := rs, ch_got := ch_got (errChs p ! c) @ [r]\<rparr>]\<rparr>)
         | [] \<Rightarrow> if ch_closed (errChs p ! c) then Some (None, p) else None)
      else None)"

fun writer_steps :: "nat \<Rightarrow> 'db Persistence \<Rightarrow> 'db Persistence option" where
  "writer_steps 0 p = Some p"
| "writer_steps (Suc n) p = (case writeLoop p of None \<Rightarrow> None | Some q \<Rightarrow> writer_steps n q)"

text \<open>
  The synchronous \<open>Enqueue\<close>, with \<open>n\<close> the number of steps the writer makes before the
  caller looks at the channel; \<open>None\<close>: the caller still waits.
\<close>

definition Enqueue ::
  "nat \<Rightarrow> PendingEvent \<Rightarrow> 'db Persistence \<Rightarrow> (go_error option \<times> 'db Persistence) option" where
  "Enqueue n ev p =
     (case EnqueueAsync ev p of
        None \<Rightarrow> None
      | Some (q, c) \<Rightarrow> (case writer_steps n q of None \<Rightarrow> None | Some q' \<Rightarrow> receive c q'))"

definition no_bucket :: "'db bolt \<Rightarrow> 'db \<Rightarrow> go_error option" where
  "no_bucket b d = (if HasBucket b bucketName d then None else Some (Errorf ''bucket not found''))"

text \<open>An entry that does not decode is logged and skipped.\<close>

definition Recover :: "'db Persistence \<Rightarrow> go_error + PendingEvent list" where
  "Recover p =
     (if closed p then Inl is_closed_error
      else case View (bolt p) (no_bucket (bolt p)) (disk p) of
        Some e \<Rightarrow> Inl (Wrap ''failed to recover events: '' e '''')
      | None \<Rightarrow> Inr (List.map_filter (\<lambda>(k, v). unmarshal v) (ForEach (bolt p) bucketName (disk p))))"

text \<open>The loop of \<open>Remove\<close>: a key that cannot be deleted is logged and skipped.\<close>

fun delete_all :: "'db bolt \<Rightarrow> int64 list \<Rightarrow> 'db \<Rightarrow> 'db" where
  "delete_all b [] d = d"
| "delete_all b (i # is) d =
     (case Delete b bucketName (event_key i) d of
        Inl _ \<Rightarrow> delete_all b is d
      | Inr d' \<Rightarrow> delete_all b is d')"

definition Remove :: "int64 list \<Rightarrow> 'db Persistence \<Rightarrow> go_error option \<times> 'db Persistence" where
  "Remove ids p =
     (if closed p then (Some is_closed_error, p)
      else if ids = [] then (None, p)
      else case Update (bolt p)
             (\<lambda>d. if HasBucket (bolt p) bucketName d then Inr (delete_all (bolt p) ids d)
                  else Inl (Errorf ''bucket not found'')) (disk p) of
        (Some e, d) \<Rightarrow> (Some (Wrap ''failed to remove events: '' e ''''), p\<lparr>disk := d\<rparr>)
      | (None, d) \<Rightarrow> (None, p\<lparr>disk := d\<rparr>))"

definition Count :: "'db Persistence \<Rightarrow> go_error + int" where
  "Count p =
     (if closed p then Inl is_closed_error
      else case View (bolt p) (no_bucket (bolt p)) (disk p) of
        Some e \<Rightarrow> Inl (Wrap ''failed to count events: '' e '''')
      | None \<Rightarrow> Inr (KeyN (bolt p) bucketName (disk p)))"

text \<open>
  \<open>Close\<close>: the part under the lock, which lets one caller through, and the steps that this
  caller makes after it: closing the channel, waiting for the writer, closing the database.
\<close>

definition Close :: "'db Persistence \<Rightarrow> 'db Persistence" where
  "Close p = (if closed p then p else p\<lparr>closed := True, closing := C_marked\<rparr>)"

definition closer_step :: "'db Persistence \<Rightarrow> 'db Persistence option" where
  "closer_step p =
     (case closing p of
        C_idle \<Rightarrow> Some p
      | C_marked \<Rightarrow>
          if writeCh_closed p then None
          else Some (p\<lparr>writeCh_closed := True, closing := C_waiting\<rparr>)
      | C_waiting \<Rightarrow> Some (if writing p = W_exited then p\<lparr>closing := C_closing\<rparr> else p)
      | C_closing \<Rightarrow> Some (p\<lparr>db_closed := True, closing := C_done\<rparr>)
      | C_done \<Rightarrow> Some p)"

text \<open>The value that the effective call returns, from what \<open>db.Close\<close> reports.\<close>

definition Close_result :: "go_error option \<Rightarrow> go_error option" where
  "Close_result db_close = map_option (\<lambda>e. Wrap ''failed to close persistence: '' e '''') db_close"

record PersistenceStats =
  Path :: string
  PendingCount :: int
  DatabaseSize :: int

text \<open>\<open>stat\<close> is what \<open>os.Stat\<close> reports on the path.\<close>

definition GetStats :: "go_error + int \<Rightarrow> 'db Persistence \<Rightarrow> go_error + PersistenceStats" where
  "GetStats stat p =
     (if closed p then Inl is_closed_error
      else case Count p of
        Inl e \<Rightarrow> Inl e
      | Inr n \<Rightarrow>
          (case stat of
             Inl e \<Rightarrow> Inl (Wrap ''failed to stat database file: '' e '''')
           | Inr sz \<Rightarrow> Inr \<lparr>Path = path p, PendingCount = n, DatabaseSize = sz\<rparr>))"

section \<open>The log as a map from identifiers to events\<close>

text \<open>
  The contract of a durable log: a write or a removal that reports no error has taken effect,
  one that reports an error has not, and recovery yields what is there, once each.
\<close>

datatype wal_op = Wrote PendingEvent | Removed "int64 list"

fun apply_op :: "(int64 \<rightharpoonup> PendingEvent) \<Rightarrow> wal_op \<Rightarrow> (int64 \<rightharpoonup> PendingEvent)" where
  "apply_op m (Wrote e) = m(EventID e \<mapsto> e)"
| "apply_op m (Removed ids) = m |` (- set ids)"

locale durable_log =
  fixes contents :: "'p \<Rightarrow> int64 \<rightharpoonup> PendingEvent"
    and put :: "PendingEvent \<Rightarrow> 'p \<Rightarrow> go_error option \<times> 'p"
    and remove :: "int64 list \<Rightarrow> 'p \<Rightarrow> go_error option \<times> 'p"
    and recover :: "'p \<Rightarrow> go_error + PendingEvent list"
    and count :: "'p \<Rightarrow> go_error + int"
    and ok :: "'p \<Rightarrow> bool"
    and good :: "PendingEvent \<Rightarrow> bool"
  assumes write_law: "ok p \<Longrightarrow> good e \<Longrightarrow> put e p = (r, p') \<Longrightarrow>
      ok p' \<and> contents p' = (if r = None then apply_op (contents p) (Wrote e) else contents p)"
    and remove_law: "ok p \<Longrightarrow> remove ids p = (r, p') \<Longrightarrow>
      ok p' \<and> contents p' = (if r = None then apply_op (contents p) (Removed ids) else contents p)"
    and recover_law: "ok p \<Longrightarrow> recover p = Inr es \<Longrightarrow>
      distinct (map EventID es) \<and> (\<forall>e. e \<in> set es \<longleftrightarrow> contents p (EventID e) = Some e)"
    and count_law: "ok p \<Longrightarrow> count p = Inr n \<Longrightarrow> recover p = Inr es \<Longrightarrow> n = int (length es)"
    and keyed: "ok p \<Longrightarrow> contents p i = Some e \<Longrightarrow> EventID e = i"
begin

lemma write_recover:
  assumes "ok p" and "good e" and "put e p = (None, p')" and "recover p' = Inr es"
  shows "e \<in> set es" and "e' \<in> set es \<Longrightarrow> e' \<noteq> e \<Longrightarrow> contents p (EventID e') = Some e'"
  using write_law [OF assms(1-3)] recover_law [of p' es] assms(4) by (auto split: if_splits)

lemma remove_recover:
  assumes "ok p" and "remove ids p = (None, p')" and "recover p' = Inr es"
  shows "e \<in> set es \<longleftrightarrow> EventID e \<notin> set ids \<and> contents p (EventID e) = Some e"
  using remove_law [OF assms(1,2)] recover_law [of p' es] assms(3)
  by (auto simp: restrict_map_def split: if_splits)

lemma recover_ran:
  assumes "ok p" and "recover p = Inr es"
  shows "set es = ran (contents p)"
  using recover_law [OF assms] keyed [OF assms(1)] by (auto simp: ran_def)

lemma count_card:
  assumes "ok p" and "recover p = Inr es" and "count p = Inr n"
  shows "n = int (card (dom (contents p)))"
proof -
  have "EventID ` set es = dom (contents p)"
  proof (intro set_eqI iffI)
    fix i assume "i \<in> EventID ` set es"
    then show "i \<in> dom (contents p)" using recover_law [OF assms(1,2)] by auto
  next
    fix i assume "i \<in> dom (contents p)"
    then obtain e where "contents p i = Some e" by blast
    then show "i \<in> EventID ` set es"
      using recover_law [OF assms(1,2)] keyed [OF assms(1)] by (metis imageI)
  qed
  moreover have "card (EventID ` set es) = length es"
    using recover_law [OF assms(1,2)] distinct_card [of "map EventID es"] by simp
  ultimately show ?thesis using count_law [OF assms(1,3,2)] by simp
qed

end

text \<open>The bucket of the persistence object and what its entries stand for.\<close>

abbreviation entries :: "'db Persistence \<Rightarrow> (string \<times> string) list" where
  "entries p \<equiv> ForEach (bolt p) bucketName (disk p)"

definition contents :: "'db Persistence \<Rightarrow> int64 \<rightharpoonup> PendingEvent" where
  "contents p i = Option.bind (map_of (entries p) (event_key i)) unmarshal"

definition decodes :: "string \<times> string \<Rightarrow> bool" where
  "decodes kv = (case unmarshal (snd kv) of None \<Rightarrow> False | Some e \<Rightarrow> fst kv = event_key (EventID e))"

definition wal_ok :: "'db Persistence \<Rightarrow> bool" where
  "wal_ok p \<longleftrightarrow> bolt_ok (bolt p) \<and> HasBucket (bolt p) bucketName (disk p) \<and>
     (\<forall>kv \<in> set (entries p). decodes kv)"

definition storable :: "PendingEvent \<Rightarrow> bool" where
  "storable e \<longleftrightarrow> valid_utf8 (EventType e)"

lemma bolt_UpdateD:
  assumes "bolt_ok b" and "Update b f d = (r, d')"
  shows "(r = None \<and> f d = Inr d') \<or> (r \<noteq> None \<and> d' = d)"
  using assms unfolding bolt_ok_def by (cases "f d") (metis Pair_inject option.distinct(1))+

lemma bolt_ViewD: "bolt_ok b \<Longrightarrow> View b f d = None \<Longrightarrow> f d = None"
  unfolding bolt_ok_def by (metis not_Some_eq option.distinct(1))

lemma bolt_PutD:
  "bolt_ok b \<Longrightarrow> HasBucket b n d \<Longrightarrow> Put b n k v d = Inr d' \<Longrightarrow>
   HasBucket b n d' \<and> map_of (ForEach b n d') = (map_of (ForEach b n d))(k \<mapsto> v)"
  unfolding bolt_ok_def by blast

lemma bolt_DeleteD:
  "bolt_ok b \<Longrightarrow> HasBucket b n d \<Longrightarrow> \<exists>d'. Delete b n k d = Inr d' \<and>
   HasBucket b n d' \<and> map_of (ForEach b n d') = (map_of (ForEach b n d))(k := None)"
  unfolding bolt_ok_def by blast

lemma bolt_keys:
  "bolt_ok b \<Longrightarrow> HasBucket b n d \<Longrightarrow>
   distinct (map fst (ForEach b n d)) \<and> KeyN b n d = int (length (ForEach b n d))"
  unfolding bolt_ok_def by blast

lemma delete_all_map:
  assumes "bolt_ok b" and "HasBucket b bucketName d"
  shows "HasBucket b bucketName (delete_all b ids d) \<and>
         map_of (ForEach b bucketName (delete_all b ids d)) =
         map_of (ForEach b bucketName d) |` (- event_key ` set ids)"
  using assms(2)
proof (induction ids arbitrary: d)
  case (Cons i ids)
  obtain d' where d': "Delete b bucketName (event_key i) d = Inr d'" "HasBucket b bucketName d'"
      "map_of (ForEach b bucketName d') = (map_of (ForEach b bucketName d))(event_key i := None)"
    using bolt_DeleteD [OF assms(1) Cons.prems] by blast
  show ?case using Cons.IH [OF d'(2)] d' by (auto simp: restrict_map_def fun_eq_iff)
qed (auto simp: restrict_map_def)

text \<open>The entries of a bucket are determined by its map, and so is whether they decode.\<close>

lemma wal_ok_map:
  assumes "bolt_ok (bolt p)" and "HasBucket (bolt p) bucketName (disk p)"
  shows "wal_ok p \<longleftrightarrow> (\<forall>k v. map_of (entries p) k = Some v \<longrightarrow> decodes (k, v))"
proof -
  have "distinct (map fst (entries p))" using bolt_keys [OF assms] by simp
  then have "(k, v) \<in> set (entries p) \<longleftrightarrow> map_of (entries p) k = Some v" for k v
    by simp
  then show ?thesis using assms by (auto simp: wal_ok_def)
qed

lemma write_event_law:
  assumes "wal_ok p" and "storable e" and "write_event e p = (r, p')"
  shows "wal_ok p' \<and>
         contents p' = (if r = None then apply_op (contents p) (Wrote e) else contents p)"
proof -
  obtain d where u: "Update (bolt p) (put_event (bolt p) e) (disk p) = (r, d)"
      and p': "p' = p\<lparr>disk := d\<rparr>"
    using assms(3) by (auto simp: write_event_def split: prod.splits)
  have b: "bolt_ok (bolt p)" and hb: "HasBucket (bolt p) bucketName (disk p)"
    using assms(1) by (auto simp: wal_ok_def)
  show ?thesis
  proof (cases r)
    case None
    then have "Put (bolt p) bucketName (event_key (EventID e)) (marshal e) (disk p) = Inr d"
      using bolt_UpdateD [OF b u] hb by (auto simp: put_event_def)
    note put = bolt_PutD [OF b hb this]
    have un: "unmarshal (marshal e) = Some e"
      using assms(2) unmarshal_marshal by (simp add: storable_def)
    have "wal_ok p'"
      using wal_ok_map [OF b hb] wal_ok_map [of p'] put assms(1) b un
      by (auto simp: p' decodes_def split: if_splits)
    moreover have "contents p' = (contents p)(EventID e \<mapsto> e)"
      using put un by (auto simp: p' contents_def fun_eq_iff)
    ultimately show ?thesis using None by simp
  next
    case (Some err)
    then have "p' = p" using bolt_UpdateD [OF b u] p' by simp
    then show ?thesis using assms(1) Some by simp
  qed
qed

lemma Remove_law:
  assumes "wal_ok p" and "Remove ids p = (r, p')"
  shows "wal_ok p' \<and>
         contents p' = (if r = None then apply_op (contents p) (Removed ids) else contents p)"
proof (cases "closed p \<or> ids = []")
  case True
  then have "p' = p \<and> (r = None \<longrightarrow> ids = [])"
    using assms(2) by (auto simp: Remove_def split: if_splits)
  moreover have "contents p |` (- set []) = contents p" by (simp add: restrict_map_def)
  ultimately show ?thesis using assms(1) by auto
next
  case False
  let ?f = "\<lambda>d. if HasBucket (bolt p) bucketName d then Inr (delete_all (bolt p) ids d)
                else Inl (Errorf ''bucket not found'')"
  obtain q d where u: "Update (bolt p) ?f (disk p) = (q, d)"
      and p': "p' = p\<lparr>disk := d\<rparr>" and r: "r = None \<longleftrightarrow> q = None"
    using assms(2) False by (auto simp: Remove_def split: prod.splits option.splits)
  have b: "bolt_ok (bolt p)" and hb: "HasBucket (bolt p) bucketName (disk p)"
    using assms(1) by (auto simp: wal_ok_def)
  show ?thesis
  proof (cases "q = None")
    case True
    then have d: "d = delete_all (bolt p) ids (disk p)" using bolt_UpdateD [OF b u] hb by auto
    note del = delete_all_map [OF b hb, of ids]
    have "wal_ok p'"
      using wal_ok_map [OF b hb] wal_ok_map [of p'] del assms(1) b
      by (auto simp: p' d restrict_map_def split: if_splits)
    moreover have "contents p' = contents p |` (- set ids)"
      using del by (auto simp: p' d contents_def restrict_map_def fun_eq_iff)
    ultimately show ?thesis using True r by simp
  next
    case False
    then have "d = disk p" using bolt_UpdateD [OF b u] by blast
    then show ?thesis using assms(1) False r p' by auto
  qed
qed

lemma Recover_law:
  assumes "wal_ok p" and "Recover p = Inr es"
  shows "map (\<lambda>kv. unmarshal (snd kv)) (entries p) = map Some es"
proof -
  have "es = List.map_filter (\<lambda>(k, v). unmarshal v) (entries p)"
    using assms(2) by (auto simp: Recover_def split: if_splits option.splits)
  moreover have "\<forall>kv \<in> set (entries p). \<exists>e. unmarshal (snd kv) = Some e"
    using assms(1) by (auto simp: wal_ok_def decodes_def split: option.splits)
  moreover have "\<forall>kv \<in> set kvs. \<exists>e. unmarshal (snd kv) = Some e \<Longrightarrow>
      map (\<lambda>kv. unmarshal (snd kv)) kvs =
      map Some (List.map_filter (\<lambda>(k, v). unmarshal v) kvs)" for kvs :: "(string \<times> string) list"
    by (induction kvs) (auto simp: map_filter_simps)
  ultimately show ?thesis by blast
qed

lemma map_of_decoded:
  assumes "distinct (map fst kvs)" and "\<forall>kv \<in> set kvs. decodes kv"
    and "map (\<lambda>kv. unmarshal (snd kv)) kvs = map Some es"
  shows "map fst kvs = map (\<lambda>e. event_key (EventID e)) es"
    and "e \<in> set es \<longleftrightarrow> Option.bind (map_of kvs (event_key (EventID e))) unmarshal = Some e"
proof -
  have keys: "map fst kvs = map (\<lambda>e. event_key (EventID e)) es" using assms(2,3)
  proof (induction kvs arbitrary: es)
    case (Cons kv kvs)
    then show ?case by (cases es) (auto simp: decodes_def)
  qed simp
  then show "map fst kvs = map (\<lambda>e. event_key (EventID e)) es" .
  have len: "length kvs = length es" using assms(3) map_eq_imp_length_eq by blast
  show "e \<in> set es \<longleftrightarrow> Option.bind (map_of kvs (event_key (EventID e))) unmarshal = Some e"
  proof
    assume "e \<in> set es"
    then obtain j where j: "j < length es" "es ! j = e" by (auto simp: in_set_conv_nth)
    then have "fst (kvs ! j) = event_key (EventID e)" "unmarshal (snd (kvs ! j)) = Some e"
      using arg_cong [OF keys, of "\<lambda>l. l ! j"] arg_cong [OF assms(3), of "\<lambda>l. l ! j"] len by simp_all
    moreover have "map_of kvs (fst (kvs ! j)) = Some (snd (kvs ! j))"
      using assms(1) j(1) len by (simp add: map_of_is_SomeI)
    ultimately show "Option.bind (map_of kvs (event_key (EventID e))) unmarshal = Some e" by simp
  next
    assume "Option.bind (map_of kvs (event_key (EventID e))) unmarshal = Some e"
    then obtain v where v: "(event_key (EventID e), v) \<in> set kvs" "unmarshal v = Some e"
      by (auto simp: bind_eq_Some_conv dest: map_of_SomeD)
    then have "Some e \<in> set (map (\<lambda>kv. unmarshal (snd kv)) kvs)" by force
    then show "e \<in> set es" unfolding assms(3) by auto
  qed
qed

lemma contents_keyed: "wal_ok p \<Longrightarrow> contents p i = Some e \<Longrightarrow> EventID e = i"
  by (force simp: wal_ok_def contents_def decodes_def bind_eq_Some_conv
      dest!: map_of_SomeD split: option.splits)

interpretation wal: durable_log contents write_event Remove Recover Count wal_ok storable
proof (unfold_locales, goal_cases)
  case (1 p e r p')
  then show ?case by (rule write_event_law)
next
  case (2 p ids r p')
  then show ?case by (rule Remove_law)
next
  case (3 p es)
  have d: "distinct (map fst (entries p))" "\<forall>kv \<in> set (entries p). decodes kv"
    using 3(1) bolt_keys [of "bolt p" bucketName "disk p"] by (simp_all add: wal_ok_def)
  note m = map_of_decoded [OF d Recover_law [OF 3]]
  have "map event_key (map EventID es) = map fst (entries p)" using m(1) by simp
  then have "distinct (map event_key (map EventID es))" using d(1) by metis
  then have "distinct (map EventID es)" by (rule distinct_map [THEN iffD1, THEN conjunct1])
  with m(2) show ?case by (auto simp: contents_def)
next
  case (4 p n es)
  have "length (entries p) = length es"
    using Recover_law [OF 4(1,3)] map_eq_imp_length_eq by blast
  moreover have "n = KeyN (bolt p) bucketName (disk p)"
    using 4(2) by (auto simp: Count_def split: if_splits option.splits)
  ultimately show ?case
    using 4(1) bolt_keys [of "bolt p" bucketName "disk p"] by (simp add: wal_ok_def)
next
  case (5 p i e)
  then show ?case by (rule contents_keyed)
qed

section \<open>Interleavings\<close>

text \<open>
  The atomic actions of the callers, the writer and the closing call. \<open>Recover\<close> and
  \<open>Count\<close> only read. \<open>None\<close> is a panic.
\<close>

datatype p_action =
    A_enqueue PendingEvent
  | A_receive nat
  | A_writer
  | A_remove "int64 list"
  | A_close
  | A_closer

definition p_step :: "p_action \<Rightarrow> 'db Persistence \<Rightarrow> 'db Persistence option" where
  "p_step a p =
     (case a of
        A_enqueue e \<Rightarrow> map_option fst (EnqueueAsync e p)
      | A_receive c \<Rightarrow> Some (case receive c p of None \<Rightarrow> p | Some (r, q) \<Rightarrow> q)
      | A_writer \<Rightarrow> writeLoop p
      | A_remove ids \<Rightarrow> Some (snd (Remove ids p))
      | A_close \<Rightarrow> Some (Close p)
      | A_closer \<Rightarrow> closer_step p)"

fun p_run :: "p_action list \<Rightarrow> 'db Persistence \<Rightarrow> 'db Persistence option" where
  "p_run [] p = Some p"
| "p_run (a # as) p = (case p_step a p of None \<Rightarrow> None | Some q \<Rightarrow> p_run as q)"

text \<open>The requests that are not answered yet: the one in the writer's hands, then the channel.\<close>

definition in_hand :: "'db Persistence \<Rightarrow> writeRequest list" where
  "in_hand p =
     (case writing p of
        W_check r \<Rightarrow> [r] | W_update r \<Rightarrow> [r] | W_send r _ \<Rightarrow> [r] | _ \<Rightarrow> [])"

definition open_chans :: "'db Persistence \<Rightarrow> nat set" where
  "open_chans p = {c. c < length (errChs p) \<and> \<not> ch_closed (errChs p ! c)}"

text \<open>A result channel is either untouched or has been given exactly one value and closed.\<close>

definition chan_ok :: "err_chan \<Rightarrow> bool" where
  "chan_ok ch \<longleftrightarrow> (if ch_closed ch then length (ch_got ch @ ch_buf ch) = 1
                 else ch_buf ch = [] \<and> ch_got ch = [])"

definition chans_inv :: "'db Persistence \<Rightarrow> bool" where
  "chans_inv p \<longleftrightarrow>
     (let reqs = in_hand p @ writeCh p in
      distinct (map errCh reqs) \<and> errCh ` set reqs = open_chans p \<and>
      (\<forall>ch \<in> set (errChs p). chan_ok ch))"

definition phase_inv :: "'db Persistence \<Rightarrow> bool" where
  "phase_inv p \<longleftrightarrow>
     (closed p \<longleftrightarrow> closing p \<noteq> C_idle) \<and>
     (writeCh_closed p \<longleftrightarrow> closing p \<in> {C_waiting, C_closing, C_done}) \<and>
     (db_closed p \<longleftrightarrow> closing p = C_done) \<and>
     (closing p \<in> {C_closing, C_done} \<longrightarrow> writing p = W_exited) \<and>
     (writing p = W_exited \<longrightarrow> writeCh p = [] \<and> writeCh_closed p) \<and>
     length (writeCh p) \<le> writeBufferSize"

lemma open_chans_update:
  "c < length (errChs p) \<Longrightarrow> errChs q = (errChs p)[c := ch] \<Longrightarrow>
   open_chans q = (if ch_closed ch then open_chans p - {c} else insert c (open_chans p))"
  by (auto simp: open_chans_def nth_list_update split: if_splits)

lemma open_chans_append:
  "errChs q = errChs p @ [ch] \<Longrightarrow>
   open_chans q = (if ch_closed ch then open_chans p else insert (length (errChs p)) (open_chans p))"
  by (auto simp: open_chans_def nth_append less_Suc_eq)

lemma answer_new:
  "answer (length (errChs p)) r (p\<lparr>errChs := errChs p @ [new_chan]\<rparr>) =
   Some (p\<lparr>errChs := errChs p @ [\<lparr>ch_buf = [r], ch_got = [], ch_closed = True\<rparr>]\<rparr>)"
  by (simp add: answer_def new_chan_def nth_append)

text \<open>What the non-panicking results of the operations are.\<close>

lemma EnqueueAsync_cases:
  assumes "phase_inv p"
  obtains (refused) r where "EnqueueAsync e p =
      Some (p\<lparr>errChs := errChs p @ [\<lparr>ch_buf = [Some r], ch_got = [], ch_closed = True\<rparr>]\<rparr>, length (errChs p))"
    | (queued) "\<not> closed p" "length (writeCh p) < writeBufferSize"
      "EnqueueAsync e p = Some (p\<lparr>errChs := errChs p @ [new_chan],
         writeCh := writeCh p @ [\<lparr>event = e, errCh = length (errChs p)\<rparr>]\<rparr>, length (errChs p))"
proof -
  have "\<not> closed p \<Longrightarrow> \<not> writeCh_closed p" using assms by (auto simp: phase_inv_def)
  then consider "closed p" | "\<not> closed p" "length (writeCh p) < writeBufferSize" "\<not> writeCh_closed p"
    | "\<not> closed p" "\<not> length (writeCh p) < writeBufferSize" "\<not> writeCh_closed p" by blast
  then show ?thesis
  proof cases
    case 1
    then show ?thesis by (intro refused) (simp add: EnqueueAsync_def Let_def answer_new)
  next
    case 2
    then show ?thesis by (intro queued) (simp_all add: EnqueueAsync_def Let_def)
  next
    case 3
    then show ?thesis by (intro refused) (simp add: EnqueueAsync_def Let_def answer_new)
  qed
qed

lemma answer_open:
  assumes "chans_inv p" and "c \<in> open_chans p" and "errChs q = errChs p"
  shows "answer c r q = Some (q\<lparr>errChs := (errChs p)[c := (errChs p ! c)\<lparr>ch_buf := [r], ch_closed := True\<rparr>]\<rparr>)"
  using assms by (auto simp: answer_def open_chans_def chans_inv_def chan_ok_def Let_def)

lemma chans_inv_same:
  assumes "chans_inv p" and "in_hand q @ writeCh q = in_hand p @ writeCh p" and "errChs q = errChs p"
  shows "chans_inv q"
  using assms unfolding chans_inv_def open_chans_def by simp

lemma chans_inv_refused:
  assumes "chans_inv p" and "in_hand q = in_hand p" and "writeCh q = writeCh p"
    and "errChs q = errChs p @ [\<lparr>ch_buf = [r], ch_got = [], ch_closed = True\<rparr>]"
  shows "chans_inv q"
  using assms open_chans_append [OF assms(4)]
  by (auto simp: chans_inv_def Let_def chan_ok_def)

lemma chans_inv_queued:
  assumes "chans_inv p" and "in_hand q = in_hand p"
    and "writeCh q = writeCh p @ [\<lparr>event = e, errCh = length (errChs p)\<rparr>]"
    and "errChs q = errChs p @ [new_chan]"
  shows "chans_inv q"
proof -
  have "length (errChs p) \<notin> errCh ` set (in_hand p @ writeCh p)"
    using assms(1) by (auto simp: chans_inv_def Let_def open_chans_def)
  then show ?thesis
    using assms open_chans_append [OF assms(4)]
    by (auto simp: chans_inv_def Let_def chan_ok_def new_chan_def)
qed

lemma chans_inv_answered:
  assumes "chans_inv p" and "in_hand p = [req]" and "in_hand q = []" and "writeCh q = writeCh p"
    and "errChs q = (errChs p)[errCh req := (errChs p ! errCh req)\<lparr>ch_buf := [r], ch_closed := True\<rparr>]"
  shows "chans_inv q"
proof -
  have c: "errCh req \<in> open_chans p" using assms(1,2) by (auto simp: chans_inv_def Let_def)
  then have l: "errCh req < length (errChs p)" by (simp add: open_chans_def)
  have "chan_ok (errChs p ! errCh req)" "\<not> ch_closed (errChs p ! errCh req)"
    using assms(1) c by (auto simp: chans_inv_def Let_def open_chans_def)
  then have "chan_ok ((errChs p ! errCh req)\<lparr>ch_buf := [r], ch_closed := True\<rparr>)"
    by (simp add: chan_ok_def)
  then have "\<forall>ch \<in> set (errChs q). chan_ok ch"
    using assms(1) set_update_subset_insert
    by (fastforce simp: assms(5) chans_inv_def Let_def)
  moreover have "open_chans q = open_chans p - {errCh req}"
    using open_chans_update [OF l assms(5)] by simp
  moreover have reqs: "distinct (errCh req # map errCh (writeCh p))"
      "insert (errCh req) (errCh ` set (writeCh p)) = open_chans p"
    using assms(1,2) by (simp_all add: chans_inv_def Let_def)
  moreover have "errCh ` set (writeCh p) = open_chans p - {errCh req}"
    using reqs(1) unfolding reqs(2) [symmetric] by simp
  ultimately show ?thesis using assms(3,4) by (simp add: chans_inv_def Let_def)
qed

lemma chans_inv_received:
  assumes "chans_inv p" and "receive c p = Some (r, q)"
  shows "chans_inv q \<and> in_hand q = in_hand p \<and> writeCh q = writeCh p \<and> length (errChs q) = length (errChs p)"
proof (cases "ch_buf (errChs p ! c)")
  case Nil
  then show ?thesis using assms by (auto simp: receive_def split: if_splits)
next
  case (Cons x xs)
  let ?ch = "(errChs p ! c)\<lparr>ch_buf := xs, ch_got := ch_got (errChs p ! c) @ [x]\<rparr>"
  have l: "c < length (errChs p)" and q: "q = p\<lparr>errChs := (errChs p)[c := ?ch]\<rparr>"
    using assms(2) Cons by (auto simp: receive_def split: if_splits)
  have "chan_ok (errChs p ! c)" using assms(1) l by (auto simp: chans_inv_def Let_def)
  then have cl: "ch_closed (errChs p ! c)" and ok: "chan_ok ?ch"
    using Cons by (auto simp: chan_ok_def split: if_splits)
  have "\<forall>ch \<in> set (errChs q). chan_ok ch"
    using assms(1) ok set_update_subset_insert by (fastforce simp: q chans_inv_def Let_def)
  moreover have "open_chans q = open_chans p"
    using open_chans_update [OF l, of q ?ch] cl by (auto simp: q open_chans_def)
  ultimately show ?thesis using assms(1) by (simp add: q chans_inv_def Let_def in_hand_def)
qed

definition p_inv :: "'db Persistence \<Rightarrow> bool" where
  "p_inv p \<longleftrightarrow> phase_inv p \<and> chans_inv p"

lemma NewPersistence_inv:
  "NewPersistence b mkdir open_res pth = Inr p \<Longrightarrow> p_inv p"
  by (auto simp: NewPersistence_def p_inv_def phase_inv_def chans_inv_def in_hand_def
      open_chans_def split: option.splits sum.splits prod.splits)

lemma write_event_frame:
  "write_event e p = (r, q) \<Longrightarrow> \<exists>d. q = p\<lparr>disk := d\<rparr>"
  by (auto simp: write_event_def split: prod.splits)

lemma Remove_frame: "Remove ids p = (r, q) \<Longrightarrow> \<exists>d. q = p\<lparr>disk := d\<rparr>"
  by (auto simp: Remove_def intro: exI [of _ "disk q"] split: if_splits prod.splits option.splits)

lemma enqueue_inv:
  assumes "p_inv p"
  shows "\<exists>q. EnqueueAsync e p = Some (q, length (errChs p)) \<and> p_inv q"
proof -
  have ph: "phase_inv p" and ch: "chans_inv p" using assms by (auto simp: p_inv_def)
  show ?thesis
  proof (cases rule: EnqueueAsync_cases [OF ph, of e, case_names refused queued])
    case (refused r)
    let ?q = "p\<lparr>errChs := errChs p @ [\<lparr>ch_buf = [Some r], ch_got = [], ch_closed = True\<rparr>]\<rparr>"
    have "chans_inv ?q" by (rule chans_inv_refused [OF ch]) (simp_all add: in_hand_def)
    moreover have "phase_inv ?q" using ph by (auto simp: phase_inv_def)
    ultimately show ?thesis using refused by (auto simp: p_inv_def)
  next
    case queued
    let ?q = "p\<lparr>errChs := errChs p @ [new_chan],
                writeCh := writeCh p @ [\<lparr>event = e, errCh = length (errChs p)\<rparr>]\<rparr>"
    have "chans_inv ?q" by (rule chans_inv_queued [OF ch]) (simp_all add: in_hand_def)
    moreover have "phase_inv ?q" using ph queued by (auto simp: phase_inv_def)
    ultimately show ?thesis using queued by (auto simp: p_inv_def)
  qed
qed

lemma writer_inv:
  assumes "p_inv p"
  shows "\<exists>q. writeLoop p = Some q \<and> p_inv q"
proof -
  have ph: "phase_inv p" and ch: "chans_inv p" using assms by (auto simp: p_inv_def)
  show ?thesis
  proof (cases "writing p")
    case W_recv
    then show ?thesis
      using ph ch by (cases "writeCh p")
        (auto simp: writeLoop_def p_inv_def phase_inv_def chans_inv_def in_hand_def open_chans_def Let_def)
  next
    case (W_check req)
    then show ?thesis
      using ph ch
      by (auto simp: writeLoop_def p_inv_def phase_inv_def chans_inv_def in_hand_def open_chans_def Let_def)
  next
    case (W_update req)
    obtain r d where w: "write_event (event req) p = (r, p\<lparr>disk := d\<rparr>)"
      using write_event_frame by (metis surj_pair)
    then show ?thesis
      using ph ch W_update
      by (auto simp: writeLoop_def p_inv_def phase_inv_def chans_inv_def in_hand_def open_chans_def Let_def)
  next
    case (W_send req err)
    then have c: "errCh req \<in> open_chans p"
      using ch by (auto simp: chans_inv_def Let_def in_hand_def)
    let ?q = "p\<lparr>writing := W_recv, errChs := (errChs p)[errCh req :=
                (errChs p ! errCh req)\<lparr>ch_buf := [err], ch_closed := True\<rparr>]\<rparr>"
    have "writeLoop p = Some ?q"
      using W_send answer_open [OF ch c, of "p\<lparr>writing := W_recv\<rparr>" err] by (simp add: writeLoop_def)
    moreover have "chans_inv ?q"
      by (rule chans_inv_answered [OF ch, where req = req]) (simp_all add: in_hand_def W_send)
    moreover have "phase_inv ?q" using ph W_send by (auto simp: phase_inv_def)
    ultimately show ?thesis by (auto simp: p_inv_def)
  next
    case W_exited
    then show ?thesis using assms by (simp add: writeLoop_def)
  qed
qed

lemma closer_inv:
  assumes "p_inv p"
  shows "\<exists>q. closer_step p = Some q \<and> p_inv q"
proof -
  have ph: "phase_inv p" and ch: "chans_inv p" using assms by (auto simp: p_inv_def)
  have fr: "chans_inv q" if "writing q = writing p" "writeCh q = writeCh p" "errChs q = errChs p" for q
    using chans_inv_same [OF ch, of q] that by (simp add: in_hand_def)
  show ?thesis
    using ph fr by (cases "closing p") (auto simp: closer_step_def p_inv_def phase_inv_def)
qed

lemma receive_frame: "receive c p = Some (r, q) \<Longrightarrow> \<exists>es. q = p\<lparr>errChs := es\<rparr>"
  by (auto simp: receive_def intro: exI [of _ "errChs q"] split: if_splits list.splits)

lemma phase_inv_errChs: "phase_inv (p\<lparr>errChs := es\<rparr>) \<longleftrightarrow> phase_inv p"
  by (simp add: phase_inv_def)

lemma receive_inv:
  assumes "p_inv p" and "receive c p = Some (r, q)"
  shows "p_inv q"
proof -
  have "chans_inv q" using assms chans_inv_received by (auto simp: p_inv_def)
  moreover have "phase_inv q"
    using assms(1) receive_frame [OF assms(2)] phase_inv_errChs by (auto simp: p_inv_def)
  ultimately show ?thesis by (simp add: p_inv_def)
qed

lemma p_inv_disk: "p_inv (p\<lparr>disk := d\<rparr>) \<longleftrightarrow> p_inv p"
  by (simp add: p_inv_def phase_inv_def chans_inv_def in_hand_def open_chans_def)

lemma Close_inv: "p_inv p \<Longrightarrow> p_inv (Close p)"
  by (auto simp: Close_def p_inv_def phase_inv_def chans_inv_def in_hand_def open_chans_def)

lemma Remove_inv: "p_inv p \<Longrightarrow> p_inv (snd (Remove ids p))"
  using Remove_frame [of ids p] p_inv_disk by (cases "Remove ids p") force

lemma p_step_inv:
  assumes "p_inv p"
  shows "\<exists>q. p_step a p = Some q \<and> p_inv q"
proof (cases a)
  case (A_receive c)
  then show ?thesis
    using assms receive_inv [OF assms] by (auto simp: p_step_def split: option.splits prod.splits)
next
  case (A_enqueue e)
  then show ?thesis using enqueue_inv [OF assms, of e] by (auto simp: p_step_def)
next
  case A_writer
  then show ?thesis using writer_inv [OF assms] by (simp add: p_step_def)
next
  case A_closer
  then show ?thesis using closer_inv [OF assms] by (simp add: p_step_def)
qed (simp_all add: p_step_def Remove_inv Close_inv assms)

lemma p_run_inv: "p_inv p \<Longrightarrow> \<exists>q. p_run as p = Some q \<and> p_inv q"
proof (induction as arbitrary: p)
  case (Cons a as)
  then show ?case using p_step_inv [OF Cons.prems, of a] by auto
qed simp

lemma write_event_bolt: "write_event e p = (r, q) \<Longrightarrow> bolt q = bolt p"
  using write_event_frame by fastforce

lemma Remove_bolt: "bolt (snd (Remove ids p)) = bolt p"
  using Remove_frame [of ids p] by (cases "Remove ids p") fastforce

lemma receive_bolt: "receive c p = Some (r, q) \<Longrightarrow> bolt q = bolt p"
  using receive_frame by fastforce

lemma answer_bolt: "answer c r p = Some q \<Longrightarrow> bolt q = bolt p"
  by (auto simp: answer_def split: if_splits)

lemma p_step_bolt: "p_step a p = Some q \<Longrightarrow> bolt q = bolt p"
proof (cases a)
  case A_writer
  then show "p_step a p = Some q \<Longrightarrow> ?thesis"
    by (auto simp: p_step_def writeLoop_def dest: answer_bolt write_event_bolt
        split: writer.splits list.splits if_splits prod.splits)
next
  case (A_enqueue e)
  then show "p_step a p = Some q \<Longrightarrow> ?thesis"
    by (auto simp: p_step_def EnqueueAsync_def Let_def answer_new split: if_splits)
next
  case (A_receive c)
  then show "p_step a p = Some q \<Longrightarrow> ?thesis"
    by (auto simp: p_step_def receive_bolt split: option.splits prod.splits)
qed (auto simp: p_step_def Remove_bolt Close_def closer_step_def split: closer.splits if_splits)

lemma p_run_bolt: "p_run as p = Some q \<Longrightarrow> bolt q = bolt p"
  by (induction as arbitrary: p) (auto split: option.splits dest: p_step_bolt)

lemma p_run_append:
  "p_run (as @ bs) p = (case p_run as p of None \<Rightarrow> None | Some q \<Rightarrow> p_run bs q)"
  by (induction as arbitrary: p) (auto split: option.splits)

section \<open>The history of the log\<close>

text \<open>The effects on the log that an action commits, and those of a whole run.\<close>

definition step_ops :: "p_action \<Rightarrow> 'db Persistence \<Rightarrow> wal_op list" where
  "step_ops a p =
     (case a of
        A_writer \<Rightarrow>
          (case writing p of
             W_update req \<Rightarrow>
               if fst (write_event (event req) p) = None then [Wrote (event req)] else []
           | _ \<Rightarrow> [])
      | A_remove ids \<Rightarrow> if fst (Remove ids p) = None then [Removed ids] else []
      | _ \<Rightarrow> [])"

fun run_ops :: "p_action list \<Rightarrow> 'db Persistence \<Rightarrow> wal_op list" where
  "run_ops [] p = []"
| "run_ops (a # as) p = step_ops a p @ (case p_step a p of None \<Rightarrow> [] | Some q \<Rightarrow> run_ops as q)"

fun offered :: "p_action \<Rightarrow> PendingEvent list" where
  "offered (A_enqueue e) = [e]"
| "offered _ = []"

definition good_action :: "p_action \<Rightarrow> bool" where
  "good_action a \<longleftrightarrow> list_all storable (offered a)"

definition reqs_good :: "'db Persistence \<Rightarrow> bool" where
  "reqs_good p \<longleftrightarrow> (\<forall>r \<in> set (in_hand p @ writeCh p). storable (event r))"

lemma wal_frame:
  assumes "bolt q = bolt p" and "disk q = disk p"
  shows "wal_ok q \<longleftrightarrow> wal_ok p" and "contents q = contents p"
  using assms by (simp_all add: wal_ok_def contents_def fun_eq_iff)

lemma reqs_good_mono:
  "reqs_good p \<Longrightarrow> set (in_hand q @ writeCh q) \<subseteq> set (in_hand p @ writeCh p) \<Longrightarrow> reqs_good q"
  by (auto simp: reqs_good_def)

definition log_step :: "'db Persistence \<Rightarrow> wal_op list \<Rightarrow> 'db Persistence \<Rightarrow> bool" where
  "log_step p os q \<longleftrightarrow> wal_ok q \<and> reqs_good q \<and> contents q = foldl apply_op (contents p) os"

lemma log_step_frame:
  assumes "wal_ok p" and "reqs_good p" and "bolt q = bolt p" and "disk q = disk p"
    and "set (in_hand q @ writeCh q) \<subseteq> set (in_hand p @ writeCh p)"
  shows "log_step p [] q"
  using assms wal_frame [OF assms(3,4)] reqs_good_mono [OF assms(2,5)] by (simp add: log_step_def)

lemma writer_log:
  assumes "wal_ok p" and "reqs_good p" and "writeLoop p = Some q"
  shows "log_step p (step_ops A_writer p) q"
proof (cases "writing p")
  case (W_update req)
  obtain r d where w: "write_event (event req) p = (r, p\<lparr>disk := d\<rparr>)"
    using write_event_frame by (metis surj_pair)
  have s: "storable (event req)" using assms(2) W_update by (simp add: reqs_good_def in_hand_def)
  have q: "q = p\<lparr>disk := d, writing := W_send req r\<rparr>"
    using assms(3) W_update w by (simp add: writeLoop_def)
  note law = write_event_law [OF assms(1) s w]
  have "wal_ok q" "contents q = contents (p\<lparr>disk := d\<rparr>)"
    using law wal_frame [of q "p\<lparr>disk := d\<rparr>"] by (simp_all add: q)
  moreover have "reqs_good q"
    using assms(2) W_update by (simp add: q reqs_good_def in_hand_def)
  ultimately show ?thesis
    using law w W_update by (simp add: log_step_def step_ops_def)
next
  case W_recv
  have "log_step p [] q"
    using assms(3) W_recv
    by (intro log_step_frame [OF assms(1,2)])
      (auto simp: writeLoop_def in_hand_def split: list.splits if_splits)
  then show ?thesis using W_recv by (simp add: step_ops_def)
next
  case (W_check req)
  have "log_step p [] q"
    using assms(3) W_check
    by (intro log_step_frame [OF assms(1,2)]) (auto simp: writeLoop_def in_hand_def split: if_splits)
  then show ?thesis using W_check by (simp add: step_ops_def)
next
  case (W_send req err)
  have "log_step p [] q"
    using assms(3) W_send
    by (intro log_step_frame [OF assms(1,2)])
      (auto simp: writeLoop_def answer_def in_hand_def split: if_splits)
  then show ?thesis using W_send by (simp add: step_ops_def)
next
  case W_exited
  have "log_step p [] q"
    using assms(3) W_exited by (intro log_step_frame [OF assms(1,2)]) (auto simp: writeLoop_def)
  then show ?thesis using W_exited by (simp add: step_ops_def)
qed

lemma enqueue_log:
  assumes "p_inv p" and "wal_ok p" and "reqs_good p" and "storable e"
    and "EnqueueAsync e p = Some (q, c)"
  shows "log_step p [] q"
proof -
  have ph: "phase_inv p" using assms(1) by (simp add: p_inv_def)
  show ?thesis
  proof (cases rule: EnqueueAsync_cases [OF ph, of e, case_names refused queued])
    case (refused r)
    with assms(5) show ?thesis
      by (intro log_step_frame [OF assms(2,3)]) (auto simp: in_hand_def)
  next
    case queued
    with assms(5) have q: "q = p\<lparr>errChs := errChs p @ [new_chan],
        writeCh := writeCh p @ [\<lparr>event = e, errCh = length (errChs p)\<rparr>]\<rparr>" by auto
    have "reqs_good q" using assms(3,4) by (auto simp: q reqs_good_def in_hand_def)
    then show ?thesis using assms(2) wal_frame [of q p] by (simp add: log_step_def q)
  qed
qed

lemma p_step_log:
  assumes "p_inv p" and "wal_ok p" and "reqs_good p" and "good_action a" and "p_step a p = Some q"
  shows "log_step p (step_ops a p) q"
proof (cases a)
  case (A_enqueue e)
  then show ?thesis
    using assms enqueue_log [OF assms(1-3), of e]
    by (auto simp: p_step_def step_ops_def good_action_def)
next
  case (A_remove ids)
  obtain r d where w: "Remove ids p = (r, p\<lparr>disk := d\<rparr>)"
    using Remove_frame by (metis surj_pair)
  have "reqs_good (p\<lparr>disk := d\<rparr>)" using assms(3) by (simp add: reqs_good_def in_hand_def)
  then show ?thesis
    using A_remove assms(5) w Remove_law [OF assms(2) w]
    by (auto simp: p_step_def step_ops_def log_step_def)
next
  case A_writer
  then show ?thesis using assms writer_log by (simp add: p_step_def)
next
  case (A_receive c)
  have "log_step p [] q"
    using assms(5) A_receive receive_frame
    by (intro log_step_frame [OF assms(2,3)])
      (fastforce simp: p_step_def in_hand_def split: option.splits prod.splits)+
  then show ?thesis using A_receive by (simp add: step_ops_def)
next
  case A_close
  have "log_step p [] q"
    using assms(5) A_close by (intro log_step_frame [OF assms(2,3)]) 
      (auto simp: p_step_def Close_def in_hand_def split: if_splits)
  then show ?thesis using A_close by (simp add: step_ops_def)
next
  case A_closer
  have "log_step p [] q"
    using assms(5) A_closer
    by (intro log_step_frame [OF assms(2,3)])
      (auto simp: p_step_def closer_step_def in_hand_def split: closer.splits if_splits)
  then show ?thesis using A_closer by (simp add: step_ops_def)
qed

lemma p_run_log:
  assumes "p_inv p" and "wal_ok p" and "reqs_good p" and "list_all good_action as"
    and "p_run as p = Some q"
  shows "log_step p (run_ops as p) q"
  using assms
proof (induction as arbitrary: p)
  case Nil
  then show ?case by (simp add: log_step_def)
next
  case (Cons a as)
  obtain s where s: "p_step a p = Some s" "p_inv s" "p_run as s = Some q"
    using p_step_inv [OF Cons.prems(1), of a] Cons.prems(5) by auto
  have l: "log_step p (step_ops a p) s" using p_step_log Cons.prems s(1) by fastforce
  then have "log_step s (run_ops as s) q"
    using Cons.IH [OF s(2) _ _ _ s(3)] Cons.prems(4) by (simp add: log_step_def)
  with l s(1) show ?case by (simp add: log_step_def)
qed

section \<open>Answers\<close>

text \<open>
  Channel number \<open>c\<close> belongs to the \<open>c\<close>-th event that was offered. It has carried
  \<open>nil\<close> only if that event was written.
\<close>

definition ans_inv :: "PendingEvent list \<Rightarrow> wal_op list \<Rightarrow> 'db Persistence \<Rightarrow> bool" where
  "ans_inv es os p \<longleftrightarrow>
     length (errChs p) = length es \<and>
     (\<forall>r \<in> set (in_hand p @ writeCh p). es ! errCh r = event r) \<and>
     (\<forall>c < length es. None \<in> set (ch_got (errChs p ! c) @ ch_buf (errChs p ! c)) \<longrightarrow>
        Wrote (es ! c) \<in> set os) \<and>
     (\<forall>r. writing p = W_send r None \<longrightarrow> Wrote (event r) \<in> set os)"

lemma req_chan_bound:
  "chans_inv p \<Longrightarrow> r \<in> set (in_hand p @ writeCh p) \<Longrightarrow> errCh r < length (errChs p)"
  unfolding chans_inv_def Let_def open_chans_def by blast

lemma ans_inv_frame:
  assumes "ans_inv es os p" and "errChs q = errChs p"
    and "set (in_hand q @ writeCh q) \<subseteq> set (in_hand p @ writeCh p)"
    and "\<And>r. writing q = W_send r None \<Longrightarrow> writing p = W_send r None"
  shows "ans_inv es os q"
  using assms unfolding ans_inv_def by (metis subset_iff)

lemma ans_inv_offer:
  assumes "ans_inv es os p" and "chans_inv p" and "writing q = writing p"
    and "errChs q = errChs p @ [ch]" and "None \<notin> set (ch_got ch @ ch_buf ch)"
    and "set (writeCh q) \<subseteq> set (writeCh p) \<union> {\<lparr>event = e, errCh = length (errChs p)\<rparr>}"
  shows "ans_inv (es @ [e]) os q"
proof -
  have len: "length (errChs p) = length es" using assms(1) by (simp add: ans_inv_def)
  have "(es @ [e]) ! errCh r = event r" if r: "r \<in> set (in_hand q @ writeCh q)" for r
  proof (cases "r \<in> set (in_hand p @ writeCh p)")
    case True
    then show ?thesis
      using assms(1) req_chan_bound [OF assms(2) True] len by (simp add: ans_inv_def nth_append)
  next
    case False
    then have "r = \<lparr>event = e, errCh = length (errChs p)\<rparr>"
      using r assms(3,6) by (auto simp: in_hand_def)
    then show ?thesis using len by simp
  qed
  moreover have "Wrote ((es @ [e]) ! c) \<in> set os"
    if "c < length (es @ [e])" "None \<in> set (ch_got (errChs q ! c) @ ch_buf (errChs q ! c))" for c
    using that assms(1,4,5) len by (cases "c < length es") (auto simp: ans_inv_def nth_append)
  ultimately show ?thesis using assms(1,3,4) by (auto simp: ans_inv_def)
qed

lemma ans_inv_answer:
  assumes "ans_inv es os p" and "chans_inv p" and "writing p = W_send req err"
    and "writing q = W_recv" and "writeCh q = writeCh p"
    and "errChs q = (errChs p)[errCh req := (errChs p ! errCh req)\<lparr>ch_buf := [err], ch_closed := True\<rparr>]"
  shows "ans_inv es os q"
proof -
  have len: "length (errChs p) = length es" using assms(1) by (simp add: ans_inv_def)
  have ev: "es ! errCh req = event req"
    using assms(1,3) by (simp add: ans_inv_def in_hand_def)
  have "errCh req \<in> open_chans p"
    using assms(2,3) by (auto simp: chans_inv_def Let_def in_hand_def)
  then have "ch_got (errChs p ! errCh req) = []"
    using assms(2) by (auto simp: chans_inv_def Let_def open_chans_def chan_ok_def)
  then have "Wrote (es ! c) \<in> set os"
    if "c < length es" "None \<in> set (ch_got (errChs q ! c) @ ch_buf (errChs q ! c))" for c
    using that assms(1,3,6) len ev
    by (cases "c = errCh req") (auto simp: ans_inv_def)
  then show ?thesis
    using assms(1,4-6) by (auto simp: ans_inv_def in_hand_def)
qed

lemma ans_inv_receive:
  assumes "ans_inv es os p" and "receive c p = Some (r, q)"
  shows "ans_inv es os q"
proof (cases "ch_buf (errChs p ! c)")
  case Nil
  then show ?thesis using assms by (auto simp: receive_def split: if_splits)
next
  case (Cons x xs)
  let ?ch = "(errChs p ! c)\<lparr>ch_buf := xs, ch_got := ch_got (errChs p ! c) @ [x]\<rparr>"
  have l: "c < length (errChs p)" and q: "q = p\<lparr>errChs := (errChs p)[c := ?ch]\<rparr>"
    using assms(2) Cons by (auto simp: receive_def split: if_splits)
  have "set (ch_got (errChs q ! j) @ ch_buf (errChs q ! j)) =
        set (ch_got (errChs p ! j) @ ch_buf (errChs p ! j))" if "j < length (errChs p)" for j
    using l Cons that by (cases "j = c") (auto simp: q)
  then show ?thesis using assms(1) by (simp add: q ans_inv_def in_hand_def)
qed

lemma writer_answers:
  assumes "p_inv p" and "ans_inv es os p" and "writeLoop p = Some q"
  shows "ans_inv es (os @ step_ops A_writer p) q"
proof (cases "writing p")
  case (W_update req)
  obtain r d where w: "write_event (event req) p = (r, p\<lparr>disk := d\<rparr>)"
    using write_event_frame by (metis surj_pair)
  then have q: "q = p\<lparr>disk := d, writing := W_send req r\<rparr>"
    using assms(3) W_update by (simp add: writeLoop_def)
  show ?thesis using assms(2) w W_update by (auto simp: q ans_inv_def in_hand_def step_ops_def)
next
  case (W_send req err)
  have ch: "chans_inv p" using assms(1) by (simp add: p_inv_def)
  have "errCh req \<in> open_chans p" using ch W_send by (auto simp: chans_inv_def Let_def in_hand_def)
  note a = answer_open [OF ch this, of "p\<lparr>writing := W_recv\<rparr>" err]
  have "ans_inv es os q"
    using assms(3) W_send a by (intro ans_inv_answer [OF assms(2) ch W_send]) (auto simp: writeLoop_def)
  then show ?thesis using W_send by (simp add: step_ops_def)
next
  case W_recv
  have "ans_inv es os q"
    using assms(3) W_recv
    by (intro ans_inv_frame [OF assms(2)]) (auto simp: writeLoop_def in_hand_def split: list.splits if_splits)
  then show ?thesis using W_recv by (simp add: step_ops_def)
next
  case (W_check req)
  have "ans_inv es os q"
    using assms(3) W_check
    by (intro ans_inv_frame [OF assms(2)]) (auto simp: writeLoop_def in_hand_def split: if_splits)
  then show ?thesis using W_check by (simp add: step_ops_def)
next
  case W_exited
  then show ?thesis using assms by (simp add: writeLoop_def step_ops_def)
qed

lemma enqueue_answers:
  assumes "p_inv p" and "ans_inv es os p" and "EnqueueAsync e p = Some (q, c)"
  shows "ans_inv (es @ [e]) os q"
proof -
  have ph: "phase_inv p" and ch: "chans_inv p" using assms(1) by (auto simp: p_inv_def)
  show ?thesis
  proof (cases rule: EnqueueAsync_cases [OF ph, of e, case_names refused queued])
    case (refused r)
    let ?ch = "\<lparr>ch_buf = [Some r], ch_got = [], ch_closed = True\<rparr>"
    show ?thesis
      using assms(3) refused by (intro ans_inv_offer [OF assms(2) ch, where ch = ?ch]) auto
  next
    case queued
    then show ?thesis
      using assms(3)
      by (intro ans_inv_offer [OF assms(2) ch, where ch = new_chan]) (auto simp: new_chan_def)
  qed
qed

lemma p_step_answers:
  assumes "p_inv p" and "ans_inv es os p" and "p_step a p = Some q"
  shows "ans_inv (es @ offered a) (os @ step_ops a p) q"
proof (cases a)
  case (A_enqueue e)
  then show ?thesis
    using assms enqueue_answers [OF assms(1,2), of e] by (auto simp: p_step_def step_ops_def)
next
  case A_writer
  then show ?thesis using assms writer_answers by (simp add: p_step_def)
next
  case (A_receive c)
  then show ?thesis
    using assms ans_inv_receive [OF assms(2), of c]
    by (auto simp: p_step_def step_ops_def split: option.splits prod.splits)
next
  case (A_remove ids)
  obtain r d where "Remove ids p = (r, p\<lparr>disk := d\<rparr>)" using Remove_frame by (metis surj_pair)
  then show ?thesis
    using A_remove assms(2,3) by (auto simp: p_step_def step_ops_def ans_inv_def in_hand_def)
next
  case A_close
  have "ans_inv es os q"
    using A_close assms(3)
    by (intro ans_inv_frame [OF assms(2)]) (auto simp: p_step_def Close_def in_hand_def split: if_splits)
  then show ?thesis using A_close by (simp add: step_ops_def)
next
  case A_closer
  have "ans_inv es os q"
    using A_closer assms(3)
    by (intro ans_inv_frame [OF assms(2)])
      (auto simp: p_step_def closer_step_def in_hand_def split: closer.splits if_splits)
  then show ?thesis using A_closer by (simp add: step_ops_def)
qed

lemma p_run_answers:
  assumes "p_inv p" and "ans_inv es os p" and "p_run as p = Some q"
  shows "ans_inv (es @ concat (map offered as)) (os @ run_ops as p) q"
  using assms
proof (induction as arbitrary: p es os)
  case (Cons a as)
  obtain s where s: "p_step a p = Some s" "p_inv s" "p_run as s = Some q"
    using p_step_inv [OF Cons.prems(1), of a] Cons.prems(3) by auto
  show ?case
    using Cons.IH [OF s(2) p_step_answers [OF Cons.prems(1,2) s(1)] s(3)] s(1) by simp
qed simp

section \<open>After the close\<close>

definition updating :: "'db Persistence \<Rightarrow> bool" where
  "updating p \<longleftrightarrow> (\<exists>req. writing p = W_update req)"

text \<open>Once \<open>closed\<close> is set, no request is taken to the database any more.\<close>

lemma closed_step:
  assumes "closed p" and "p_step a p = Some q"
  shows "closed q \<and> length (step_ops a p) \<le> (if updating p \<and> \<not> updating q then 1 else 0) \<and>
         (updating q \<longrightarrow> updating p)"
proof (cases a)
  case (A_enqueue e)
  then show ?thesis
    using assms by (auto simp: p_step_def step_ops_def EnqueueAsync_def Let_def answer_new updating_def)
next
  case (A_receive c)
  then show ?thesis
    using assms receive_frame
    by (fastforce simp: p_step_def step_ops_def updating_def split: option.splits prod.splits)
next
  case A_writer
  then show ?thesis
    using assms write_event_frame
    by (fastforce simp: p_step_def step_ops_def updating_def writeLoop_def answer_def
        split: writer.splits list.splits if_splits prod.splits)
next
  case (A_remove ids)
  then show ?thesis using assms by (auto simp: p_step_def step_ops_def Remove_def)
next
  case A_close
  then show ?thesis using assms by (auto simp: p_step_def step_ops_def Close_def)
next
  case A_closer
  then show ?thesis
    using assms by (auto simp: p_step_def step_ops_def closer_step_def updating_def
        split: closer.splits if_splits)
qed

lemma closed_run:
  "closed p \<Longrightarrow> p_run as p = Some q \<Longrightarrow> length (run_ops as p) \<le> (if updating p then 1 else 0)"
proof (induction as arbitrary: p)
  case (Cons a as)
  obtain s where s: "p_step a p = Some s" "p_run as s = Some q"
    using Cons.prems(2) by (auto split: option.splits)
  note st = closed_step [OF Cons.prems(1) s(1)]
  have "length (run_ops as s) \<le> (if updating s then 1 else 0)" using Cons.IH st s(2) by blast
  with st s(1) show ?case by (auto split: if_splits)
qed simp


section \<open>The synchronous write\<close>

text \<open>The steps that the writer needs at most to answer everything it has been given.\<close>

definition backlog :: "'db Persistence \<Rightarrow> nat" where
  "backlog p = 4 * length (writeCh p) +
     (case writing p of W_check _ \<Rightarrow> 3 | W_update _ \<Rightarrow> 2 | W_send _ _ \<Rightarrow> 1 | _ \<Rightarrow> 0)"

lemma writer_backlog:
  assumes "p_inv p" and "writeLoop p = Some q"
  shows "backlog q \<le> backlog p - 1"
proof (cases "writing p")
  case (W_update req)
  then show ?thesis
    using assms(2) write_event_frame
    by (fastforce simp: writeLoop_def backlog_def split: prod.splits)
next
  case W_exited
  then have "writeCh p = []" using assms(1) by (simp add: p_inv_def phase_inv_def)
  then show ?thesis using W_exited assms(2) by (simp add: writeLoop_def backlog_def)
qed (use assms(2) in \<open>auto simp: writeLoop_def answer_def backlog_def split: list.splits if_splits\<close>)

lemma writer_steps_backlog:
  "p_inv p \<Longrightarrow> writer_steps n p = Some q \<Longrightarrow> backlog q \<le> backlog p - n"
proof (induction n arbitrary: p)
  case (Suc n)
  then obtain s where s: "writeLoop p = Some s" "writer_steps n s = Some q"
    by (auto split: option.splits)
  then have "p_inv s" using writer_inv [OF Suc.prems(1)] by simp
  then show ?case using Suc.IH s(2) writer_backlog [OF Suc.prems(1) s(1)] by fastforce
qed simp

lemma backlog_0: "backlog p = 0 \<Longrightarrow> in_hand p @ writeCh p = []"
  by (auto simp: backlog_def in_hand_def split: writer.splits)

text \<open>
  The fate of the request that is the last one in the channel: it is still on its way, or it
  has been answered, and a \<open>nil\<close> answer means that its event is in the log.
\<close>

definition last_req :: "writeRequest \<Rightarrow> 'db Persistence \<Rightarrow> bool" where
  "last_req r p \<longleftrightarrow>
     (\<exists>pre. in_hand p @ writeCh p = pre @ [r]) \<and>
     (writing p = W_send r None \<longrightarrow> contents p (EventID (event r)) = Some (event r)) \<or>
     (in_hand p @ writeCh p = [] \<and>
      (\<exists>x. ch_got (errChs p ! errCh r) = [] \<and> ch_buf (errChs p ! errCh r) = [x] \<and>
           (x = None \<longrightarrow> contents p (EventID (event r)) = Some (event r))))"

lemma last_req_frame:
  assumes "last_req r p" and "in_hand q @ writeCh q = in_hand p @ writeCh p"
    and "contents q = contents p" and "errChs q = errChs p"
    and "\<And>s. writing q = W_send s None \<Longrightarrow> writing p = W_send s None"
  shows "last_req r q"
  using assms unfolding last_req_def by metis

lemma last_req_writer:
  assumes "p_inv p" and "wal_ok p" and "reqs_good p" and "last_req r p" and "writeLoop p = Some q"
  shows "last_req r q"
proof (cases "writing p")
  case (W_update s)
  obtain x d where w: "write_event (event s) p = (x, p\<lparr>disk := d\<rparr>)"
    using write_event_frame by (metis surj_pair)
  have q: "q = p\<lparr>disk := d, writing := W_send s x\<rparr>"
    using assms(5) W_update w by (simp add: writeLoop_def)
  have "storable (event s)" using assms(3) W_update by (simp add: reqs_good_def in_hand_def)
  then have "x = None \<Longrightarrow> contents q (EventID (event s)) = Some (event s)"
    using write_event_law [OF assms(2) _ w] wal_frame(2) [of q "p\<lparr>disk := d\<rparr>"] by (simp add: q)
  moreover obtain pre where "in_hand p @ writeCh p = pre @ [r]"
    using assms(4) W_update by (auto simp: last_req_def in_hand_def)
  ultimately show ?thesis using W_update by (auto simp: last_req_def q in_hand_def)
next
  case (W_send s x)
  have ch: "chans_inv p" using assms(1) by (simp add: p_inv_def)
  have c: "errCh s \<in> open_chans p" using ch W_send by (auto simp: chans_inv_def Let_def in_hand_def)
  have q: "q = p\<lparr>writing := W_recv, errChs := (errChs p)[errCh s :=
             (errChs p ! errCh s)\<lparr>ch_buf := [x], ch_closed := True\<rparr>]\<rparr>"
    using assms(5) W_send answer_open [OF ch c, of "p\<lparr>writing := W_recv\<rparr>" x]
    by (simp add: writeLoop_def)
  obtain pre where pre: "s # writeCh p = pre @ [r]"
      and val: "s = r \<and> x = None \<longrightarrow> contents p (EventID (event s)) = Some (event s)"
    using assms(4) W_send by (auto simp: last_req_def in_hand_def)
  have cq: "contents q = contents p" using wal_frame(2) [of q p] by (simp add: q)
  show ?thesis
  proof (cases pre)
    case Nil
    have "ch_got (errChs p ! errCh s) = []" "errCh s < length (errChs p)"
      using ch c by (auto simp: chans_inv_def Let_def open_chans_def chan_ok_def)
    then show ?thesis
      using pre Nil val cq by (simp add: last_req_def q in_hand_def)
  next
    case (Cons y ys)
    then show ?thesis using pre by (simp add: last_req_def q in_hand_def)
  qed
next
  case W_recv
  show ?thesis
  proof (cases "writeCh p")
    case (Cons s rest)
    then have "q = p\<lparr>writeCh := rest, writing := W_check s\<rparr>"
      using assms(5) W_recv by (simp add: writeLoop_def)
    then show ?thesis
      using W_recv Cons wal_frame(2) [of q p]
      by (intro last_req_frame [OF assms(4)]) (auto simp: in_hand_def)
  next
    case Nil
    then show ?thesis
      using assms(5) W_recv wal_frame(2) [of q p]
      by (intro last_req_frame [OF assms(4)]) (auto simp: writeLoop_def in_hand_def split: if_splits)
  qed
next
  case (W_check s)
  then show ?thesis
    using assms(5) wal_frame(2) [of q p]
    by (intro last_req_frame [OF assms(4)]) (auto simp: writeLoop_def in_hand_def split: if_splits)
next
  case W_exited
  then show ?thesis using assms by (simp add: writeLoop_def)
qed

lemma last_req_writer_steps:
  assumes "p_inv p" and "wal_ok p" and "reqs_good p" and "last_req r p"
  shows "\<exists>q. writer_steps n p = Some q \<and> p_inv q \<and> last_req r q"
  using assms
proof (induction n arbitrary: p)
  case (Suc n)
  obtain s where s: "writeLoop p = Some s" "p_inv s" using writer_inv [OF Suc.prems(1)] by blast
  have "wal_ok s" "reqs_good s"
    using writer_log [OF Suc.prems(2,3) s(1)] by (simp_all add: log_step_def)
  then show ?case
    using Suc.IH [OF s(2)] last_req_writer [OF Suc.prems s(1)] s(1) by simp
qed simp

lemma receive_answered:
  assumes "c < length (errChs p)" and "ch_buf (errChs p ! c) = [x]"
  shows "\<exists>q. receive c p = Some (x, q) \<and> contents q = contents p"
  using assms by (auto simp: receive_def intro!: wal_frame(2))

lemma writer_keeps_closed:
  assumes "p_inv p" and "writeLoop p = Some q" and "c < length (errChs p)"
    and "ch_closed (errChs p ! c)"
  shows "c < length (errChs q) \<and> errChs q ! c = errChs p ! c"
proof (cases "writing p")
  case (W_send req err)
  then have "errCh req \<in> open_chans p"
    using assms(1) by (auto simp: p_inv_def chans_inv_def Let_def in_hand_def)
  then have "errCh req \<noteq> c" using assms(4) by (auto simp: open_chans_def)
  then show ?thesis
    using assms(2,3) W_send by (auto simp: writeLoop_def answer_def split: if_splits)
next
  case (W_update req)
  then show ?thesis
    using assms(2,3) write_event_frame by (fastforce simp: writeLoop_def split: prod.splits)
qed (use assms in \<open>auto simp: writeLoop_def split: list.splits if_splits\<close>)

lemma writer_steps_length: "writer_steps n p = Some q \<Longrightarrow> length (errChs q) = length (errChs p)"
proof (induction n arbitrary: p)
  case (Suc n)
  then obtain s where s: "writeLoop p = Some s" "writer_steps n s = Some q"
    by (auto split: option.splits)
  have "length (errChs s) = length (errChs p)"
    using s(1) write_event_frame
    by (fastforce simp: writeLoop_def answer_def split: writer.splits list.splits if_splits prod.splits)
  then show ?case using Suc.IH s(2) by simp
qed simp

lemma writer_steps_closed:
  assumes "p_inv p" and "c < length (errChs p)" and "ch_closed (errChs p ! c)"
  shows "\<exists>q. writer_steps n p = Some q \<and> c < length (errChs q) \<and> errChs q ! c = errChs p ! c"
  using assms
proof (induction n arbitrary: p)
  case (Suc n)
  obtain s where s: "writeLoop p = Some s" "p_inv s" using writer_inv [OF Suc.prems(1)] by blast
  note k = writer_keeps_closed [OF Suc.prems(1) s(1) Suc.prems(2,3)]
  show ?case using Suc.IH [OF s(2)] k Suc.prems(3) s(1) by auto
qed simp

lemma Enqueue_refused:
  assumes "p_inv p" and "EnqueueAsync e p =
      Some (p\<lparr>errChs := errChs p @ [\<lparr>ch_buf = [Some x], ch_got = [], ch_closed = True\<rparr>]\<rparr>, length (errChs p))"
  shows "\<exists>q. Enqueue n e p = Some (Some x, q)"
proof -
  let ?p = "p\<lparr>errChs := errChs p @ [\<lparr>ch_buf = [Some x], ch_got = [], ch_closed = True\<rparr>]\<rparr>"
  have "p_inv ?p" using enqueue_inv [OF assms(1), of e] assms(2) by simp
  then obtain q where q: "writer_steps n ?p = Some q" "length (errChs p) < length (errChs q)"
      "errChs q ! length (errChs p) = errChs ?p ! length (errChs p)"
    using writer_steps_closed [of ?p "length (errChs p)" n] by auto
  then show ?thesis
    using assms(2) receive_answered [of "length (errChs p)" q "Some x"]
    by (auto simp: Enqueue_def)
qed

lemma Enqueue_queued:
  assumes "p_inv p" and "wal_ok p" and "reqs_good p" and "storable e"
    and "4 * length (writeCh p) + 7 \<le> n"
    and "EnqueueAsync e p = Some (p\<lparr>errChs := errChs p @ [new_chan],
         writeCh := writeCh p @ [\<lparr>event = e, errCh = length (errChs p)\<rparr>]\<rparr>, length (errChs p))"
  shows "\<exists>r q. Enqueue n e p = Some (r, q) \<and> (r = None \<longrightarrow> contents q (EventID e) = Some e)"
proof -
  let ?c = "length (errChs p)"
  let ?r = "\<lparr>event = e, errCh = ?c\<rparr>"
  let ?p = "p\<lparr>errChs := errChs p @ [new_chan], writeCh := writeCh p @ [?r]\<rparr>"
  have inv: "p_inv ?p" using enqueue_inv [OF assms(1), of e] assms(6) by simp
  have lg: "wal_ok ?p" "reqs_good ?p"
    using enqueue_log [OF assms(1-4,6)] by (simp_all add: log_step_def)
  have "writing p \<noteq> W_send ?r x" for x
    using req_chan_bound [of p ?r] assms(1) by (auto simp: p_inv_def in_hand_def)
  then have "last_req ?r ?p" by (simp add: last_req_def in_hand_def)
  then obtain q where q: "writer_steps n ?p = Some q" "p_inv q" "last_req ?r q"
    using last_req_writer_steps [OF inv lg] by blast
  have "backlog ?p \<le> n" using assms(5) by (auto simp: backlog_def split: writer.splits)
  then have "in_hand q @ writeCh q = []"
    using backlog_0 writer_steps_backlog [OF inv q(1)] by simp
  then obtain x where x: "ch_buf (errChs q ! ?c) = [x]" "x = None \<longrightarrow> contents q (EventID e) = Some e"
    using q(3) by (auto simp: last_req_def)
  have "length (errChs q) = Suc ?c"
    using writer_steps_length [OF q(1)] by simp
  then show ?thesis
    using receive_answered [of ?c q x] x assms(6) q(1) by (fastforce simp: Enqueue_def)
qed

section \<open>A concrete database\<close>

text \<open>Buckets as association lists, for the witnesses.\<close>

type_synonym mem_db = "(string \<times> (string \<times> string) list) list"

definition mem_bolt :: "mem_db bolt" where
  "mem_bolt =
     \<lparr>Update = (\<lambda>f d. case f d of Inl e \<Rightarrow> (Some e, d) | Inr d' \<Rightarrow> (None, d')),
      View = (\<lambda>f d. f d),
      HasBucket = (\<lambda>n d. map_of d n \<noteq> None),
      CreateBucketIfNotExists = (\<lambda>n d. if map_of d n = None then Inr (AList.update n [] d) else Inr d),
      Put = (\<lambda>n k v d. case map_of d n of None \<Rightarrow> Inl (Errorf ''no bucket'')
               | Some kvs \<Rightarrow> Inr (AList.update n (AList.update k v kvs) d)),
      Delete = (\<lambda>n k d. case map_of d n of None \<Rightarrow> Inl (Errorf ''no bucket'')
               | Some kvs \<Rightarrow> Inr (AList.update n (AList.delete k kvs) d)),
      ForEach = (\<lambda>n d. case map_of d n of None \<Rightarrow> [] | Some kvs \<Rightarrow> AList.clearjunk kvs),
      KeyN = (\<lambda>n d. case map_of d n of None \<Rightarrow> 0 | Some kvs \<Rightarrow> int (length (AList.clearjunk kvs)))\<rparr>"

lemma mem_bolt_ok: "bolt_ok mem_bolt"
  by (auto simp: bolt_ok_def mem_bolt_def update_conv' map_of_clearjunk delete_conv'
      distinct_clearjunk split: option.splits)

definition mem_p :: "mem_db Persistence" where
  "mem_p = \<lparr>bolt = mem_bolt, disk = [(bucketName, [])], path = ''q.db'', closed = False, writeCh = [],
            writeCh_closed = False, writing = W_recv, closing = C_idle, db_closed = False, errChs = []\<rparr>"

definition demo_event :: PendingEvent where
  "demo_event = \<lparr>EventID = 7, UserID = 1, EventType = ''view'', Metadata = None, EnqueuedAt = 5\<rparr>"

lemma mem_p_new: "NewPersistence mem_bolt None (Inr []) ''q.db'' = Inr mem_p"
  by (simp add: NewPersistence_def mem_bolt_def mem_p_def bucketName_def)

lemma mem_p_ok: "wal_ok mem_p" "p_inv mem_p" "reqs_good mem_p" "storable demo_event"
  using mem_bolt_ok NewPersistence_inv [OF mem_p_new]
  by (simp_all add: wal_ok_def mem_p_def reqs_good_def in_hand_def storable_def demo_event_def
      valid_utf8_ascii) (simp_all add: mem_bolt_def)

lemma NewPersistence_wal:
  assumes "NewPersistence b mkdir (Inr d) pth = Inr p" and "bolt_ok b"
  shows "bolt p = b \<and> reqs_good p \<and> HasBucket b bucketName (disk p) \<and>
         ForEach b bucketName (disk p) = (if HasBucket b bucketName d then ForEach b bucketName d else [])"
proof -
  obtain d' where u: "Update b (CreateBucketIfNotExists b bucketName) d = (None, d')"
      and p: "bolt p = b" "disk p = d'" "in_hand p = []" "writeCh p = []"
    using assms(1) by (auto simp: NewPersistence_def in_hand_def split: option.splits prod.splits)
  have "CreateBucketIfNotExists b bucketName d = Inr d'" using bolt_UpdateD [OF assms(2) u] by simp
  then show ?thesis using assms(2) p by (auto simp: bolt_ok_def reqs_good_def)
qed


section \<open>Properties\<close>

text \<open>
  C13. No interleaving of enqueues, removals, result readers, the writer and any number of
  \<open>Close\<close> calls panics or sends twice on a result channel: nothing is sent on the closed
  write channel and no channel is closed twice. The database is closed only after the writer
  has ended, and the write buffer keeps its bound.
\<close>

theorem persistence_no_panic:
  assumes "NewPersistence b mkdir open_res pth = Inr p"
  shows "\<exists>q. p_run as p = Some q \<and> length (writeCh q) \<le> 1000 \<and>
             (db_closed q \<longrightarrow> writing q = W_exited \<and> closed q)"
proof -
  obtain q where "p_run as p = Some q" "p_inv q"
    using p_run_inv [OF NewPersistence_inv [OF assms]] by blast
  then show ?thesis by (auto simp: p_inv_def phase_inv_def writeBufferSize_def)
qed

theorem persistence_no_panic_witness:
  "\<exists>q. p_run [A_enqueue demo_event, A_close, A_closer, A_enqueue demo_event, A_close, A_writer] mem_p = Some q
       \<and> length (writeCh q) \<le> 1000"
  using persistence_no_panic [OF mem_p_new] by blast

text \<open>
  C14. Every enqueued event gets exactly one answer: never more than one, and one for each
  once \<open>Close\<close> has finished. The answer is \<open>nil\<close> only if the event was committed to
  the log.
\<close>

theorem persistence_answers:
  assumes "NewPersistence b mkdir open_res pth = Inr p0" and "p_run as p0 = Some p"
    and "c < length (concat (map offered as))"
  shows "c < length (errChs p) \<and>
         length (ch_got (errChs p ! c) @ ch_buf (errChs p ! c)) \<le> 1 \<and>
         (db_closed p \<longrightarrow> length (ch_got (errChs p ! c) @ ch_buf (errChs p ! c)) = 1) \<and>
         (None \<in> set (ch_got (errChs p ! c) @ ch_buf (errChs p ! c)) \<longrightarrow>
            Wrote (concat (map offered as) ! c) \<in> set (run_ops as p0))"
proof -
  have inv: "p_inv p0" by (rule NewPersistence_inv [OF assms(1)])
  then have p: "p_inv p" using p_run_inv [OF inv, of as] assms(2) by simp
  have "errChs p0 = [] \<and> writing p0 = W_recv \<and> writeCh p0 = []"
    using assms(1) by (auto simp: NewPersistence_def split: option.splits sum.splits prod.splits)
  then have "ans_inv [] [] p0" by (simp add: ans_inv_def in_hand_def)
  then have ans: "ans_inv (concat (map offered as)) (run_ops as p0) p"
    using p_run_answers [OF inv _ assms(2)] by fastforce
  then have l: "c < length (errChs p)" using assms(3) by (simp add: ans_inv_def)
  then have ok: "chan_ok (errChs p ! c)" using p by (auto simp: p_inv_def chans_inv_def Let_def)
  have "open_chans p = {}" if "db_closed p"
    using p that by (auto simp: p_inv_def phase_inv_def chans_inv_def Let_def in_hand_def)
  then have "db_closed p \<longrightarrow> ch_closed (errChs p ! c)" using l by (auto simp: open_chans_def)
  then show ?thesis using l ok ans assms(3) by (auto simp: chan_ok_def ans_inv_def split: if_splits)
qed

lemmas p_eval = p_step_def EnqueueAsync_def writeLoop_def answer_def new_chan_def Close_def
  closer_step_def Let_def writeBufferSize_def write_event_def put_event_def receive_def

lemma mem_write:
  "write_event demo_event mem_p =
     (None, mem_p\<lparr>disk := [(bucketName, [(event_key 7, marshal demo_event)])]\<rparr>)"
  by (simp add: write_event_def put_event_def mem_p_def mem_bolt_def demo_event_def)

definition demo_actions :: "p_action list" where
  "demo_actions = [A_enqueue demo_event, A_close, A_closer, A_writer, A_writer, A_writer, A_writer,
                   A_closer, A_closer]"

theorem persistence_answers_witness:
  "\<exists>p. p_run demo_actions mem_p = Some p \<and> db_closed p \<and>
       length (ch_got (errChs p ! 0) @ ch_buf (errChs p ! 0)) = 1"
proof -
  let ?p = "mem_p\<lparr>closed := True, writeCh_closed := True, writing := W_exited, closing := C_done,
     db_closed := True, errChs := [\<lparr>ch_buf = [Some is_closed_error], ch_got = [], ch_closed = True\<rparr>]\<rparr>"
  have run: "p_run demo_actions mem_p = Some ?p" by (simp add: p_eval mem_p_def demo_actions_def)
  from persistence_answers [OF mem_p_new this, of 0] show ?thesis
    using run by (auto simp: demo_actions_def)
qed

text \<open>
  C5. Recovery after a crash: whatever the interleaving before it, reopening the database on
  the contents of the disk and recovering yields exactly the events written and not removed
  since, each once, and \<open>Count\<close> is their number.
\<close>

theorem persistence_recovery:
  assumes "NewPersistence b mkdir (Inr d) pth = Inr p0" and "bolt_ok b" and "wal_ok p0"
    and "list_all good_action as" and "p_run as p0 = Some p"
    and "NewPersistence b mkdir' (Inr (disk p)) pth = Inr p'" and "Recover p' = Inr es"
  shows "distinct (map EventID es) \<and>
         set es = ran (foldl apply_op (contents p0) (run_ops as p0)) \<and>
         (\<forall>n. Count p' = Inr n \<longrightarrow> n = int (length es))"
proof -
  have inv: "p_inv p0" by (rule NewPersistence_inv [OF assms(1)])
  have lg: "wal_ok p" "contents p = foldl apply_op (contents p0) (run_ops as p0)"
    using p_run_log [OF inv assms(3) _ assms(4,5)] NewPersistence_wal [OF assms(1,2)]
    by (auto simp: log_step_def)
  have bp: "bolt p = b"
    using p_run_bolt [OF assms(5)] NewPersistence_wal [OF assms(1,2)] by simp
  note new = NewPersistence_wal [OF assms(6,2)]
  have e: "entries p' = entries p" using new lg(1) bp by (auto simp: wal_ok_def)
  have "contents p' = contents p" using e by (simp add: contents_def fun_eq_iff)
  moreover have "wal_ok p'" using new lg(1) bp e assms(2) by (simp add: wal_ok_def)
  ultimately show ?thesis
    using wal.recover_law [OF _ assms(7)] wal.recover_ran [OF _ assms(7)] wal.count_law [OF _ _ assms(7)]
      lg(2) by simp
qed

lemma mem_recover:
  assumes "p = mem_p\<lparr>disk := [(bucketName, [(event_key 7, marshal demo_event)])]\<rparr>"
  shows "Recover p = Inr [demo_event]"
  using unmarshal_marshal [of demo_event] mem_p_ok(4)
  by (simp add: assms Recover_def mem_p_def mem_bolt_def no_bucket_def storable_def map_filter_simps
      clearjunk.simps)

theorem persistence_recovery_witness:
  "set [demo_event] =
     ran (foldl apply_op (contents mem_p)
       (run_ops [A_enqueue demo_event, A_writer, A_writer, A_writer] mem_p))"
proof -
  let ?as = "[A_enqueue demo_event, A_writer, A_writer, A_writer]"
  let ?d = "[(bucketName, [(event_key 7, marshal demo_event)])]"
  let ?p = "mem_p\<lparr>disk := ?d, writing := W_send \<lparr>event = demo_event, errCh = 0\<rparr> None, errChs := [new_chan]\<rparr>"
  have run: "p_run ?as mem_p = Some ?p"
    by (simp add: p_eval mem_p_def mem_bolt_def demo_event_def)
  have re: "NewPersistence mem_bolt None (Inr (disk ?p)) ''q.db'' = Inr (mem_p\<lparr>disk := ?d\<rparr>)"
    by (simp add: NewPersistence_def mem_bolt_def mem_p_def)
  have "list_all good_action ?as" using mem_p_ok(4) by (simp add: good_action_def)
  then show ?thesis
    using persistence_recovery [OF mem_p_new mem_bolt_ok mem_p_ok(1) _ run re mem_recover [OF refl]]
    by blast
qed

text \<open>
  C29. The synchronous \<open>Enqueue\<close> returns once the writer has worked off what is before it
  in the buffer, and when it returns \<open>nil\<close> the event is in the log.
\<close>

theorem Enqueue_durable:
  assumes "p_inv p" and "wal_ok p" and "reqs_good p" and "storable e"
    and "4 * length (writeCh p) + 7 \<le> n"
  shows "\<exists>r q. Enqueue n e p = Some (r, q) \<and> (r = None \<longrightarrow> contents q (EventID e) = Some e)"
proof -
  have ph: "phase_inv p" using assms(1) by (simp add: p_inv_def)
  show ?thesis
  proof (cases rule: EnqueueAsync_cases [OF ph, of e, case_names refused queued])
    case (refused x)
    then show ?thesis using Enqueue_refused [OF assms(1), of e x n] by blast
  next
    case queued
    show ?thesis by (rule Enqueue_queued [OF assms queued(3)])
  qed
qed

theorem Enqueue_durable_witness:
  "\<exists>q. Enqueue 7 demo_event mem_p = Some (None, q) \<and> contents q 7 = Some demo_event"
proof -
  have seven: "7 = Suc (Suc (Suc (Suc (Suc (Suc (Suc 0))))))" by simp
  have "fst (the (Enqueue 7 demo_event mem_p)) = None"
    unfolding seven by (simp add: Enqueue_def p_eval mem_p_def mem_bolt_def)
  moreover have "4 * length (writeCh mem_p) + 7 \<le> 7" by (simp add: mem_p_def)
  ultimately show ?thesis
    using Enqueue_durable [OF mem_p_ok(2,1,3,4), of 7] by (force simp: demo_event_def)
qed

text \<open>
  \<open>Close\<close> does not flush the write buffer: once it has set its flag, at most the one
  write that the writer had already begun still reaches the log, whatever happens next, and
  the buffered requests are turned away.
\<close>

theorem Close_stops_writes:
  assumes "p_run as (Close p) = Some q"
  shows "length (run_ops as (Close p)) \<le> (if updating p then 1 else 0)"
proof -
  have c: "closed (Close p)" by (simp add: Close_def)
  have "updating (Close p) = updating p" by (simp add: Close_def updating_def)
  then show ?thesis using closed_run [OF c assms] by simp
qed

theorem Close_stops_writes_witness:
  "\<exists>p q. p_run [A_enqueue demo_event] mem_p = Some p \<and>
         p_run [A_writer, A_writer, A_writer] (Close p) = Some q \<and>
         run_ops [A_writer, A_writer, A_writer] (Close p) = [] \<and>
         ch_buf (errChs q ! 0) = [Some is_closed_error]"
proof -
  let ?p = "mem_p\<lparr>errChs := [new_chan], writeCh := [\<lparr>event = demo_event, errCh = 0\<rparr>]\<rparr>"
  let ?q = "mem_p\<lparr>closed := True, closing := C_marked,
              errChs := [\<lparr>ch_buf = [Some is_closed_error], ch_got = [], ch_closed = True\<rparr>]\<rparr>"
  have p: "p_run [A_enqueue demo_event] mem_p = Some ?p" by (simp add: p_eval mem_p_def)
  have q: "p_run [A_writer, A_writer, A_writer] (Close ?p) = Some ?q"
    by (simp add: p_eval mem_p_def)
  have "\<not> updating ?p" by (simp add: updating_def mem_p_def)
  then have "run_ops [A_writer, A_writer, A_writer] (Close ?p) = []"
    using Close_stops_writes [OF q] by simp
  with p q show ?thesis by (intro exI [of _ ?p] exI [of _ ?q]) simp
qed

text \<open>
  C30. The stored form of an event decodes to the event, and events with different identifiers
  have different keys.
\<close>

theorem event_codec_roundtrip:
  assumes "valid_utf8 (EventType e)"
  shows "unmarshal (marshal e) = Some e \<and> (event_key (EventID e) = event_key j \<longleftrightarrow> EventID e = j)"
  using unmarshal_marshal [OF assms] by simp

theorem event_codec_roundtrip_witness:
  "unmarshal (marshal demo_event) = Some demo_event"
  using event_codec_roundtrip [of demo_event] mem_p_ok(4) by (simp add: storable_def)

end
