(* ===== verification/Models.thy ===== *)
theory Models
  imports Go_Prelude
begin

text \<open>
  The data types of \<open>src/internal/models/event.go\<close> and \<open>src/internal/models/stats.go\<close>.
  A byte slice that may be \<open>nil\<close> is a \<open>string option\<close>; a \<open>time.Time\<close> is its
  distance from the Unix epoch in nanoseconds; a Go \<open>uint\<close> is a 64-bit word.
\<close>

type_synonym uint = "64 word"

record Event =
  ID :: int64
  ev_UserID :: int64
  TypeID :: int64
  ev_Timestamp :: int
  ev_Metadata :: "string option"
  Type :: string

record PaginatedEvents =
  Data :: "Event list"
  Page :: uint
  Limit :: uint
  Total :: uint

record CreateEventInput =
  in_UserID :: int64
  in_Type :: string
  in_Metadata :: "string option"

record CachedPaginatedEvents =
  RawJSON :: "string option"
  cp_Data :: "PaginatedEvents option"

text \<open>\<open>len\<close> of a slice: \<open>nil\<close> has length zero.\<close>

definition slice_len :: "string option \<Rightarrow> nat" where
  "slice_len b = (case b of None \<Rightarrow> 0 | Some s \<Rightarrow> length s)"

definition IsCached :: "CachedPaginatedEvents \<Rightarrow> bool" where
  "IsCached c \<longleftrightarrow> slice_len (RawJSON c) > 0"

text \<open>
  A \<open>time.Time\<close> that carries its location, as parsed from a request: the reading of the
  clock on the wall, in nanoseconds as if it were UTC, and the offset from UTC in seconds.
\<close>

record go_time =
  wall :: int
  zone :: int

record GetStatsData =
  From :: "go_time option"
  To :: "go_time option"
  gs_TypeID :: "int64 option"

record Stats =
  TotalEvents :: int
  UniqueUsers :: int
  TopPages :: string

text \<open>The zero value of \<open>time.Time\<close>: 1 January of the year 1.\<close>

definition zero_time :: int where
  "zero_time = - 62135596800 * 1000000000"

end
