(* ===== verification/EventQueue.thy ===== *)
theory EventQueue
  imports Persistence Retry Models
begin

text \<open>
  The asynchronous event queue of \<open>src/internal/queue/event_queue.go\<close>.

  The store that the queue writes to is the interface value of the source: the insert
  operation is an argument, an effect on a state \<open>'s\<close>. Calls of \<open>Enqueue\<close> and
  \<open>Shutdown\<close> and the flush goroutine are cut at the points where another goroutine can
  see the difference, and a run is a list of actions in any order. What a scheduler, a clock or
  a retry decides is part of an action.
\<close>


section \<open>Configuration, results and state\<close>

record queue_config =
  MaxSize :: int
  FlushInterval :: int
  BatchSize :: int
  PersistencePath :: string
  RetryConfig :: retry_config
  DeadLetterQueueSize :: int

definition DefaultQueueConfig :: queue_config where
  "DefaultQueueConfig =
     \<lparr>MaxSize = 50000, FlushInterval = 50 * ms, BatchSize = 500,
      PersistencePath = ''/data/pending_events.db'', RetryConfig = DefaultConfig,
      DeadLetterQueueSize = 1000\<rparr>"

record EnqueueResult =
  er_EventID :: int64
  QueuedAt :: int
  QueueDepth :: int
  er_Error :: "go_error option"

definition enqueue_error :: "go_error \<Rightarrow> EnqueueResult" where
  "enqueue_error e = \<lparr>er_EventID = 0, QueuedAt = zero_time, QueueDepth = 0, er_Error = Some e\<rparr>"

record queue_Stats =
  CurrentDepth :: int
  MaxDepth :: int
  TotalEnqueued :: int
  TotalFlushed :: int
  TotalFailed :: int
  DeadLetterCount :: int
  PersistencePending :: int
  LastFlushAt :: int

text \<open>
  Where a call of \<open>Enqueue\<close> stands. \<open>E_count\<close> and \<open>E_max\<close> are inside the critical
  section of \<open>enqueueMu\<close>, after the send.
\<close>

datatype enqueue_call =
    E_check int64 string "string option" int64
  | E_depth int64 string "string option" int64
  | E_persist PendingEvent
  | E_send PendingEvent
  | E_count PendingEvent
  | E_max PendingEvent int
  | E_return EnqueueResult

fun locked :: "enqueue_call \<Rightarrow> bool" where
  "locked (E_count _) = True"
| "locked (E_max _ _) = True"
| "locked _ = False"

text \<open>
  The flush goroutine. The flag says whether it drains the channel for the shutdown and ends
  after the flush. \<open>F_remove\<close> and \<open>F_account\<close> are the parts of \<open>flush\<close> after the
  insert; they carry the identifiers of the batch, those to remove, and the numbers of failed
  events and dead letters.
\<close>

datatype flusher =
    F_none
  | F_select "PendingEvent list"
  | F_got bool "PendingEvent list"
  | F_drain "PendingEvent list"
  | F_insert bool "PendingEvent list"
  | F_remove bool "int64 list" "int64 list" int int
  | F_account bool "int64 list" int int
  | F_exited

datatype shutdown_call = S_none | S_signal | S_wait | S_cancel | S_close | S_done

record ('s, 'db) EventQueue =
  config :: queue_config
  store :: 's
  persistence :: "'db Persistence option"
  eventCh :: "PendingEvent list"
  signalled :: bool
  ctx_cancelled :: bool
  currentDepth :: int
  maxDepth :: int
  totalEnqueued :: int
  totalFlushed :: int
  totalFailed :: int
  lastFlushAt :: int
  dlq :: "Event DeadLetterQueue"
  started :: bool
  stopped :: bool
  enq_calls :: "enqueue_call list"
  flush_at :: flusher
  shutdown_at :: shutdown_call


section \<open>Construction and start\<close>

text \<open>
  \<open>mkdir\<close> and \<open>open_res\<close> are what the file system reports to \<open>NewPersistence\<close>. The
  outer \<open>None\<close> is the panic of \<open>make\<close> on a negative capacity.
\<close>

definition NewEventQueue ::
  "'db bolt \<Rightarrow> go_error option \<Rightarrow> go_error + 'db \<Rightarrow> 's \<Rightarrow> queue_config
   \<Rightarrow> (go_error + ('s, 'db) EventQueue) option" where
  "NewEventQueue b mkdir open_res s cfg =
     (if MaxSize cfg \<le> 0 then Some (Inl (Errorf ''max size must be positive''))
      else if BatchSize cfg \<le> 0 then Some (Inl (Errorf ''batch size must be positive''))
      else if BatchSize cfg > MaxSize cfg then Some (Inl (Errorf ''batch size cannot exceed max size''))
      else if FlushInterval cfg \<le> 0 then Some (Inl (Errorf ''flush interval must be positive''))
      else case NewDeadLetterQueue (DeadLetterQueueSize cfg) of
        None \<Rightarrow> None
      | Some q \<Rightarrow>
          let eq = (\<lambda>p. \<lparr>config = cfg, store = s, persistence = p, eventCh = [], signalled = False,
                         ctx_cancelled = False, currentDepth = 0, maxDepth = 0, totalEnqueued = 0,
                         totalFlushed = 0, totalFailed = 0, lastFlushAt = 0, dlq = q,
                         started = False, stopped = False, enq_calls = [], flush_at = F_none,
                         shutdown_at = S_none\<rparr>)
          in if PersistencePath cfg = [] then Some (Inr (eq None))
             else case NewPersistence b mkdir open_res (PersistencePath cfg) of
               Inl e \<Rightarrow> Some (Inl (Wrap ''failed to create persistence: '' e ''''))
             | Inr p \<Rightarrow> Some (Inr (eq (Some p))))"

text \<open>
  The recovery loop of \<open>Start\<close>: a send into the channel, or a timeout when it is full (the
  flush goroutine does not run yet).
\<close>

fun requeue :: "PendingEvent list \<Rightarrow> ('s, 'db) EventQueue \<Rightarrow> ('s, 'db) EventQueue" where
  "requeue [] eq = eq"
| "requeue (e # es) eq =
     requeue es
       (if int (length (eventCh eq)) < MaxSize (config eq)
        then eq\<lparr>eventCh := eventCh eq @ [e], totalEnqueued := totalEnqueued eq + 1\<rparr>
        else eq)"

definition Start :: "('s, 'db) EventQueue \<Rightarrow> go_error option \<times> ('s, 'db) EventQueue" where
  "Start eq =
     (if started eq then (Some ErrQueueAlreadyStarted, eq)
      else let eq1 = eq\<lparr>started := True\<rparr> in
        case persistence eq of
          None \<Rightarrow> (None, eq1\<lparr>flush_at := F_select []\<rparr>)
        | Some p \<Rightarrow>
            (case Recover p of
               Inl e \<Rightarrow> (Some (Wrap ''failed to recover pending events: '' e ''''), eq1)
             | Inr es \<Rightarrow> (None, (requeue es eq1)\<lparr>flush_at := F_select []\<rparr>)))"


section \<open>Enqueue\<close>

definition full_error :: "int \<Rightarrow> int \<Rightarrow> go_error" where
  "full_error depth mx =
     Wrap '''' ErrQueueFull ('' (depth='' @ fmt_d depth @ '', max='' @ fmt_d mx @ '')'')"

definition set_call :: "nat \<Rightarrow> enqueue_call \<Rightarrow> ('s, 'db) EventQueue \<Rightarrow> ('s, 'db) EventQueue" where
  "set_call k c eq = eq\<lparr>enq_calls := (enq_calls eq)[k := c]\<rparr>"

definition lock_free :: "('s, 'db) EventQueue \<Rightarrow> bool" where
  "lock_free eq \<longleftrightarrow> list_all (\<lambda>c. \<not> locked c) (enq_calls eq)"

text \<open>
  One step of call \<open>k\<close> of \<open>Enqueue\<close> at time \<open>now\<close>. A call that waits for the mutex
  stays where it is. \<open>None\<close> is a panic.
\<close>

definition Enqueue_step ::
  "nat \<Rightarrow> int64 \<Rightarrow> ('s, 'db) EventQueue \<Rightarrow> ('s, 'db) EventQueue option" where
  "Enqueue_step k now eq =
     (if length (enq_calls eq) \<le> k then Some eq
      else case enq_calls eq ! k of
        E_check u t m i \<Rightarrow>
          if \<not> lock_free eq then Some eq
          else if stopped eq then Some (set_call k (E_return (enqueue_error ErrQueueStopped)) eq)
          else Some (set_call k (E_depth u t m i) eq)
      | E_depth u t m i \<Rightarrow>
          if currentDepth eq \<ge> MaxSize (config eq)
          then Some (set_call k (E_return (enqueue_error
                 (full_error (currentDepth eq) (MaxSize (config eq))))) eq)
          else Some (set_call k (E_persist \<lparr>EventID = i, UserID = u, EventType = t, Metadata = m,
                 EnqueuedAt = now\<rparr>) eq)
      | E_persist e \<Rightarrow>
          (case persistence eq of
             None \<Rightarrow> Some (set_call k (E_send e) eq)
           | Some p \<Rightarrow>
               (case EnqueueAsync e p of
                  None \<Rightarrow> None
                | Some (p', _) \<Rightarrow> Some (set_call k (E_send e) (eq\<lparr>persistence := Some p'\<rparr>))))
      | E_send e \<Rightarrow>
          if \<not> lock_free eq then Some eq
          else if int (length (eventCh eq)) < MaxSize (config eq)
          then Some (set_call k (E_count e) (eq\<lparr>eventCh := eventCh eq @ [e]\<rparr>))
          else Some (set_call k (E_return (enqueue_error ErrQueueChannelFull)) eq)
      | E_count e \<Rightarrow>
          Some (set_call k (E_max e (currentDepth eq + 1))
            (eq\<lparr>totalEnqueued := totalEnqueued eq + 1, currentDepth := currentDepth eq + 1\<rparr>))
      | E_max e d \<Rightarrow>
          Some (set_call k (E_return \<lparr>er_EventID = EventID e, QueuedAt = sint (EnqueuedAt e),
                                      QueueDepth = d, er_Error = None\<rparr>)
            (eq\<lparr>maxDepth := max (maxDepth eq) d\<rparr>))
      | E_return r \<Rightarrow> Some eq)"


section \<open>The flush\<close>

definition model_event :: "PendingEvent \<Rightarrow> Event" where
  "model_event p =
     \<lparr>ID = EventID p, ev_UserID = UserID p, TypeID = 0, ev_Timestamp = zero_time,
      ev_Metadata = Metadata p, Type = EventType p\<rparr>"

definition batchInsertWrapper :: "(Event list \<Rightarrow> 's effect) \<Rightarrow> Event list \<Rightarrow> 's effect" where
  "batchInsertWrapper ins events = ins events"

definition insertSingleWrapper :: "(Event list \<Rightarrow> 's effect) \<Rightarrow> Event \<Rightarrow> 's effect" where
  "insertSingleWrapper ins ev = ins [ev]"

text \<open>
  The identifiers to remove from persistence, from the identifiers of the batch, the number of
  new dead letters and the contents of the dead letter queue.
\<close>

definition idsToRemove :: "int64 list \<Rightarrow> int \<Rightarrow> Event DeadLetterEvent list \<Rightarrow> int64 list" where
  "idsToRemove eventIDs failed dlqEvents =
     (if failed = 0 then eventIDs
      else if failed < int (length eventIDs) then
        let startIdx = max 0 (int (length dlqEvents) - failed);
            failedIDs = map (\<lambda>l. ID (Event l)) (drop (nat startIdx) dlqEvents)
        in filter (\<lambda>i. i \<notin> set failedIDs) eventIDs
      else [])"

text \<open>
  The first part of \<open>flush\<close>: the batch insert with retries. The result carries the
  identifiers of the batch, those to remove, the number of failed events and the number of dead
  letters; \<open>None\<close>: the retries have not ended.
\<close>

definition flush_insert ::
  "(Event list \<Rightarrow> 's effect) \<Rightarrow> batch_env \<Rightarrow> PendingEvent list \<Rightarrow> ('s, 'db) EventQueue
   \<Rightarrow> ((int64 list \<times> int64 list \<times> int \<times> int) \<times> ('s, 'db) EventQueue) option" where
  "flush_insert ins env events eq =
     (case BatchRetry env (RetryConfig (config eq)) (map model_event events)
             (batchInsertWrapper ins) (insertSingleWrapper ins) (store eq) (dlq eq) of
        None \<Rightarrow> None
      | Some (s', q') \<Rightarrow>
          let eventIDs = map EventID events; after = int (Len q'); failed = after - int (Len (dlq eq))
          in Some ((eventIDs, idsToRemove eventIDs failed (GetAll q'), failed, after),
                   eq\<lparr>store := s', dlq := q'\<rparr>))"

text \<open>The second part: the removal; an error of \<open>Remove\<close> is logged.\<close>

definition flush_remove :: "int64 list \<Rightarrow> ('s, 'db) EventQueue \<Rightarrow> ('s, 'db) EventQueue" where
  "flush_remove ids eq =
     (case persistence eq of
        Some p \<Rightarrow> if ids \<noteq> [] then eq\<lparr>persistence := Some (snd (Remove ids p))\<rparr> else eq
      | None \<Rightarrow> eq)"

definition flush_account ::
  "int64 list \<Rightarrow> int \<Rightarrow> int \<Rightarrow> int \<Rightarrow> ('s, 'db) EventQueue \<Rightarrow> ('s, 'db) EventQueue" where
  "flush_account eventIDs failed after now eq =
     eq\<lparr>totalFlushed := totalFlushed eq + (int (length eventIDs) - failed),
        lastFlushAt := now, totalFailed := after\<rparr>"

definition flush ::
  "(Event list \<Rightarrow> 's effect) \<Rightarrow> batch_env \<Rightarrow> int \<Rightarrow> PendingEvent list \<Rightarrow> ('s, 'db) EventQueue
   \<Rightarrow> ('s, 'db) EventQueue option" where
  "flush ins env now events eq =
     (if events = [] then Some eq
      else case flush_insert ins env events eq of
        None \<Rightarrow> None
      | Some ((eventIDs, ids, failed, after), eq1) \<Rightarrow>
          Some (flush_account eventIDs failed after now (flush_remove ids eq1)))"

text \<open>
  The branches of the \<open>select\<close> of \<open>flushLoop\<close>: an event, a tick, the shutdown signal.
  A branch that is not ready leaves the state alone.
\<close>

definition loop_recv :: "('s, 'db) EventQueue \<Rightarrow> ('s, 'db) EventQueue" where
  "loop_recv eq =
     (case (flush_at eq, eventCh eq) of
        (F_select batch, e # rest) \<Rightarrow> eq\<lparr>eventCh := rest, flush_at := F_got False (batch @ [e])\<rparr>
      | (F_drain batch, e # rest) \<Rightarrow> eq\<lparr>eventCh := rest, flush_at := F_got True (batch @ [e])\<rparr>
      | (F_drain batch, []) \<Rightarrow>
          eq\<lparr>flush_at := if batch = [] then F_exited else F_insert True batch\<rparr>
      | _ \<Rightarrow> eq)"

definition loop_tick :: "('s, 'db) EventQueue \<Rightarrow> ('s, 'db) EventQueue" where
  "loop_tick eq =
     (case flush_at eq of
        F_select batch \<Rightarrow> if batch \<noteq> [] then eq\<lparr>flush_at := F_insert False batch\<rparr> else eq
      | _ \<Rightarrow> eq)"

definition loop_signal :: "('s, 'db) EventQueue \<Rightarrow> ('s, 'db) EventQueue" where
  "loop_signal eq =
     (case flush_at eq of
        F_select batch \<Rightarrow> if signalled eq then eq\<lparr>flush_at := F_drain batch\<rparr> else eq
      | _ \<Rightarrow> eq)"

text \<open>The goroutine after it has received an event or begun a flush.\<close>

definition loop_step ::
  "(Event list \<Rightarrow> 's effect) \<Rightarrow> batch_env \<Rightarrow> int \<Rightarrow> ('s, 'db) EventQueue \<Rightarrow> ('s, 'db) EventQueue" where
  "loop_step ins env now eq =
     (case flush_at eq of
        F_got draining batch \<Rightarrow>
          let eq1 = eq\<lparr>currentDepth := currentDepth eq - 1\<rparr> in
          if draining then eq1\<lparr>flush_at := F_drain batch\<rparr>
          else if int (length batch) \<ge> BatchSize (config eq)
          then eq1\<lparr>flush_at := F_insert False batch\<rparr>
          else eq1\<lparr>flush_at := F_select batch\<rparr>
      | F_insert ending batch \<Rightarrow>
          (case flush_insert ins env batch eq of
             None \<Rightarrow> eq
           | Some ((eventIDs, ids, failed, after), eq1) \<Rightarrow>
               eq1\<lparr>flush_at := F_remove ending eventIDs ids failed after\<rparr>)
      | F_remove ending eventIDs ids failed after \<Rightarrow>
          (flush_remove ids eq)\<lparr>flush_at := F_account ending eventIDs failed after\<rparr>
      | F_account ending eventIDs failed after \<Rightarrow>
          (flush_account eventIDs failed after now eq)
            \<lparr>flush_at := if ending then F_exited else F_select []\<rparr>
      | _ \<Rightarrow> eq)"


section \<open>Shutdown and statistics\<close>

text \<open>
  \<open>Shutdown\<close>: the first call goes through, any other returns an error. The rest of the first
  call is \<open>Shutdown_step\<close>; the flag says whether the timer fires while it waits.
\<close>

definition Shutdown :: "('s, 'db) EventQueue \<Rightarrow> go_error option \<times> ('s, 'db) EventQueue" where
  "Shutdown eq =
     (if stopped eq then (Some ErrQueueAlreadyStopped, eq)
      else (None, eq\<lparr>stopped := True, shutdown_at := S_signal\<rparr>))"

definition Shutdown_step :: "bool \<Rightarrow> ('s, 'db) EventQueue \<Rightarrow> ('s, 'db) EventQueue option" where
  "Shutdown_step timeout eq =
     (case shutdown_at eq of
        S_signal \<Rightarrow>
          if \<not> lock_free eq then Some eq
          else if signalled eq then None
          else Some (eq\<lparr>signalled := True, shutdown_at := S_wait\<rparr>)
      | S_wait \<Rightarrow>
          if flush_at eq \<in> {F_none, F_exited} \<or> timeout then Some (eq\<lparr>shutdown_at := S_cancel\<rparr>)
          else Some eq
      | S_cancel \<Rightarrow>
          Some (eq\<lparr>ctx_cancelled := True, persistence := map_option Close (persistence eq),
                   shutdown_at := S_close\<rparr>)
      | S_close \<Rightarrow>
          (case persistence eq of
             None \<Rightarrow> Some (eq\<lparr>shutdown_at := S_done\<rparr>)
           | Some p \<Rightarrow>
               if closing p = C_done then Some (eq\<lparr>shutdown_at := S_done\<rparr>)
               else (case closer_step p of
                       None \<Rightarrow> None
                     | Some p' \<Rightarrow> Some (eq\<lparr>persistence := Some p'\<rparr>)))
      | _ \<Rightarrow> Some eq)"

definition GetStats_eq :: "('s, 'db) EventQueue \<Rightarrow> queue_Stats" where
  "GetStats_eq eq =
     \<lparr>CurrentDepth = currentDepth eq, MaxDepth = maxDepth eq, TotalEnqueued = totalEnqueued eq,
      TotalFlushed = totalFlushed eq, TotalFailed = totalFailed eq,
      DeadLetterCount = int (Len (dlq eq)),
      PersistencePending =
        (case persistence eq of
           None \<Rightarrow> 0
         | Some p \<Rightarrow> (case Count p of Inl _ \<Rightarrow> 0 | Inr n \<Rightarrow> n)),
      LastFlushAt = (if lastFlushAt eq > 0 then lastFlushAt eq else zero_time)\<rparr>"

definition IsStarted :: "('s, 'db) EventQueue \<Rightarrow> bool" where "IsStarted eq = started eq"
definition IsStopped :: "('s, 'db) EventQueue \<Rightarrow> bool" where "IsStopped eq = stopped eq"

section \<open>Interleavings\<close>

text \<open>
  The actions: the calls of the application, one step of call number \<open>k\<close> of \<open>Enqueue\<close>,
  the branches and steps of the flush goroutine, the steps of \<open>Shutdown\<close>, and the
  background goroutines of persistence. \<open>Start\<close> is one action: the service calls it before
  it accepts requests.
\<close>

datatype q_action =
    Q_start
  | Q_enqueue int64 string "string option" int64
  | Q_call nat int64
  | Q_recv
  | Q_tick
  | Q_signal
  | Q_loop batch_env int
  | Q_shutdown
  | Q_shut bool
  | Q_writer
  | Q_reader nat

definition q_step ::
  "(Event list \<Rightarrow> 's effect) \<Rightarrow> q_action \<Rightarrow> ('s, 'db) EventQueue \<Rightarrow> ('s, 'db) EventQueue option" where
  "q_step ins a eq =
     (case a of
        Q_start \<Rightarrow> Some (snd (Start eq))
      | Q_enqueue u t m i \<Rightarrow> Some (eq\<lparr>enq_calls := enq_calls eq @ [E_check u t m i]\<rparr>)
      | Q_call k now \<Rightarrow> Enqueue_step k now eq
      | Q_recv \<Rightarrow> Some (loop_recv eq)
      | Q_tick \<Rightarrow> Some (loop_tick eq)
      | Q_signal \<Rightarrow> Some (loop_signal eq)
      | Q_loop env now \<Rightarrow> Some (loop_step ins env now eq)
      | Q_shutdown \<Rightarrow> Some (snd (Shutdown eq))
      | Q_shut timeout \<Rightarrow> Shutdown_step timeout eq
      | Q_writer \<Rightarrow>
          (case persistence eq of
             None \<Rightarrow> Some eq
           | Some p \<Rightarrow> map_option (\<lambda>p'. eq\<lparr>persistence := Some p'\<rparr>) (writeLoop p))
      | Q_reader c \<Rightarrow>
          (case persistence eq of
             None \<Rightarrow> Some eq
           | Some p \<Rightarrow> (case receive c p of
                         None \<Rightarrow> Some eq
                       | Some (r, p') \<Rightarrow> Some (eq\<lparr>persistence := Some p'\<rparr>))))"

fun q_run ::
  "(Event list \<Rightarrow> 's effect) \<Rightarrow> q_action list \<Rightarrow> ('s, 'db) EventQueue \<Rightarrow> ('s, 'db) EventQueue option" where
  "q_run ins [] eq = Some eq"
| "q_run ins (a # as) eq = (case q_step ins a eq of None \<Rightarrow> None | Some eq' \<Rightarrow> q_run ins as eq')"

lemma q_run_append:
  "q_run ins (as @ bs) eq = (case q_run ins as eq of None \<Rightarrow> None | Some eq' \<Rightarrow> q_run ins bs eq')"
  by (induction as arbitrary: eq) (auto split: option.splits)


section \<open>The invariant\<close>

text \<open>The batch in the hands of the flush goroutine, not yet given to the store.\<close>

fun batch_of :: "flusher \<Rightarrow> PendingEvent list" where
  "batch_of (F_select b) = b"
| "batch_of (F_got _ b) = b"
| "batch_of (F_drain b) = b"
| "batch_of (F_insert _ b) = b"
| "batch_of _ = []"

text \<open>Whether the flush goroutine is past the drain of the channel.\<close>

fun ending :: "flusher \<Rightarrow> bool" where
  "ending (F_insert e _) = e"
| "ending (F_remove e _ _ _ _) = e"
| "ending (F_account e _ _ _) = e"
| "ending F_exited = True"
| "ending _ = False"

fun draining :: "flusher \<Rightarrow> bool" where
  "draining (F_got d _) = d"
| "draining (F_drain _) = True"
| "draining f = ending f"

fun batch_bound :: "int \<Rightarrow> flusher \<Rightarrow> bool" where
  "batch_bound n (F_select b) = (int (length b) < n)"
| "batch_bound n (F_got d b) = (d \<or> int (length b) \<le> n)"
| "batch_bound n (F_insert d b) = (b \<noteq> [] \<and> (d \<or> int (length b) \<le> n))"
| "batch_bound n _ = True"

definition config_ok :: "queue_config \<Rightarrow> bool" where
  "config_ok c \<longleftrightarrow> 0 < BatchSize c \<and> BatchSize c \<le> MaxSize c \<and> 0 < FlushInterval c"

definition loop_inv :: "('s, 'db) EventQueue \<Rightarrow> bool" where
  "loop_inv eq \<longleftrightarrow>
     config_ok (config eq) \<and> int (length (eventCh eq)) \<le> MaxSize (config eq) \<and>
     batch_bound (BatchSize (config eq)) (flush_at eq) \<and>
     (\<not> started eq \<longrightarrow> flush_at eq = F_none) \<and> (draining (flush_at eq) \<longrightarrow> signalled eq) \<and>
     dlq_inv (dlq eq) \<and> dlq_maxSize (dlq eq) = DeadLetterQueueSize (config eq)"

definition call_inv :: "('s, 'db) EventQueue \<Rightarrow> bool" where
  "call_inv eq \<longleftrightarrow>
     length (filter locked (enq_calls eq)) \<le> 1 \<and>
     (stopped eq \<longleftrightarrow> shutdown_at eq \<noteq> S_none) \<and>
     (signalled eq \<longleftrightarrow> shutdown_at eq \<notin> {S_none, S_signal}) \<and>
     (case persistence eq of None \<Rightarrow> True | Some p \<Rightarrow> p_inv p)"

definition q_inv :: "('s, 'db) EventQueue \<Rightarrow> bool" where
  "q_inv eq \<longleftrightarrow> loop_inv eq \<and> call_inv eq"

lemma NewEventQueue_inv:
  "NewEventQueue b mkdir open_res s cfg = Some (Inr eq) \<Longrightarrow> q_inv eq"
  by (auto simp: NewEventQueue_def q_inv_def loop_inv_def call_inv_def config_ok_def Let_def
      NewDeadLetterQueue_def dlq_inv_def Len_def dest: NewPersistence_inv
      split: if_splits option.splits sum.splits)

lemma Add_maxSize: "dlq_maxSize (Add q e) = dlq_maxSize q"
  by (simp add: Add_def Let_def)

lemma BatchRetry_dlq:
  assumes "BatchRetry env cfg items fn itemFn s q = Some (s', q')" and "dlq_inv q"
  shows "dlq_inv q' \<and> dlq_maxSize q' = dlq_maxSize q"
proof -
  have "(\<lambda>b. dlq_inv (bdlq b) \<and> dlq_maxSize (bdlq b) = dlq_maxSize q)
      (run_sched cfg env itemFn items ks (spawn items t q))" for ks t
  proof (rule run_sched_invariant)
    fix b b' assume "batch_move cfg env itemFn items b b'"
      and "dlq_inv (bdlq b) \<and> dlq_maxSize (bdlq b) = dlq_maxSize q"
    then show "dlq_inv (bdlq b') \<and> dlq_maxSize (bdlq b') = dlq_maxSize q"
      by (induction rule: batch_move.induct) (auto simp: Add_maxSize intro: dlq.ok_add)
  qed (use assms(2) in \<open>simp add: spawn_def\<close>)
  then show ?thesis
    using assms by (auto simp: BatchRetry_def Let_def split: if_splits prod.splits)
qed

lemma flush_insert_frame:
  assumes "flush_insert ins env events eq = Some (x, eq')"
  shows "\<exists>s' q'. eq' = eq\<lparr>store := s', dlq := q'\<rparr> \<and>
           (dlq_inv (dlq eq) \<longrightarrow> dlq_inv q' \<and> dlq_maxSize q' = dlq_maxSize (dlq eq))"
proof -
  obtain s' q' where br: "BatchRetry env (RetryConfig (config eq)) (map model_event events)
      (batchInsertWrapper ins) (insertSingleWrapper ins) (store eq) (dlq eq) = Some (s', q')"
      and eq': "eq' = eq\<lparr>store := s', dlq := q'\<rparr>"
    using assms by (auto simp: flush_insert_def Let_def split: option.splits prod.splits)
  then show ?thesis using BatchRetry_dlq [OF br] by blast
qed

lemma loop_recv_inv: "q_inv eq \<Longrightarrow> q_inv (loop_recv eq)"
  by (cases "flush_at eq"; cases "eventCh eq")
    (auto simp: q_inv_def loop_inv_def call_inv_def loop_recv_def)

lemma loop_tick_inv: "q_inv eq \<Longrightarrow> q_inv (loop_tick eq)"
  by (cases "flush_at eq") (auto simp: q_inv_def loop_inv_def call_inv_def loop_tick_def)

lemma loop_signal_inv: "q_inv eq \<Longrightarrow> q_inv (loop_signal eq)"
  by (cases "flush_at eq") (auto simp: q_inv_def loop_inv_def call_inv_def loop_signal_def)

lemma flush_remove_inv: "call_inv eq \<Longrightarrow> call_inv (flush_remove ids eq)"
  by (auto simp: call_inv_def flush_remove_def Remove_inv split: option.splits)

lemma flush_remove_frame: "\<exists>p. flush_remove ids eq = eq\<lparr>persistence := p\<rparr>"
  by (auto simp: flush_remove_def intro: exI [of _ "persistence eq"] split: option.splits)

lemma loop_step_inv:
  assumes "q_inv eq"
  shows "q_inv (loop_step ins env now eq)"
proof (cases "flush_at eq")
  case (F_got d b)
  then show ?thesis
    using assms by (auto simp: q_inv_def loop_inv_def call_inv_def loop_step_def Let_def config_ok_def)
next
  case (F_insert e b)
  show ?thesis
  proof (cases "flush_insert ins env b eq")
    case None
    then show ?thesis using assms F_insert by (simp add: loop_step_def)
  next
    case (Some xe)
    then obtain i r f n eq1 where x: "flush_insert ins env b eq = Some ((i, r, f, n), eq1)"
      by (cases xe) auto
    then show ?thesis
      using assms F_insert flush_insert_frame [OF x]
      by (auto simp: q_inv_def loop_inv_def call_inv_def loop_step_def)
  qed
next
  case (F_remove e i r f n)
  obtain p where p: "flush_remove r eq = eq\<lparr>persistence := p\<rparr>" using flush_remove_frame by blast
  have "call_inv (eq\<lparr>persistence := p\<rparr>)"
    using flush_remove_inv [of eq r] p assms by (simp add: q_inv_def)
  then show ?thesis
    using assms F_remove p by (auto simp: q_inv_def loop_inv_def call_inv_def loop_step_def)
next
  case (F_account e i f n)
  then show ?thesis
    using assms by (auto simp: q_inv_def loop_inv_def call_inv_def loop_step_def flush_account_def config_ok_def)
qed (use assms in \<open>simp_all add: loop_step_def\<close>)

lemma requeue_eq:
  "int (length (eventCh eq)) \<le> MaxSize (config eq) \<Longrightarrow>
   requeue es eq =
     eq\<lparr>eventCh := eventCh eq @ take (nat (MaxSize (config eq)) - length (eventCh eq)) es,
        totalEnqueued := totalEnqueued eq
          + int (min (length es) (nat (MaxSize (config eq)) - length (eventCh eq)))\<rparr>"
proof (induction es arbitrary: eq)
  case (Cons e es)
  let ?n = "nat (MaxSize (config eq)) - length (eventCh eq)"
  show ?case
  proof (cases "int (length (eventCh eq)) < MaxSize (config eq)")
    case True
    then obtain m where "?n = Suc m" by (cases ?n) auto
    then have m: "nat (MaxSize (config eq)) - Suc (length (eventCh eq)) = m" and n: "?n = Suc m" by auto
    show ?thesis using True Cons.IH [of "eq\<lparr>eventCh := eventCh eq @ [e], totalEnqueued := totalEnqueued eq + 1\<rparr>"]
      by (simp add: m n del: diff_is_0_eq)
  next
    case False
    with Cons.prems have z: "?n = 0" by linarith
    then show ?thesis using False Cons.IH [OF Cons.prems] by (simp only: requeue.simps if_False z) simp
  qed
qed simp

text \<open>The events that \<open>Start\<close> takes back into the channel.\<close>

definition recovered :: "('s, 'db) EventQueue \<Rightarrow> PendingEvent list" where
  "recovered eq =
     (case persistence eq of
        None \<Rightarrow> []
      | Some p \<Rightarrow>
          (case Recover p of
             Inl _ \<Rightarrow> []
           | Inr es \<Rightarrow> take (nat (MaxSize (config eq)) - length (eventCh eq)) es))"

lemma Start_cases:
  assumes "int (length (eventCh eq)) \<le> MaxSize (config eq)"
  obtains (again) "started eq" "Start eq = (Some ErrQueueAlreadyStarted, eq)"
    | (failed) e where "\<not> started eq" "recovered eq = []"
        "Start eq = (Some (Wrap ''failed to recover pending events: '' e ''''), eq\<lparr>started := True\<rparr>)"
    | (ok) "\<not> started eq" "Start eq = (None, eq\<lparr>started := True, flush_at := F_select [],
        eventCh := eventCh eq @ recovered eq, totalEnqueued := totalEnqueued eq + int (length (recovered eq))\<rparr>)"
proof (cases "started eq")
  case True
  then show ?thesis using again by (simp add: Start_def)
next
  case False
  show ?thesis
  proof (cases "persistence eq")
    case None
    then show ?thesis using False by (intro ok) (simp_all add: Start_def recovered_def Let_def)
  next
    case (Some p)
    show ?thesis
    proof (cases "Recover p")
      case (Inl e)
      then show ?thesis using False Some by (intro failed) (simp_all add: Start_def recovered_def Let_def)
    next
      case (Inr es)
      then show ?thesis
        using False Some assms requeue_eq [of "eq\<lparr>started := True\<rparr>" es]
        by (intro ok) (simp_all add: Start_def recovered_def Let_def min.commute)
    qed
  qed
qed

lemma recovered_bound:
  "int (length (eventCh eq)) \<le> MaxSize (config eq) \<Longrightarrow>
   int (length (eventCh eq @ recovered eq)) \<le> MaxSize (config eq)"
  by (auto simp: recovered_def split: option.splits sum.splits)

lemma Start_inv:
  assumes "q_inv eq"
  shows "q_inv (snd (Start eq))"
proof -
  have l: "int (length (eventCh eq)) \<le> MaxSize (config eq)" using assms by (simp add: q_inv_def loop_inv_def)
  show ?thesis
  proof (cases rule: Start_cases [OF l, case_names again failed ok])
    case ok
    then show ?thesis
      using assms recovered_bound [OF l] by (auto simp: q_inv_def loop_inv_def call_inv_def config_ok_def)
  next
    case (failed e)
    then show ?thesis using assms by (auto simp: q_inv_def loop_inv_def call_inv_def)
  qed (use assms in simp)
qed

lemma locked_update:
  "k < length cs \<Longrightarrow>
   length (filter locked (cs[k := c])) + (if locked (cs ! k) then 1 else 0) =
   length (filter locked cs) + (if locked c then 1 else 0)"
  by (simp add: length_filter_update)

lemma lock_free_filter: "lock_free eq \<longleftrightarrow> filter locked (enq_calls eq) = []"
  by (auto simp: lock_free_def list_all_iff filter_empty_conv)

text \<open>A call that moves keeps the mutex exclusive.\<close>

lemma set_call_inv:
  assumes "q_inv eq" and "k < length (enq_calls eq)"
    and "locked c \<longrightarrow> lock_free eq \<or> locked (enq_calls eq ! k)"
    and "loop_inv eq'" and "enq_calls eq' = enq_calls eq" and "stopped eq' = stopped eq"
    and "shutdown_at eq' = shutdown_at eq" and "signalled eq' = signalled eq"
    and "case persistence eq' of None \<Rightarrow> True | Some p \<Rightarrow> p_inv p"
  shows "q_inv (set_call k c eq')"
proof -
  have "length (filter locked ((enq_calls eq)[k := c])) \<le> 1"
    using locked_update [OF assms(2), of c] assms(1,3)
    by (auto simp: q_inv_def call_inv_def lock_free_filter split: if_splits)
  then show ?thesis
    using assms by (simp add: q_inv_def call_inv_def set_call_def loop_inv_def)
qed

lemma Enqueue_step_inv:
  assumes "q_inv eq"
  shows "\<exists>eq'. Enqueue_step k now eq = Some eq' \<and> q_inv eq'"
proof (cases "k < length (enq_calls eq)")
  case False
  then show ?thesis using assms by (simp add: Enqueue_step_def)
next
  case True
  have li: "loop_inv eq" and pi: "case persistence eq of None \<Rightarrow> True | Some p \<Rightarrow> p_inv p"
    using assms by (simp_all add: q_inv_def call_inv_def)
  note sc = set_call_inv [OF assms True]
  show ?thesis
  proof (cases "enq_calls eq ! k")
    case (E_check u t m i)
    then show ?thesis using True assms sc [OF _ li _ _ _ _ pi] by (auto simp: Enqueue_step_def)
  next
    case (E_depth u t m i)
    then show ?thesis using True sc [OF _ li _ _ _ _ pi] by (auto simp: Enqueue_step_def)
  next
    case (E_persist e)
    show ?thesis
    proof (cases "persistence eq")
      case None
      then show ?thesis using True E_persist sc [OF _ li _ _ _ _ pi] by (auto simp: Enqueue_step_def)
    next
      case (Some p)
      then obtain p' where p': "EnqueueAsync e p = Some (p', length (errChs p))" "p_inv p'"
        using enqueue_inv [of p e] pi by auto
      have "loop_inv (eq\<lparr>persistence := Some p'\<rparr>)" using li by (simp add: loop_inv_def)
      then show ?thesis
        using True E_persist Some p' sc [of "E_send e" "eq\<lparr>persistence := Some p'\<rparr>"]
        by (simp add: Enqueue_step_def)
    qed
  next
    case (E_send e)
    have "loop_inv (eq\<lparr>eventCh := eventCh eq @ [e]\<rparr>)"
      if "int (length (eventCh eq)) < MaxSize (config eq)"
      using li that by (simp add: loop_inv_def)
    then show ?thesis
      using True E_send assms pi li sc [of "E_count e" "eq\<lparr>eventCh := eventCh eq @ [e]\<rparr>"]
        sc [of "E_return (enqueue_error ErrQueueChannelFull)" eq]
      by (auto simp: Enqueue_step_def)
  next
    case (E_count e)
    have "loop_inv (eq\<lparr>totalEnqueued := totalEnqueued eq + 1, currentDepth := currentDepth eq + 1\<rparr>)"
      using li by (simp add: loop_inv_def)
    then show ?thesis using True E_count pi by (simp add: Enqueue_step_def sc)
  next
    case (E_max e d)
    have "loop_inv (eq\<lparr>maxDepth := max (maxDepth eq) d\<rparr>)" using li by (simp add: loop_inv_def)
    then show ?thesis using True E_max pi by (simp add: Enqueue_step_def sc)
  next
    case (E_return r)
    then show ?thesis using True assms by (simp add: Enqueue_step_def)
  qed
qed

lemma Shutdown_step_inv:
  assumes "q_inv eq"
  shows "\<exists>eq'. Shutdown_step timeout eq = Some eq' \<and> q_inv eq'"
proof (cases "shutdown_at eq")
  case S_close
  show ?thesis
  proof (cases "persistence eq")
    case (Some p)
    then obtain p' where "closer_step p = Some p'" "p_inv p'"
      using assms closer_inv [of p] by (auto simp: q_inv_def call_inv_def)
    then show ?thesis
      using assms S_close Some by (auto simp: Shutdown_step_def q_inv_def loop_inv_def call_inv_def)
  qed (use assms S_close in \<open>auto simp: Shutdown_step_def q_inv_def loop_inv_def call_inv_def\<close>)
next
  case S_cancel
  then show ?thesis
    using assms Close_inv
    by (auto simp: Shutdown_step_def q_inv_def loop_inv_def call_inv_def split: option.splits)
qed (use assms in \<open>auto simp: Shutdown_step_def q_inv_def loop_inv_def call_inv_def\<close>)

lemma q_step_inv:
  assumes "q_inv eq"
  shows "\<exists>eq'. q_step ins a eq = Some eq' \<and> q_inv eq'"
proof (cases a)
  case Q_writer
  show ?thesis
  proof (cases "persistence eq")
    case (Some p)
    then obtain p' where "writeLoop p = Some p'" "p_inv p'"
      using assms writer_inv [of p] by (auto simp: q_inv_def call_inv_def)
    then show ?thesis
      using assms Q_writer Some by (auto simp: q_step_def q_inv_def loop_inv_def call_inv_def)
  qed (use assms Q_writer in \<open>simp add: q_step_def\<close>)
next
  case (Q_reader c)
  then show ?thesis
    using assms receive_inv
    by (auto simp: q_step_def q_inv_def loop_inv_def call_inv_def split: option.splits prod.splits)
next
  case Q_shutdown
  then show ?thesis
    using assms by (auto simp: q_step_def Shutdown_def q_inv_def loop_inv_def call_inv_def)
next
  case (Q_enqueue u t m i)
  then show ?thesis
    using assms by (auto simp: q_step_def q_inv_def loop_inv_def call_inv_def)
qed (use assms in \<open>simp_all add: q_step_def Start_inv loop_recv_inv loop_tick_inv loop_signal_inv
      loop_step_inv Enqueue_step_inv Shutdown_step_inv\<close>)

lemma q_run_inv: "q_inv eq \<Longrightarrow> \<exists>eq'. q_run ins as eq = Some eq' \<and> q_inv eq'"
proof (induction as arbitrary: eq)
  case (Cons a as)
  then show ?case using q_step_inv [OF Cons.prems, of ins a] by auto
qed simp

section \<open>First in, first out, nothing lost\<close>

text \<open>The events an action puts into the channel, and those whose batch it completes.\<close>

definition step_recovers :: "q_action \<Rightarrow> ('s, 'db) EventQueue \<Rightarrow> PendingEvent list" where
  "step_recovers a eq = (case a of Q_start \<Rightarrow> if started eq then [] else recovered eq | _ \<Rightarrow> [])"

definition step_accepts :: "q_action \<Rightarrow> ('s, 'db) EventQueue \<Rightarrow> PendingEvent list" where
  "step_accepts a eq =
     (case a of
        Q_call k now \<Rightarrow>
          if k < length (enq_calls eq) \<and> lock_free eq \<and> int (length (eventCh eq)) < MaxSize (config eq)
          then (case enq_calls eq ! k of E_send e \<Rightarrow> [e] | _ \<Rightarrow> []) else []
      | _ \<Rightarrow> step_recovers a eq)"

definition step_hands ::
  "(Event list \<Rightarrow> 's effect) \<Rightarrow> q_action \<Rightarrow> ('s, 'db) EventQueue \<Rightarrow> PendingEvent list" where
  "step_hands ins a eq =
     (case a of
        Q_loop env now \<Rightarrow>
          (case flush_at eq of
             F_insert d b \<Rightarrow> if flush_insert ins env b eq = None then [] else b
           | _ \<Rightarrow> [])
      | _ \<Rightarrow> [])"

text \<open>A list of what an observer sees at each step of a run.\<close>

fun observe ::
  "(q_action \<Rightarrow> ('s, 'db) EventQueue \<Rightarrow> 'a list) \<Rightarrow> (Event list \<Rightarrow> 's effect) \<Rightarrow> q_action list
   \<Rightarrow> ('s, 'db) EventQueue \<Rightarrow> 'a list" where
  "observe f ins [] eq = []"
| "observe f ins (a # as) eq =
     f a eq @ (case q_step ins a eq of None \<Rightarrow> [] | Some eq' \<Rightarrow> observe f ins as eq')"

definition pending :: "('s, 'db) EventQueue \<Rightarrow> PendingEvent list" where
  "pending eq = batch_of (flush_at eq) @ eventCh eq"

fun is_count :: "enqueue_call \<Rightarrow> bool" where
  "is_count (E_count _) = True"
| "is_count _ = False"

definition uncounted :: "('s, 'db) EventQueue \<Rightarrow> int" where
  "uncounted eq = int (length (filter is_count (enq_calls eq)))"

fun got :: "flusher \<Rightarrow> int" where
  "got (F_got _ _) = 1"
| "got _ = 0"

text \<open>How far the depth counter is below the true length of the channel.\<close>

definition drift :: "('s, 'db) EventQueue \<Rightarrow> int" where
  "drift eq = int (length (eventCh eq)) - uncounted eq + got (flush_at eq) - currentDepth eq"

text \<open>What one step does to the channel, the counters and the batch.\<close>

definition step_ok ::
  "(Event list \<Rightarrow> 's effect) \<Rightarrow> q_action \<Rightarrow> ('s, 'db) EventQueue \<Rightarrow> ('s, 'db) EventQueue \<Rightarrow> bool" where
  "step_ok ins a eq eq' \<longleftrightarrow>
     pending eq @ step_accepts a eq = step_hands ins a eq @ pending eq' \<and>
     drift eq' = drift eq + int (length (step_recovers a eq)) \<and>
     totalEnqueued eq' + uncounted eq' =
       totalEnqueued eq + uncounted eq + int (length (step_accepts a eq))"

lemma step_ok_frame:
  assumes "step_accepts a eq = []" and "step_recovers a eq = []" and "step_hands ins a eq = []"
    and "eventCh eq' = eventCh eq" and "batch_of (flush_at eq') = batch_of (flush_at eq)"
    and "got (flush_at eq') - currentDepth eq' = got (flush_at eq) - currentDepth eq"
    and "uncounted eq' = uncounted eq" and "totalEnqueued eq' = totalEnqueued eq"
  shows "step_ok ins a eq eq'"
  using assms by (simp add: step_ok_def pending_def drift_def)

lemma uncounted_set_call:
  assumes "k < length (enq_calls eq)" and "enq_calls eq' = enq_calls eq"
  shows "uncounted (set_call k c eq') + (if is_count (enq_calls eq ! k) then 1 else 0)
         = uncounted eq + (if is_count c then 1 else 0)"
proof -
  have "length (filter is_count ((enq_calls eq)[k := c])) + (if is_count (enq_calls eq ! k) then 1 else 0)
      = length (filter is_count (enq_calls eq)) + (if is_count c then 1 else 0)"
    using assms(1) by (simp add: length_filter_update)
  then show ?thesis using assms(2) by (simp add: uncounted_def set_call_def split: if_splits)
qed

lemma set_call_fields [simp]:
  "eventCh (set_call k c eq) = eventCh eq" "flush_at (set_call k c eq) = flush_at eq"
  "currentDepth (set_call k c eq) = currentDepth eq" "totalEnqueued (set_call k c eq) = totalEnqueued eq"
  "config (set_call k c eq) = config eq" "started (set_call k c eq) = started eq"
  "stopped (set_call k c eq) = stopped eq" "signalled (set_call k c eq) = signalled eq"
  "persistence (set_call k c eq) = persistence eq" "store (set_call k c eq) = store eq"
  "dlq (set_call k c eq) = dlq eq"
  by (simp_all add: set_call_def)

text \<open>A call that moves without sending or counting.\<close>

lemma step_ok_call:
  assumes "k < length (enq_calls eq)" and "step_accepts (Q_call k now) eq = []"
    and "enq_calls eq' = enq_calls eq" and "is_count (enq_calls eq ! k) = is_count c"
    and "eventCh eq' = eventCh eq" and "flush_at eq' = flush_at eq"
    and "currentDepth eq' = currentDepth eq" and "totalEnqueued eq' = totalEnqueued eq"
  shows "step_ok ins (Q_call k now) eq (set_call k c eq')"
  using assms uncounted_set_call [OF assms(1,3), of c]
  by (intro step_ok_frame) (auto simp: step_recovers_def step_hands_def split: if_splits)

lemma Enqueue_step_ok:
  assumes "Enqueue_step k now eq = Some eq'"
  shows "step_ok ins (Q_call k now) eq eq'"
proof (cases "k < length (enq_calls eq)")
  case False
  then show ?thesis
    using assms
    by (intro step_ok_frame) (simp_all add: Enqueue_step_def step_accepts_def step_recovers_def step_hands_def)
next
  case True
  have same: "step_ok ins (Q_call k now) eq eq" if "step_accepts (Q_call k now) eq = []"
    using that by (intro step_ok_frame) (simp_all add: step_recovers_def step_hands_def)
  note mv = step_ok_call [OF True, where now = now and ins = ins]
  show ?thesis
  proof (cases "enq_calls eq ! k")
    case (E_send e)
    show ?thesis
    proof (cases "lock_free eq \<and> int (length (eventCh eq)) < MaxSize (config eq)")
      case ok: True
      let ?eq1 = "eq\<lparr>eventCh := eventCh eq @ [e]\<rparr>"
      have "eq' = set_call k (E_count e) ?eq1" using assms True E_send ok by (simp add: Enqueue_step_def)
      moreover have "uncounted (set_call k (E_count e) ?eq1) = uncounted eq + 1"
        using uncounted_set_call [OF True, of ?eq1 "E_count e"] E_send by simp
      ultimately show ?thesis
        using ok True E_send
        by (simp add: step_ok_def pending_def drift_def step_accepts_def step_recovers_def step_hands_def)
    next
      case no: False
      have acc: "step_accepts (Q_call k now) eq = []" using no by (auto simp: step_accepts_def)
      then show ?thesis
        using assms True E_send no same mv by (auto simp: Enqueue_step_def split: if_splits)
    qed
  next
    case (E_count e)
    let ?eq1 = "eq\<lparr>totalEnqueued := totalEnqueued eq + 1, currentDepth := currentDepth eq + 1\<rparr>"
    have "eq' = set_call k (E_max e (currentDepth eq + 1)) ?eq1"
      using assms True E_count by (simp add: Enqueue_step_def)
    moreover have "uncounted (set_call k (E_max e (currentDepth eq + 1)) ?eq1) = uncounted eq - 1"
      using uncounted_set_call [OF True, of ?eq1 "E_max e (currentDepth eq + 1)"] E_count by simp
    ultimately show ?thesis
      using E_count
      by (simp add: step_ok_def pending_def drift_def step_accepts_def step_recovers_def step_hands_def)
  next
    case (E_persist e)
    then show ?thesis
      using assms True mv
      by (auto simp: Enqueue_step_def step_accepts_def split: option.splits)
  qed (use assms True same mv in \<open>auto simp: Enqueue_step_def step_accepts_def split: if_splits\<close>)
qed

lemma loop_recv_ok: "step_ok ins Q_recv eq (loop_recv eq)"
  by (cases "flush_at eq"; cases "eventCh eq")
    (simp_all add: step_ok_def loop_recv_def pending_def drift_def step_accepts_def step_recovers_def
      step_hands_def uncounted_def)

lemma loop_tick_ok: "step_ok ins Q_tick eq (loop_tick eq)"
  by (cases "flush_at eq")
    (simp_all add: step_ok_def loop_tick_def pending_def drift_def step_accepts_def step_recovers_def
      step_hands_def uncounted_def)

lemma loop_signal_ok: "step_ok ins Q_signal eq (loop_signal eq)"
  by (cases "flush_at eq")
    (simp_all add: step_ok_def loop_signal_def pending_def drift_def step_accepts_def step_recovers_def
      step_hands_def uncounted_def)

lemma loop_step_ok: "step_ok ins (Q_loop env now) eq (loop_step ins env now eq)"
proof (cases "flush_at eq")
  case (F_got d b)
  then show ?thesis
    by (auto simp: step_ok_def loop_step_def Let_def pending_def drift_def step_accepts_def
        step_recovers_def step_hands_def uncounted_def)
next
  case (F_insert d b)
  show ?thesis
  proof (cases "flush_insert ins env b eq")
    case None
    then show ?thesis using F_insert
      by (intro step_ok_frame) (simp_all add: loop_step_def step_accepts_def step_recovers_def step_hands_def)
  next
    case (Some xe)
    then obtain i r f n eq1 where x: "flush_insert ins env b eq = Some ((i, r, f, n), eq1)"
      by (cases xe) auto
    then obtain s' q' where "eq1 = eq\<lparr>store := s', dlq := q'\<rparr>" using flush_insert_frame by blast
    then show ?thesis
      using x F_insert
      by (simp add: step_ok_def loop_step_def pending_def drift_def step_accepts_def step_recovers_def
          step_hands_def uncounted_def)
  qed
next
  case (F_remove e i r f n)
  obtain p where p: "flush_remove r eq = eq\<lparr>persistence := p\<rparr>" using flush_remove_frame by blast
  then show ?thesis
    using F_remove
    by (intro step_ok_frame)
      (simp_all add: loop_step_def step_accepts_def step_recovers_def step_hands_def uncounted_def)
next
  case (F_account e i f n)
  then show ?thesis
    by (intro step_ok_frame)
      (simp_all add: loop_step_def flush_account_def step_accepts_def step_recovers_def step_hands_def
        uncounted_def)
qed (intro step_ok_frame;
     simp add: loop_step_def step_accepts_def step_recovers_def step_hands_def)+

lemma Start_ok:
  assumes "q_inv eq"
  shows "step_ok ins Q_start eq (snd (Start eq))"
proof -
  have l: "int (length (eventCh eq)) \<le> MaxSize (config eq)" and f: "\<not> started eq \<Longrightarrow> flush_at eq = F_none"
    using assms by (simp_all add: q_inv_def loop_inv_def)
  show ?thesis
    by (cases rule: Start_cases [OF l])
      (auto simp: step_ok_def f pending_def drift_def step_accepts_def step_recovers_def step_hands_def
        uncounted_def)
qed

lemma q_step_ok:
  assumes "q_inv eq" and "q_step ins a eq = Some eq'"
  shows "step_ok ins a eq eq'"
proof (cases a)
  case (Q_enqueue u t m i)
  then show ?thesis
    using assms(2)
    by (intro step_ok_frame)
      (auto simp: q_step_def step_accepts_def step_recovers_def step_hands_def uncounted_def)
next
  case Q_shutdown
  then show ?thesis
    using assms(2)
    by (intro step_ok_frame)
      (auto simp: q_step_def Shutdown_def step_accepts_def step_recovers_def step_hands_def uncounted_def)
next
  case (Q_shut t)
  then show ?thesis
    using assms(2)
    by (intro step_ok_frame)
      (auto simp: q_step_def Shutdown_step_def step_accepts_def step_recovers_def step_hands_def
        uncounted_def split: shutdown_call.splits option.splits if_splits)
next
  case Q_writer
  then show ?thesis
    using assms(2)
    by (intro step_ok_frame)
      (auto simp: q_step_def step_accepts_def step_recovers_def step_hands_def uncounted_def
        split: option.splits)
next
  case (Q_reader c)
  then show ?thesis
    using assms(2)
    by (intro step_ok_frame)
      (auto simp: q_step_def step_accepts_def step_recovers_def step_hands_def uncounted_def
        split: option.splits prod.splits)
qed (use assms Start_ok Enqueue_step_ok loop_recv_ok loop_tick_ok loop_signal_ok loop_step_ok in
    \<open>auto simp: q_step_def\<close>)

lemma q_run_ok:
  assumes "q_inv eq" and "q_run ins as eq = Some eq'"
  shows "pending eq @ observe step_accepts ins as eq = observe (step_hands ins) ins as eq @ pending eq' \<and>
         drift eq' = drift eq + int (length (observe step_recovers ins as eq)) \<and>
         totalEnqueued eq' + uncounted eq' =
           totalEnqueued eq + uncounted eq + int (length (observe step_accepts ins as eq))"
  using assms
proof (induction as arbitrary: eq)
  case (Cons a as)
  obtain s where s: "q_step ins a eq = Some s" "q_inv s" "q_run ins as s = Some eq'"
    using q_step_inv [OF Cons.prems(1), of ins a] Cons.prems(2) by auto
  have 1: "step_ok ins a eq s" by (rule q_step_ok [OF Cons.prems(1) s(1)])
  note ih = Cons.IH [OF s(2,3)]
  have "pending eq @ step_accepts a eq @ observe step_accepts ins as s =
        step_hands ins a eq @ pending s @ observe step_accepts ins as s"
    using 1 by (metis append.assoc step_ok_def)
  then show ?case using 1 ih s(1) by (simp add: step_ok_def)
qed simp

section \<open>Shutdown\<close>

text \<open>
  A queue is quiet when it has been stopped and no call of \<open>Enqueue\<close> is past its check.
\<close>

fun idle_call :: "enqueue_call \<Rightarrow> bool" where
  "idle_call (E_check _ _ _ _) = True"
| "idle_call (E_return _) = True"
| "idle_call _ = False"

definition quiet :: "('s, 'db) EventQueue \<Rightarrow> bool" where
  "quiet eq \<longleftrightarrow> started eq \<and> stopped eq \<and> list_all idle_call (enq_calls eq)"

definition drained_inv :: "('s, 'db) EventQueue \<Rightarrow> bool" where
  "drained_inv eq \<longleftrightarrow> quiet eq \<and> (ending (flush_at eq) \<longrightarrow> eventCh eq = [])"

lemma quiet_call:
  assumes "quiet eq" and "Enqueue_step k now eq = Some eq'"
  shows "quiet eq' \<and> eventCh eq' = eventCh eq \<and> flush_at eq' = flush_at eq"
proof (cases "k < length (enq_calls eq)")
  case True
  have id: "idle_call (enq_calls eq ! k)" using assms(1) True by (simp add: quiet_def list_all_length)
  have up: "list_all idle_call ((enq_calls eq)[k := E_return r])" for r
    using assms(1) set_update_subset_insert [of "enq_calls eq" k "E_return r"]
    by (auto simp: quiet_def list_all_iff)
  show ?thesis
  proof (cases "enq_calls eq ! k")
    case (E_check u t m i)
    then show ?thesis
      using assms True up
      by (auto simp: Enqueue_step_def quiet_def set_call_def split: if_splits)
  qed (use assms True id in \<open>auto simp: Enqueue_step_def\<close>)
qed (use assms in \<open>simp add: Enqueue_step_def\<close>)

lemma quiet_accepts: "quiet eq \<Longrightarrow> step_accepts a eq = []"
  by (auto simp: quiet_def step_accepts_def step_recovers_def list_all_length
      split: q_action.splits enqueue_call.splits)

lemma drained_frame:
  assumes "drained_inv eq" and "started eq' = started eq" and "stopped eq' = stopped eq"
    and "list_all idle_call (enq_calls eq')" and "eventCh eq' = eventCh eq"
    and "ending (flush_at eq') \<Longrightarrow> ending (flush_at eq) \<or> eventCh eq = []"
  shows "drained_inv eq'"
  using assms by (auto simp: drained_inv_def quiet_def)

lemma loop_recv_drained: "drained_inv eq \<Longrightarrow> drained_inv (loop_recv eq)"
  by (cases "flush_at eq"; cases "eventCh eq") (auto simp: drained_inv_def quiet_def loop_recv_def)

lemma loop_step_drained:
  assumes "drained_inv eq"
  shows "drained_inv (loop_step ins env now eq)"
proof (cases "flush_at eq")
  case (F_insert d b)
  show ?thesis
  proof (cases "flush_insert ins env b eq")
    case None
    then show ?thesis using assms F_insert by (simp add: loop_step_def)
  next
    case (Some xe)
    then obtain i r f n eq1 where x: "flush_insert ins env b eq = Some ((i, r, f, n), eq1)"
      by (cases xe) auto
    then obtain s' q' where "eq1 = eq\<lparr>store := s', dlq := q'\<rparr>" using flush_insert_frame by blast
    then show ?thesis
      using x F_insert assms by (auto simp: loop_step_def drained_inv_def quiet_def)
  qed
next
  case (F_remove e i r f n)
  obtain p where "flush_remove r eq = eq\<lparr>persistence := p\<rparr>" using flush_remove_frame by blast
  then show ?thesis using F_remove assms by (auto simp: loop_step_def drained_inv_def quiet_def)
qed (use assms in \<open>auto simp: loop_step_def drained_inv_def quiet_def Let_def flush_account_def\<close>)

lemma q_step_drained:
  assumes "drained_inv eq" and "q_step ins a eq = Some eq'"
  shows "drained_inv eq'"
proof (cases a)
  case (Q_call k now)
  then show ?thesis
    using assms quiet_call [of eq k now eq'] by (auto simp: q_step_def drained_inv_def)
next
  case (Q_loop env now)
  then show ?thesis using assms loop_step_drained by (auto simp: q_step_def)
next
  case Q_recv
  then show ?thesis using assms loop_recv_drained by (auto simp: q_step_def)
next
  case Q_start
  then show ?thesis using assms by (auto simp: q_step_def Start_def drained_inv_def quiet_def)
next
  case Q_shutdown
  then show ?thesis using assms by (auto simp: q_step_def Shutdown_def drained_inv_def quiet_def)
next
  case Q_tick
  then show ?thesis
    using assms by (cases "flush_at eq") (auto simp: q_step_def loop_tick_def drained_inv_def quiet_def)
next
  case Q_signal
  then show ?thesis
    using assms by (cases "flush_at eq") 
      (auto simp: q_step_def loop_signal_def drained_inv_def quiet_def split: if_splits)
next
  case (Q_shut t)
  then show ?thesis
    using assms by (auto simp: q_step_def Shutdown_step_def drained_inv_def quiet_def
        split: shutdown_call.splits option.splits if_splits)
qed (use assms in \<open>auto simp: q_step_def drained_inv_def quiet_def split: option.splits prod.splits\<close>)

lemma q_run_drained:
  assumes "drained_inv eq" and "q_run ins as eq = Some eq'"
  shows "drained_inv eq' \<and> observe step_accepts ins as eq = []"
  using assms
proof (induction as arbitrary: eq)
  case (Cons a as)
  then obtain s where s: "q_step ins a eq = Some s" "q_run ins as s = Some eq'"
    by (auto split: option.splits)
  have "drained_inv s" using q_step_drained Cons.prems(1) s(1) by blast
  then show ?case
    using Cons.IH s quiet_accepts [of eq a] Cons.prems(1) by (simp add: drained_inv_def)
qed simp

text \<open>The flush goroutine ends when it is signalled: a measure on its state.\<close>

fun f_rank :: "flusher \<Rightarrow> nat" where
  "f_rank F_none = 0"
| "f_rank F_exited = 0"
| "f_rank (F_account e _ _ _) = (if e then 1 else 6)"
| "f_rank (F_remove e _ _ _ _) = (if e then 2 else 7)"
| "f_rank (F_insert e _) = (if e then 3 else 8)"
| "f_rank (F_drain _) = 4"
| "f_rank (F_select _) = 5"
| "f_rank (F_got d _) = (if d then 5 else 9)"

definition f_measure :: "('s, 'db) EventQueue \<Rightarrow> nat" where
  "f_measure eq = 9 * length (eventCh eq) + f_rank (flush_at eq)"

text \<open>The actions of the flush goroutine alone.\<close>

fun flusher_action :: "q_action \<Rightarrow> bool" where
  "flusher_action Q_recv = True"
| "flusher_action Q_signal = True"
| "flusher_action (Q_loop _ _) = True"
| "flusher_action _ = False"

lemma flush_insert_returns: "\<exists>env x. flush_insert ins env events eq = Some x"
proof -
  let ?items = "map model_event events"
  let ?n = "length ?items * (nat (MaxAttempts (RetryConfig (config eq))) + 3)"
  let ?env = "\<lparr>env_batch = Background, env_item = (\<lambda>_. Background), env_now = (\<lambda>_. 0),
               env_sched = concat (replicate ?n [0..<length ?items])\<rparr>"
  have "list_all is_exited (phases (run_sched (RetryConfig (config eq)) ?env (insertSingleWrapper ins) ?items
      (env_sched ?env) (spawn ?items t (dlq eq))))" for t
    using rounds_complete [OF spawn_sem_inv, of "RetryConfig (config eq)" ?items t "dlq eq" ?n ?env
        "insertSingleWrapper ins"] by (simp add: work_spawn)
  then obtain r where "BatchRetry ?env (RetryConfig (config eq)) ?items (batchInsertWrapper ins)
      (insertSingleWrapper ins) (store eq) (dlq eq) = Some r"
    by (fastforce simp: BatchRetry_def Let_def split: prod.splits)
  then show ?thesis by (intro exI [of _ ?env]) (cases r, simp add: flush_insert_def Let_def)
qed

lemma flusher_progress:
  assumes "signalled eq" and "flush_at eq \<notin> {F_none, F_exited}"
  shows "\<exists>a eq'. flusher_action a \<and> q_step ins a eq = Some eq' \<and> signalled eq' \<and>
           flush_at eq' \<noteq> F_none \<and> f_measure eq' < f_measure eq"
proof (cases "flush_at eq")
  case (F_select b)
  then show ?thesis
    using assms by (intro exI [of _ Q_signal]) (auto simp: q_step_def loop_signal_def f_measure_def)
next
  case (F_got d b)
  then show ?thesis
    using assms by (intro exI [of _ "Q_loop undefined 0"])
      (auto simp: q_step_def loop_step_def Let_def f_measure_def)
next
  case (F_drain b)
  then show ?thesis
    using assms by (intro exI [of _ Q_recv]; cases "eventCh eq")
      (auto simp: q_step_def loop_recv_def f_measure_def)
next
  case (F_insert e b)
  obtain env x where x: "flush_insert ins env b eq = Some x" using flush_insert_returns by blast
  then obtain i r f n eq1 where y: "flush_insert ins env b eq = Some ((i, r, f, n), eq1)"
    by (cases x) auto
  then obtain s' q' where "eq1 = eq\<lparr>store := s', dlq := q'\<rparr>" using flush_insert_frame by blast
  then show ?thesis
    using assms F_insert y
    by (intro exI [of _ "Q_loop env 0"]) (auto simp: q_step_def loop_step_def f_measure_def)
next
  case (F_remove e i r f n)
  obtain p where "flush_remove r eq = eq\<lparr>persistence := p\<rparr>" using flush_remove_frame by blast
  then show ?thesis
    using assms F_remove
    by (intro exI [of _ "Q_loop undefined 0"]) (auto simp: q_step_def loop_step_def f_measure_def)
next
  case (F_account e i f n)
  then show ?thesis
    using assms by (intro exI [of _ "Q_loop undefined 0"])
      (auto simp: q_step_def loop_step_def flush_account_def f_measure_def)
qed (use assms in auto)

lemma flusher_ends:
  assumes "signalled eq" and "flush_at eq \<noteq> F_none"
  shows "\<exists>as eq'. list_all flusher_action as \<and> q_run ins as eq = Some eq' \<and> flush_at eq' = F_exited"
  using assms
proof (induction "f_measure eq" arbitrary: eq rule: less_induct)
  case less
  show ?case
  proof (cases "flush_at eq = F_exited")
    case True
    then show ?thesis by (intro exI [of _ "[]"]) simp
  next
    case False
    then obtain a s where s: "flusher_action a" "q_step ins a eq = Some s" "signalled s"
        "flush_at s \<noteq> F_none" "f_measure s < f_measure eq"
      using flusher_progress [of eq ins] less.prems by auto
    then obtain as eq' where "list_all flusher_action as" "q_run ins as s = Some eq'" "flush_at eq' = F_exited"
      using less.hyps [OF s(5,3,4)] by blast
    then show ?thesis using s(1,2) by (intro exI [of _ "a # as"]) simp
  qed
qed

section \<open>What a flush does\<close>

text \<open>
  The contract of the store behind the interface \<open>EventStore\<close>: a batch insert that reports
  no error has stored all its events, and no insert takes a stored event away, as long as the
  store is in good order, which it stays.
\<close>

locale event_sink =
  fixes ins :: "Event list \<Rightarrow> 's effect"
    and stored :: "'s \<Rightarrow> Event \<Rightarrow> bool"
    and ok :: "'s \<Rightarrow> bool"
  assumes accepts: "ok s \<Longrightarrow> ins xs s = (None, s') \<Longrightarrow> x \<in> set xs \<Longrightarrow> stored s' x"
    and keeps: "ok s \<Longrightarrow> stored s x \<Longrightarrow> stored (snd (ins xs s)) x"
    and stays_ok: "ok s \<Longrightarrow> ok (snd (ins xs s))"

sublocale event_sink \<subseteq> sink: accepting_store "batchInsertWrapper ins" "insertSingleWrapper ins" stored ok
proof (unfold_locales, goal_cases)
  case (1 s xs s' x)
  then show ?case using accepts by (simp add: batchInsertWrapper_def)
next
  case (2 s x xs)
  then show ?case using keeps by (simp add: batchInsertWrapper_def)
next
  case (3 s xs)
  then show ?case using stays_ok by (simp add: batchInsertWrapper_def)
next
  case (4 s x s')
  then show ?case using accepts [of s "[x]"] by (simp add: insertSingleWrapper_def)
next
  case (5 s y x)
  then show ?case using keeps by (simp add: insertSingleWrapper_def)
next
  case (6 s x)
  then show ?case using stays_ok by (simp add: insertSingleWrapper_def)
qed

text \<open>The dead letters of a batch are appended to the queue, whatever the store does.\<close>

lemma BatchRetry_log:
  assumes "BatchRetry env cfg items fn itemFn s q = Some (s', q')"
  shows "\<exists>log. q' = foldl Add q log"
proof -
  have "dead_inv env items q (run_sched cfg env itemFn items ks (spawn items t q))" for ks t
    using batch_move_dead_inv spawn_dead_inv by (rule run_sched_invariant)
  then have "\<exists>log. bdlq (run_sched cfg env itemFn items ks (spawn items t q)) = foldl Add q log" for ks t
    unfolding dead_inv_def by blast
  moreover have "\<exists>log. q = foldl Add q log" by (rule exI [of _ "[]"]) simp
  ultimately show ?thesis
    using assms by (auto simp: BatchRetry_def Let_def split: if_splits prod.splits)
qed

lemma flush_parts:
  assumes "flush ins env now events eq = Some eq'" and "events \<noteq> []"
  obtains s' q' where "BatchRetry env (RetryConfig (config eq)) (map model_event events)
      (batchInsertWrapper ins) (insertSingleWrapper ins) (store eq) (dlq eq) = Some (s', q')"
    and "store eq' = s'" and "dlq eq' = q'"
    and "totalFlushed eq' = totalFlushed eq + (int (length events) - (int (Len q') - int (Len (dlq eq))))"
    and "totalFailed eq' = int (Len q')" and "lastFlushAt eq' = now"
    and "persistence eq' = map_option (\<lambda>p. snd (Remove
           (idsToRemove (map EventID events) (int (Len q') - int (Len (dlq eq))) (GetAll q')) p)) (persistence eq)"
proof -
  obtain s' q' where br: "BatchRetry env (RetryConfig (config eq)) (map model_event events)
      (batchInsertWrapper ins) (insertSingleWrapper ins) (store eq) (dlq eq) = Some (s', q')"
    using assms by (auto simp: flush_def flush_insert_def Let_def split: option.splits)
  have nil: "snd (Remove [] p) = p" for p :: "'b Persistence" by (simp add: Remove_def)
  show ?thesis
    using assms
    by (intro that [OF br]) (auto simp: flush_def flush_insert_def Let_def br flush_account_def
        flush_remove_def nil split: option.splits)
qed

lemma idsToRemove_exact:
  assumes "distinct ids" and "set (map (\<lambda>l. ID (Event l)) ls) \<subseteq> set ids"
    and "distinct (map (\<lambda>l. ID (Event l)) ls)" and "es = qs @ ls"
  shows "idsToRemove ids (int (length ls)) es = filter (\<lambda>i. i \<notin> (\<lambda>l. ID (Event l)) ` set ls) ids"
proof (cases "length ls < length ids")
  case True
  have "drop (nat (max 0 (int (length es) - int (length ls)))) es = ls"
    using assms(4) by (simp add: max_def)
  then show ?thesis using True by (auto simp: idsToRemove_def Let_def)
next
  case False
  have "card (set (map (\<lambda>l. ID (Event l)) ls)) = length ls" using assms(3) distinct_card by fastforce
  moreover have "card (set ids) = length ids" using assms(1) by (rule distinct_card)
  ultimately have "set (map (\<lambda>l. ID (Event l)) ls) = set ids"
    using assms(2) False by (intro card_seteq) simp_all
  then have "filter (\<lambda>i. i \<notin> (\<lambda>l. ID (Event l)) ` set ls) ids = []"
    by (auto simp: filter_empty_conv)
  then show ?thesis using False by (cases "ls = []") (auto simp: idsToRemove_def)
qed

context event_sink
begin

text \<open>
  Whatever the state of the dead letter queue: an event of the batch is stored or it has been
  added to the dead letters.
\<close>

lemma flush_covers:
  assumes "flush ins env now events eq = Some eq'"
    and "0 \<le> MaxAttempts (RetryConfig (config eq))" and "ok (store eq)"
  shows "\<exists>ls. dlq eq' = foldl Add (dlq eq) ls \<and> sink.accounted (map model_event events) (store eq') ls"
proof (cases "events = []")
  case True
  then show ?thesis using assms(1) by (intro exI [of _ "[]"]) (simp add: flush_def sink.accounted_def)
next
  case False
  obtain s' q' where "BatchRetry env (RetryConfig (config eq)) (map model_event events)
      (batchInsertWrapper ins) (insertSingleWrapper ins) (store eq) (dlq eq) = Some (s', q')"
    "store eq' = s'" "dlq eq' = q'"
    using flush_parts [OF assms(1) False] by metis
  then show ?thesis using sink.BatchRetry_accounted [OF _ assms(2,3)] by blast
qed

text \<open>
  With room for the batch in the dead letter queue, the new letters can be told from the old
  ones, so the counter and the persistent log are exact.
\<close>

lemma flush_room:
  assumes "flush ins env now events eq = Some eq'" and "dlq_inv (dlq eq)"
    and "distinct (map EventID events)"
    and "int (Len (dlq eq) + length events) \<le> dlq_maxSize (dlq eq)"
    and "dlq eq' = foldl Add (dlq eq) ls" and "sink.accounted (map model_event events) (store eq') ls"
  shows "GetAll (dlq eq') = GetAll (dlq eq) @ ls \<and>
     totalFlushed eq' = totalFlushed eq + int (length events) - int (length ls) \<and>
     persistence eq' = map_option (\<lambda>p. snd (Remove
       (filter (\<lambda>i. i \<notin> (\<lambda>l. ID (Event l)) ` set ls) (map EventID events)) p)) (persistence eq)"
proof (cases "events = []")
  case True
  have "snd (Remove [] p) = p" for p :: "'c Persistence" by (simp add: Remove_def)
  then have "map_option (\<lambda>p. snd (Remove [] p)) (persistence eq) = persistence eq"
    by (cases "persistence eq") auto
  then show ?thesis using True assms(1,6) by (simp add: flush_def sink.accounted_def)
next
  case False
  have f: "totalFlushed eq' = totalFlushed eq + (int (length events) - (int (Len (dlq eq')) - int (Len (dlq eq))))"
    "persistence eq' = map_option (\<lambda>p. snd (Remove
       (idsToRemove (map EventID events) (int (Len (dlq eq')) - int (Len (dlq eq))) (GetAll (dlq eq'))) p)) (persistence eq)"
    using flush_parts [OF assms(1) False] by metis+
  have me: "ID (model_event e) = EventID e" for e by (simp add: model_event_def)
  then have ids: "map EventID events = map ID (map model_event events)" by (simp add: comp_def)
  then have dm: "distinct (map model_event events)" "inj_on ID (set (map model_event events))"
    using assms(3) distinct_map by metis+
  have len: "length ls \<le> length events" and sub: "Event ` set ls \<subseteq> set (map model_event events)"
      and dis: "distinct (map Event ls)"
    using assms(6) dm(1) by (auto simp: sink.accounted_def)
  have view: "GetAll (dlq eq') = GetAll (dlq eq) @ ls"
    unfolding assms(5) GetAll_def
    using len assms(2,4) by (intro dlq.view_foldl_fits) (auto simp: Len_def dlq_inv_def)
  then have n: "int (Len (dlq eq')) - int (Len (dlq eq)) = int (length ls)"
    by (simp add: Len_def GetAll_def)
  have "set (map (\<lambda>l. ID (Event l)) ls) = ID ` Event ` set ls" by force
  also have "\<dots> \<subseteq> set (map EventID events)" unfolding ids using sub by auto
  finally have sub': "set (map (\<lambda>l. ID (Event l)) ls) \<subseteq> set (map EventID events)" .
  have "inj_on ID (set (map Event ls))" using dm(2) sub inj_on_subset by fastforce
  then have dis': "distinct (map (\<lambda>l. ID (Event l)) ls)"
    using dis distinct_map [of ID "map Event ls"] by (simp add: comp_def)
  have "idsToRemove (map EventID events) (int (length ls)) (GetAll (dlq eq')) =
      filter (\<lambda>i. i \<notin> (\<lambda>l. ID (Event l)) ` set ls) (map EventID events)"
    by (rule idsToRemove_exact [OF assms(3) sub' dis' view])
  then show ?thesis using f view n by simp
qed

lemma flush_accounts:
  assumes "flush ins env now events eq = Some eq'" and "dlq_inv (dlq eq)"
    and "0 \<le> MaxAttempts (RetryConfig (config eq))" and "ok (store eq)"
  shows "\<exists>ls. dlq eq' = foldl Add (dlq eq) ls \<and> length ls \<le> length events \<and>
     Event ` set ls \<subseteq> model_event ` set events \<and>
     (\<forall>e \<in> set events. stored (store eq') (model_event e) \<or> model_event e \<in> Event ` set ls) \<and>
     (distinct (map EventID events) \<longrightarrow> int (Len (dlq eq) + length events) \<le> dlq_maxSize (dlq eq) \<longrightarrow>
        GetAll (dlq eq') = GetAll (dlq eq) @ ls \<and>
        totalFlushed eq' = totalFlushed eq + int (length events) - int (length ls) \<and>
        persistence eq' = map_option (\<lambda>p. snd (Remove
          (filter (\<lambda>i. i \<notin> (\<lambda>l. ID (Event l)) ` set ls) (map EventID events)) p)) (persistence eq))"
proof -
  obtain ls where ls: "dlq eq' = foldl Add (dlq eq) ls" "sink.accounted (map model_event events) (store eq') ls"
    using flush_covers [OF assms(1,3,4)] by blast
  have "length ls \<le> length events" "Event ` set ls \<subseteq> model_event ` set events"
      "\<forall>e \<in> set events. stored (store eq') (model_event e) \<or> model_event e \<in> Event ` set ls"
    using ls(2) by (auto simp: sink.accounted_def)
  then show ?thesis using ls(1) flush_room [OF assms(1,2) _ _ ls] by (intro exI [of _ ls]) blast
qed

end

section \<open>Properties\<close>

text \<open>A small queue for the witnesses, over a store that accepts everything.\<close>

definition demo_ins :: "Event list \<Rightarrow> Event list effect" where
  "demo_ins xs s = (None, s @ xs)"

definition demo_cfg :: queue_config where
  "demo_cfg = \<lparr>MaxSize = 2, FlushInterval = 50 * ms, BatchSize = 1, PersistencePath = ''q.db'',
               RetryConfig = DefaultConfig, DeadLetterQueueSize = 1\<rparr>"

definition demo_queue :: "mem_db Persistence option \<Rightarrow> (Event list, mem_db) EventQueue" where
  "demo_queue p =
     \<lparr>config = demo_cfg, store = [], persistence = p, eventCh = [], signalled = False,
      ctx_cancelled = False, currentDepth = 0, maxDepth = 0, totalEnqueued = 0, totalFlushed = 0,
      totalFailed = 0, lastFlushAt = 0, dlq = \<lparr>dlq_events = [], dlq_maxSize = 1\<rparr>,
      started = False, stopped = False, enq_calls = [], flush_at = F_none, shutdown_at = S_none\<rparr>"

definition demo_env :: batch_env where
  "demo_env = \<lparr>env_batch = Background, env_item = (\<lambda>_. Background), env_now = (\<lambda>_. 0), env_sched = []\<rparr>"

lemma demo_new:
  "NewEventQueue mem_bolt None (Inr []) [] demo_cfg = Some (Inr (demo_queue (Some mem_p)))"
  using mem_p_new
  by (simp add: NewEventQueue_def demo_cfg_def demo_queue_def NewDeadLetterQueue_def Let_def ms_def)

text \<open>The same queue on a disk that holds one event from an earlier run.\<close>

definition mem_old :: "mem_db Persistence" where
  "mem_old = mem_p\<lparr>disk := [(bucketName, [(event_key 7, marshal demo_event)])]\<rparr>"

lemma demo_new_old:
  "NewEventQueue mem_bolt None (Inr (disk mem_old)) [] demo_cfg = Some (Inr (demo_queue (Some mem_old)))"
proof -
  have "NewPersistence mem_bolt None (Inr (disk mem_old)) ''q.db'' = Inr mem_old"
    by (simp add: NewPersistence_def mem_old_def mem_p_def mem_bolt_def)
  then show ?thesis
    by (simp add: NewEventQueue_def demo_cfg_def demo_queue_def NewDeadLetterQueue_def Let_def ms_def)
qed

lemma mem_old_recover: "Recover mem_old = Inr [demo_event]"
  by (rule mem_recover) (simp add: mem_old_def)

lemma demo_insert:
  "BatchRetry demo_env DefaultConfig [x] (batchInsertWrapper demo_ins) (insertSingleWrapper demo_ins) s q
   = Some (s @ [x], q)"
  by (simp add: BatchRetry_def WithRetry_def retry_loop.simps attempt_def batchInsertWrapper_def
      demo_ins_def DefaultConfig_fields)

lemmas q_eval = q_step_def Enqueue_step_def set_call_def lock_free_def loop_recv_def loop_tick_def
  loop_signal_def loop_step_def flush_insert_def flush_remove_def flush_account_def Start_def
  Shutdown_def Shutdown_step_def Let_def demo_queue_def demo_cfg_def idsToRemove_def demo_insert
  Len_def GetAll_def

text \<open>
  C3. No event is lost, duplicated or reordered inside the queue: in every interleaving the
  events accepted by \<open>Enqueue\<close> or taken back at the start are, in this order, those whose
  batch has been given to the store, the current batch, and the contents of the channel.
\<close>

theorem queue_fifo:
  assumes "NewEventQueue b mkdir open_res s cfg = Some (Inr eq0)" and "q_run ins as eq0 = Some eq"
  shows "observe step_accepts ins as eq0 =
           observe (step_hands ins) ins as eq0 @ batch_of (flush_at eq) @ eventCh eq \<and>
         totalEnqueued eq + uncounted eq = int (length (observe step_accepts ins as eq0))"
proof -
  have inv: "q_inv eq0" by (rule NewEventQueue_inv [OF assms(1)])
  have "pending eq0 = [] \<and> totalEnqueued eq0 = 0 \<and> uncounted eq0 = 0"
    using assms(1) by (auto simp: NewEventQueue_def Let_def pending_def uncounted_def
        split: if_splits option.splits sum.splits)
  then show ?thesis using q_run_ok [OF inv assms(2)] by (simp add: pending_def)
qed

definition demo_run :: "q_action list" where
  "demo_run = [Q_start, Q_enqueue 1 ''view'' None 7, Q_call 0 5, Q_call 0 5, Q_call 0 5, Q_call 0 5,
               Q_call 0 5, Q_call 0 5, Q_recv, Q_loop demo_env 0, Q_loop demo_env 9]"

definition demo_q0 :: "(Event list, mem_db) EventQueue" where
  "demo_q0 = (demo_queue None)\<lparr>config := demo_cfg\<lparr>PersistencePath := []\<rparr>\<rparr>"

lemma demo_new_mem:
  "NewEventQueue mem_bolt None (Inr []) [] (demo_cfg\<lparr>PersistencePath := []\<rparr>) = Some (Inr demo_q0)"
  by (simp add: NewEventQueue_def demo_cfg_def demo_queue_def demo_q0_def NewDeadLetterQueue_def
      Let_def ms_def)

lemma demo_run_result:
  "\<exists>eq. q_run demo_ins demo_run demo_q0 = Some eq \<and> store eq = [model_event demo_event] \<and>
        eventCh eq = [] \<and> currentDepth eq = 0 \<and> maxDepth eq = 1 \<and> batch_of (flush_at eq) = []"
  by (simp add: demo_run_def demo_q0_def q_eval model_event_def demo_event_def)

theorem queue_fifo_witness:
  "\<exists>eq. q_run demo_ins demo_run demo_q0 = Some eq \<and> store eq = [model_event demo_event] \<and>
        observe step_accepts demo_ins demo_run demo_q0 =
        observe (step_hands demo_ins) demo_ins demo_run demo_q0"
  using queue_fifo [OF demo_new_mem] demo_run_result by fastforce

text \<open>
  C12. No interleaving panics, and the bounds hold throughout: the channel never exceeds
  \<open>MaxSize\<close>, a batch never exceeds \<open>BatchSize\<close> except for the one drained at the
  shutdown, at most one call is inside the critical section of \<open>enqueueMu\<close>, and the dead
  letter queue keeps its bound.
\<close>

theorem queue_bounds:
  assumes "NewEventQueue b mkdir open_res s cfg = Some (Inr eq0)"
  shows "\<exists>eq. q_run ins as eq0 = Some eq \<and>
           int (length (eventCh eq)) \<le> MaxSize (config eq) \<and>
           (\<not> draining (flush_at eq) \<longrightarrow> int (length (batch_of (flush_at eq))) \<le> BatchSize (config eq)) \<and>
           length (filter locked (enq_calls eq)) \<le> 1 \<and>
           int (Len (dlq eq)) \<le> DeadLetterQueueSize (config eq)"
proof -
  obtain eq where eq: "q_run ins as eq0 = Some eq" "q_inv eq"
    using q_run_inv [OF NewEventQueue_inv [OF assms]] by blast
  have "\<not> draining (flush_at eq) \<longrightarrow> int (length (batch_of (flush_at eq))) \<le> BatchSize (config eq)"
    using eq(2) by (cases "flush_at eq") (auto simp: q_inv_def loop_inv_def config_ok_def)
  then show ?thesis
    using eq by (auto simp: q_inv_def loop_inv_def call_inv_def dlq_inv_def)
qed

theorem queue_bounds_witness:
  "\<exists>eq. q_run demo_ins (demo_run @ [Q_shutdown, Q_shut True, Q_shut True, Q_shut True, Q_shut True]) demo_q0 = Some eq \<and>
        int (length (eventCh eq)) \<le> MaxSize (config eq)"
  using queue_bounds [OF demo_new_mem] by blast

text \<open>
  C31. The reported depth is the true length of the channel, up to the calls that have sent and
  not yet counted and the event just received, minus the number of events that \<open>Start\<close>
  recovered: these are received and discounted but were never counted, so that the reported
  depth stays too low, and can be negative, for the rest of the run.
\<close>

theorem queue_depth:
  assumes "NewEventQueue b mkdir open_res s cfg = Some (Inr eq0)" and "q_run ins as eq0 = Some eq"
  shows "CurrentDepth (GetStats_eq eq) =
           int (length (eventCh eq)) - uncounted eq + got (flush_at eq)
           - int (length (observe step_recovers ins as eq0))"
proof -
  have "drift eq0 = 0"
    using assms(1) by (auto simp: NewEventQueue_def Let_def drift_def uncounted_def
        split: if_splits option.splits sum.splits)
  then show ?thesis
    using q_run_ok [OF NewEventQueue_inv [OF assms(1)] assms(2)] by (simp add: drift_def GetStats_eq_def)
qed

theorem queue_depth_witness:
  "\<exists>eq. q_run demo_ins [Q_start, Q_recv, Q_loop demo_env 0] (demo_queue (Some mem_old)) = Some eq \<and>
        CurrentDepth (GetStats_eq eq) = - 1 \<and> eventCh eq = []"
proof -
  let ?as = "[Q_start, Q_recv, Q_loop demo_env 0]"
  let ?q = "demo_queue (Some mem_old)"
  have rec: "recovered ?q = [demo_event]"
    by (simp add: recovered_def mem_old_recover demo_queue_def demo_cfg_def)
  have "\<exists>eq. q_run demo_ins ?as ?q = Some eq \<and> eventCh eq = [] \<and> got (flush_at eq) = 0 \<and> uncounted eq = 0"
    by (simp add: q_eval mem_old_recover uncounted_def)
  moreover have "length (observe step_recovers demo_ins ?as ?q) = 1"
    using rec by (simp add: step_recovers_def q_step_def demo_queue_def)
  ultimately show ?thesis using queue_depth [OF demo_new_old] by fastforce
qed

text \<open>
  A clean shutdown loses nothing: once the queue is stopped and no call is past its check
  (and the drain is not yet over), every run in which the flush goroutine ends has given all
  that was pending to the store, in order, and accepts nothing more.
\<close>

theorem shutdown_drains:
  assumes "q_inv eq" and "quiet eq" and "\<not> ending (flush_at eq)"
    and "q_run ins as eq = Some eq'" and "flush_at eq' = F_exited"
  shows "observe (step_hands ins) ins as eq = batch_of (flush_at eq) @ eventCh eq \<and>
         eventCh eq' = [] \<and> observe step_accepts ins as eq = []"
proof -
  have "drained_inv eq" using assms(2,3) by (simp add: drained_inv_def)
  then have "drained_inv eq'" "observe step_accepts ins as eq = []"
    using q_run_drained assms(4) by blast+
  then show ?thesis
    using q_run_ok [OF assms(1,4)] assms(5) by (simp add: drained_inv_def pending_def)
qed

lemma demo_quiet:
  "\<exists>eq. q_run demo_ins (take 8 demo_run @ [Q_shutdown, Q_shut False]) demo_q0 = Some eq \<and> quiet eq \<and>
        \<not> ending (flush_at eq) \<and> signalled eq \<and> flush_at eq = F_select [] \<and> eventCh eq = [demo_event]"
  by (simp add: demo_run_def demo_q0_def q_eval quiet_def demo_event_def)

theorem shutdown_drains_witness:
  "\<exists>(eq :: (Event list, mem_db) EventQueue) as eq'. quiet eq \<and> q_run demo_ins as eq = Some eq' \<and> flush_at eq' = F_exited \<and>
     observe (step_hands demo_ins) demo_ins as eq = [demo_event] \<and> eventCh eq' = []"
proof -
  obtain eq where eq: "q_run demo_ins (take 8 demo_run @ [Q_shutdown, Q_shut False]) demo_q0 = Some eq"
      "quiet eq" "\<not> ending (flush_at eq)" "signalled eq" "flush_at eq = F_select []" "eventCh eq = [demo_event]"
    using demo_quiet by blast
  have inv: "q_inv eq"
    using q_run_inv [OF NewEventQueue_inv [OF demo_new_mem]] eq(1) by (metis option.inject)
  have "flush_at eq \<noteq> F_none" using eq(5) by simp
  then obtain as eq' where run: "q_run demo_ins as eq = Some eq'" "flush_at eq' = F_exited"
    using flusher_ends [OF eq(4)] by blast
  have "batch_of (flush_at eq) @ eventCh eq = [demo_event]" using eq(5,6) by simp
  then show ?thesis using shutdown_drains [OF inv eq(2,3) run] eq(2) run by metis
qed

text \<open>
  C32. The flush goroutine ends after the shutdown signal: from every state some run of its own
  actions alone, however the store answers, takes it to its end.
\<close>

theorem flushLoop_ends:
  assumes "signalled eq" and "flush_at eq \<noteq> F_none"
  shows "\<exists>as eq'. list_all flusher_action as \<and> q_run ins as eq = Some eq' \<and> flush_at eq' = F_exited"
  by (rule flusher_ends [OF assms])

theorem flushLoop_ends_witness:
  "\<exists>as eq'. q_run demo_ins as (demo_q0\<lparr>signalled := True, flush_at := F_select [demo_event]\<rparr>) = Some eq' \<and>
            flush_at eq' = F_exited"
  using flushLoop_ends [of "demo_q0\<lparr>signalled := True, flush_at := F_select [demo_event]\<rparr>" demo_ins]
  by auto

definition call_alone :: "int64 \<Rightarrow> string \<Rightarrow> string option \<Rightarrow> int64 \<Rightarrow> int64 \<Rightarrow> nat \<Rightarrow> q_action list" where
  "call_alone u t m i now k = Q_enqueue u t m i # replicate (Suc (Suc (Suc (Suc (Suc (Suc 0)))))) (Q_call k now)"

text \<open>
  C33. One call of \<open>Enqueue\<close> that is not disturbed: a stopped queue, a full counter and a
  full channel give the three errors and accept nothing; otherwise the event is appended to the
  channel and counted, and the result reports the new depth.
\<close>

theorem Enqueue_result:
  assumes "q_inv eq" and "lock_free eq"
    and "q_run ins (call_alone u t m i now (length (enq_calls eq))) eq = Some eq'"
  shows "enq_calls eq' ! length (enq_calls eq) = E_return
           (if stopped eq then enqueue_error ErrQueueStopped
            else if MaxSize (config eq) \<le> currentDepth eq
            then enqueue_error (full_error (currentDepth eq) (MaxSize (config eq)))
            else if MaxSize (config eq) \<le> int (length (eventCh eq)) then enqueue_error ErrQueueChannelFull
            else \<lparr>er_EventID = i, QueuedAt = sint now, QueueDepth = currentDepth eq + 1, er_Error = None\<rparr>) \<and>
         eventCh eq' = eventCh eq @
           (if stopped eq \<or> MaxSize (config eq) \<le> currentDepth eq \<or> MaxSize (config eq) \<le> int (length (eventCh eq))
            then [] else [\<lparr>EventID = i, UserID = u, EventType = t, Metadata = m, EnqueuedAt = now\<rparr>])"
proof -
  have lf: "list_all (\<lambda>c. \<not> locked c) (enq_calls eq)"
    using assms(2) by (simp add: lock_free_def)
  let ?e = "\<lparr>EventID = i, UserID = u, EventType = t, Metadata = m, EnqueuedAt = now\<rparr>"
  have pe: "\<exists>p'. EnqueueAsync ?e p = Some (p', length (errChs p))" if "persistence eq = Some p" for p
    using assms(1) that enqueue_inv [of p ?e] by (auto simp: q_inv_def call_inv_def)
  consider "stopped eq" | "\<not> stopped eq" "MaxSize (config eq) \<le> currentDepth eq"
    | "\<not> stopped eq" "\<not> MaxSize (config eq) \<le> currentDepth eq" "MaxSize (config eq) \<le> int (length (eventCh eq))"
    | "\<not> stopped eq" "\<not> MaxSize (config eq) \<le> currentDepth eq" "\<not> MaxSize (config eq) \<le> int (length (eventCh eq))"
    by blast
  then show ?thesis
  proof cases
    case 3
    then show ?thesis
      using assms(3) pe
      by (cases "persistence eq") (auto simp: call_alone_def q_step_def Enqueue_step_def set_call_def lock_free_def lf)
  next
    case 4
    then show ?thesis
      using assms(3) pe
      by (cases "persistence eq") (auto simp: call_alone_def q_step_def Enqueue_step_def set_call_def lock_free_def lf)
  qed (use assms(3) in \<open>auto simp: call_alone_def q_step_def Enqueue_step_def set_call_def lock_free_def lf\<close>)
qed

theorem Enqueue_result_witness:
  "\<exists>eq'. q_run demo_ins (call_alone 1 ''view'' None 7 5 0) (demo_q0\<lparr>currentDepth := 2\<rparr>) = Some eq' \<and>
         enq_calls eq' ! 0 = E_return (enqueue_error (full_error 2 2)) \<and>
         errors_Is (full_error 2 2) ErrQueueFull"
proof -
  let ?q = "demo_q0\<lparr>currentDepth := 2\<rparr>"
  have inv: "q_inv ?q"
    using NewEventQueue_inv [OF demo_new_mem] by (auto simp: q_inv_def loop_inv_def call_inv_def)
  obtain eq' where run: "q_run demo_ins (call_alone 1 ''view'' None 7 5 0) ?q = Some eq'"
    using q_run_inv [OF inv] by blast
  have q: "lock_free ?q" "enq_calls ?q = []" "\<not> stopped ?q" "MaxSize (config ?q) = 2"
    by (simp_all add: demo_q0_def demo_queue_def lock_free_def demo_cfg_def)
  show ?thesis
    using Enqueue_result [OF inv q(1), of demo_ins 1 "''view''" None 7 5 eq'] run q
    by (simp add: full_error_def)
qed

text \<open>
  An overfull dead letter queue hides failures: when it is full before a flush, all
  identifiers of the batch are removed from persistence and counted as flushed, whatever
  happened to the inserts.
\<close>

theorem flush_full_dlq:
  assumes "flush ins env now events eq = Some eq'" and "events \<noteq> []" and "dlq_inv (dlq eq)"
    and "int (Len (dlq eq)) = dlq_maxSize (dlq eq)"
  shows "persistence eq' = map_option (\<lambda>p. snd (Remove (map EventID events) p)) (persistence eq) \<and>
         totalFlushed eq' = totalFlushed eq + int (length events)"
proof -
  obtain s' q' where f: "BatchRetry env (RetryConfig (config eq)) (map model_event events)
      (batchInsertWrapper ins) (insertSingleWrapper ins) (store eq) (dlq eq) = Some (s', q')"
    "totalFlushed eq' = totalFlushed eq + (int (length events) - (int (Len q') - int (Len (dlq eq))))"
    "persistence eq' = map_option (\<lambda>p. snd (Remove
       (idsToRemove (map EventID events) (int (Len q') - int (Len (dlq eq))) (GetAll q')) p)) (persistence eq)"
    using flush_parts [OF assms(1,2)] by metis
  obtain log where "q' = foldl Add (dlq eq) log" using BatchRetry_log [OF f(1)] by blast
  then have "Len q' = Len (dlq eq)"
    using dlq.view_foldl [OF assms(3), of log] assms(4) by (simp add: Len_def)
  then show ?thesis using f by (simp add: idsToRemove_def)
qed

text \<open>A store that refuses everything.\<close>

definition down_ins :: "Event list \<Rightarrow> Event list effect" where
  "down_ins xs s = (Some (Errorf ''connection refused''), s)"

definition down_cfg :: queue_config where
  "down_cfg = demo_cfg\<lparr>RetryConfig := DefaultConfig\<lparr>MaxAttempts := 1\<rparr>, DeadLetterQueueSize := 0\<rparr>"

definition down_queue :: "(Event list, mem_db) EventQueue" where
  "down_queue = (demo_queue (Some mem_old))\<lparr>config := down_cfg, dlq := \<lparr>dlq_events = [], dlq_maxSize = 0\<rparr>\<rparr>"

lemma down_flush:
  "\<exists>eq'. flush down_ins (demo_env\<lparr>env_sched := [0, 0, 0, 0]\<rparr>) 9 [demo_event] down_queue = Some eq' \<and>
         store eq' = [] \<and> dlq_events (dlq eq') = []"
  by (simp add: flush_def flush_insert_def Let_def BatchRetry_def WithRetry_def retry_loop.simps attempt_def
      batchInsertWrapper_def insertSingleWrapper_def down_ins_def down_queue_def down_cfg_def demo_queue_def
      demo_env_def Background_def run_sched_def gstep_def spawn_def slots_def sem_cap_def exhausted_def
      Add_def shift_left_def flush_remove_def flush_account_def DefaultConfig_def)

theorem flush_full_dlq_witness:
  "\<exists>eq'. flush down_ins (demo_env\<lparr>env_sched := [0, 0, 0, 0]\<rparr>) 9 [demo_event] down_queue = Some eq' \<and>
         store eq' = [] \<and> dlq_events (dlq eq') = [] \<and> totalFlushed eq' = 1 \<and>
         persistence eq' = Some (snd (Remove [7] mem_old))"
proof -
  obtain eq' where e: "flush down_ins (demo_env\<lparr>env_sched := [0, 0, 0, 0]\<rparr>) 9 [demo_event] down_queue = Some eq'"
      "store eq' = []" "dlq_events (dlq eq') = []"
    using down_flush by blast
  have "dlq_inv (dlq down_queue)" "int (Len (dlq down_queue)) = dlq_maxSize (dlq down_queue)"
    by (simp_all add: down_queue_def dlq_inv_def Len_def)
  from flush_full_dlq [OF e(1) _ this] e show ?thesis
    by (simp add: down_queue_def demo_queue_def demo_event_def)
qed

definition late_run :: "q_action list" where
  "late_run = [Q_start, Q_enqueue 1 ''view'' None 7, Q_call 0 5, Q_shutdown, Q_shut False, Q_signal, Q_recv,
               Q_shut False, Q_shut False, Q_shut False] @ replicate (Suc (Suc (Suc (Suc (Suc 0))))) (Q_call 0 5)"

text \<open>
  A call that has passed its check before the shutdown can still be accepted after the
  flush goroutine has ended: it returns no error and its event stays in the channel, although
  the shutdown is complete.
\<close>

theorem late_enqueue_is_stranded:
  "\<exists>eq. q_run demo_ins late_run demo_q0 = Some eq \<and> shutdown_at eq = S_done \<and> flush_at eq = F_exited \<and>
        enq_calls eq = [E_return \<lparr>er_EventID = 7, QueuedAt = 5, QueueDepth = 1, er_Error = None\<rparr>] \<and>
        eventCh eq = [demo_event] \<and> store eq = []"
  by (simp add: late_run_def demo_q0_def q_eval demo_event_def)

definition race_run :: "q_action list" where
  "race_run = take 8 demo_run @ [Q_recv, Q_loop demo_env 0, Q_loop demo_env 0, Q_loop demo_env 0,
               Q_loop demo_env 0, Q_writer, Q_writer, Q_writer]"

text \<open>
  The asynchronous write can overtake the removal: the flush stores an event and removes it
  from persistence before the writer has put it there, and the writer then leaves an entry for
  an event that is already in the store; a restart inserts it a second time.
\<close>

theorem stale_persisted_event:
  "\<exists>eq p. q_run demo_ins race_run (demo_queue (Some mem_p)) = Some eq \<and>
          store eq = [model_event demo_event] \<and> flush_at eq = F_select [] \<and>
          persistence eq = Some p \<and> Recover p = Inr [demo_event]"
proof -
  let ?ev = "\<lparr>EventID = 7, UserID = 1, EventType = ''view'', Metadata = None, EnqueuedAt = 5\<rparr> :: PendingEvent"
  let ?req = "\<lparr>event = ?ev, errCh = 0\<rparr>"
  let ?p1 = "mem_p\<lparr>errChs := [new_chan], writeCh := [?req]\<rparr>"
  let ?p2 = "mem_p\<lparr>errChs := [new_chan], disk := [(bucketName, [(event_key 7, marshal ?ev)])],
               writing := W_send ?req None\<rparr>"
  have st: "Recover mem_p = Inr []"
    by (simp add: Recover_def mem_p_def mem_bolt_def no_bucket_def map_filter_simps)
  have en: "EnqueueAsync ?ev mem_p = Some (?p1, 0)" by (simp add: p_eval mem_p_def)
  have rm: "Remove [7] ?p1 = (None, ?p1)" by (simp add: Remove_def mem_p_def mem_bolt_def)
  have wr: "writeLoop ?p1 = Some (mem_p\<lparr>errChs := [new_chan], writeCh := [], writing := W_check ?req\<rparr>)"
      "writeLoop (mem_p\<lparr>errChs := [new_chan], writeCh := [], writing := W_check ?req\<rparr>) = Some (mem_p\<lparr>errChs := [new_chan], writeCh := [], writing := W_update ?req\<rparr>)"
      "writeLoop (mem_p\<lparr>errChs := [new_chan], writeCh := [], writing := W_update ?req\<rparr>) = Some ?p2"
    by (simp_all add: p_eval mem_p_def mem_bolt_def)
  have "Recover ?p2 = Recover (mem_p\<lparr>disk := disk ?p2\<rparr>)"
    by (simp add: Recover_def mem_p_def mem_bolt_def no_bucket_def)
  then have re: "Recover ?p2 = Inr [demo_event]"
    using mem_recover [of "mem_p\<lparr>disk := disk ?p2\<rparr>"] by (simp add: demo_event_def)
  have "\<exists>eq. q_run demo_ins race_run (demo_queue (Some mem_p)) = Some eq \<and>
          store eq = [model_event demo_event] \<and> flush_at eq = F_select [] \<and> persistence eq = Some ?p2"
    by (simp add: race_run_def demo_run_def q_eval st en rm wr demo_event_def model_event_def
        del: Persistence.update_convs)
  with re show ?thesis by blast
qed

end
