(* ===== verification/Database.thy ===== *)
theory Database
  imports Models "HOL-Library.Multiset"
begin

text \<open>
  The relational tables of \<open>src/sql/init.sql\<close> and the meaning of the SQL statements that the
  Go sources contain, and the connection set-up of \<open>src/internal/stores/database.go\<close>.

  A statement is atomic. A list of faults, consumed one per statement, says which statements the
  server or the connection makes fail, before the statement has run or after it (a lost reply).
  What PostgreSQL alone knows (the canonical form of a \<open>jsonb\<close> value, the \<open>->>\<close>
  operator, the cast of a time to \<open>timestamp\<close>, the text of an aggregated object, the order of
  groups) is the environment
  \<open>pg_env\<close>. The time of the column default is a field of the database.
\<close>


section \<open>Tables\<close>

record event_row =
  row_event_id :: int64
  row_user_id :: int64
  row_type_id :: int64
  row_timestamp :: int
  row_metadata :: string

datatype fault = F_ok | F_before go_error | F_after go_error

record pg =
  users :: "int64 list"
  event_types :: "(int64 \<times> string) list"
  events :: "event_row list"
  type_seq :: int
  pg_now :: int
  faults :: "fault list"

record pg_env =
  jsonb_in :: "string \<Rightarrow> string option"
  page_of :: "string \<Rightarrow> string option"
  pg_timestamp :: "go_time \<Rightarrow> int"
  group_order :: "string list \<Rightarrow> string list"
  json_object_agg :: "(string \<times> nat) list \<Rightarrow> string"

text \<open>SQLSTATE codes of the errors that the schema can raise.\<close>

definition unique_violation :: go_error where "unique_violation = Ext ''23505'' ''duplicate key''"
definition foreign_key_violation :: go_error where
  "foreign_key_violation = Ext ''23503'' ''violates foreign key constraint''"
definition invalid_text :: go_error where "invalid_text = Ext ''22P02'' ''invalid input syntax''"
definition too_long :: go_error where "too_long = Ext ''22001'' ''value too long''"
definition sequence_limit :: go_error where
  "sequence_limit = Ext ''2200H'' ''reached maximum value of sequence''"
definition ErrNoRows :: go_error where "ErrNoRows = New ''sql: no rows in result set''"

lemmas sql_errors = unique_violation_def foreign_key_violation_def invalid_text_def too_long_def
  sequence_limit_def ErrNoRows_def

text \<open>The constraints of the schema.\<close>

definition pg_ok :: "pg \<Rightarrow> bool" where
  "pg_ok db \<longleftrightarrow>
     distinct (map row_event_id (events db)) \<and>
     distinct (map fst (event_types db)) \<and> distinct (map snd (event_types db)) \<and>
     (\<forall>r \<in> set (events db). row_type_id r \<in> fst ` set (event_types db) \<and> row_user_id r \<in> set (users db)) \<and>
     (\<forall>(t, n) \<in> set (event_types db). sint t < type_seq db) \<and> 1 \<le> type_seq db"


section \<open>Statements\<close>

definition statement :: "(pg \<Rightarrow> (go_error + 'a) \<times> pg) \<Rightarrow> pg \<Rightarrow> (go_error + 'a) \<times> pg" where
  "statement f db =
     (case faults db of
        [] \<Rightarrow> f db
      | F_ok # fs \<Rightarrow> f (db\<lparr>faults := fs\<rparr>)
      | F_before e # fs \<Rightarrow> (Inl e, db\<lparr>faults := fs\<rparr>)
      | F_after e # fs \<Rightarrow> (Inl e, snd (f (db\<lparr>faults := fs\<rparr>))))"

text \<open>A query changes nothing but the list of faults.\<close>

definition query :: "(pg \<Rightarrow> go_error + 'a) \<Rightarrow> pg \<Rightarrow> (go_error + 'a) \<times> pg" where
  "query f = statement (\<lambda>db. (f db, db))"

text \<open>
  \<open>insert into events (event_id, user_id, type_id, metadata)\<close> of any number of rows: the
  values are converted, the primary key is checked, then the foreign keys.
\<close>

definition new_row :: "pg_env \<Rightarrow> pg \<Rightarrow> int64 \<times> int64 \<times> int64 \<times> string \<Rightarrow> event_row option" where
  "new_row env db v =
     (case v of (i, u, t, m) \<Rightarrow>
        map_option (\<lambda>j. \<lparr>row_event_id = i, row_user_id = u, row_type_id = t,
                         row_timestamp = pg_now db, row_metadata = j\<rparr>) (jsonb_in env m))"

definition insert_events ::
  "pg_env \<Rightarrow> (int64 \<times> int64 \<times> int64 \<times> string) list \<Rightarrow> pg \<Rightarrow> (go_error + event_row list) \<times> pg" where
  "insert_events env vs db =
     (case those (map (new_row env db) vs) of
        None \<Rightarrow> (Inl invalid_text, db)
      | Some rows \<Rightarrow>
          if \<not> distinct (map row_event_id (events db @ rows)) then (Inl unique_violation, db)
          else if list_ex (\<lambda>r. row_type_id r \<notin> fst ` set (event_types db) \<or>
                               row_user_id r \<notin> set (users db)) rows
          then (Inl foreign_key_violation, db)
          else (Inr rows, db\<lparr>events := events db @ rows\<rparr>))"

text \<open>Number of characters of a UTF-8 string: bytes that do not continue one.\<close>

definition char_count :: "string \<Rightarrow> nat" where
  "char_count s = length (filter (\<lambda>c. \<not> (128 \<le> (of_char c :: nat) \<and> (of_char c :: nat) < 192)) s)"

definition type_of_name :: "string \<Rightarrow> pg \<Rightarrow> int64 option" where
  "type_of_name n db = map_option fst (find (\<lambda>tn. snd tn = n) (event_types db))"

text \<open>
  The statement of \<open>GetOrCreateTypeID\<close>: an insert that does nothing on a conflict, and the
  identifier from the inserted or the existing row. The sequence advances in either case.
\<close>

definition upsert_type :: "string \<Rightarrow> pg \<Rightarrow> (go_error + int64) \<times> pg" where
  "upsert_type n db =
     (let t = word_of_int (type_seq db); db1 = db\<lparr>type_seq := type_seq db + 1\<rparr> in
      if 2 ^ 63 \<le> type_seq db then (Inl sequence_limit, db)
      else if 255 < char_count n then (Inl too_long, db1)
      else case type_of_name n db of
        Some i \<Rightarrow> (Inr i, db1)
      | None \<Rightarrow> (Inr t, db1\<lparr>event_types := event_types db @ [(t, n)]\<rparr>))"

text \<open>\<open>order by event_id desc\<close>; the column is \<open>bigint\<close>.\<close>

definition newest_first :: "event_row list \<Rightarrow> event_row list" where
  "newest_first rs = rev (sort_key (\<lambda>r. sint (row_event_id r)) rs)"

text \<open>The inner join with the types and the columns of the result.\<close>

definition join_type :: "pg \<Rightarrow> event_row \<Rightarrow> Event option" where
  "join_type db r =
     map_option (\<lambda>n. \<lparr>ID = row_event_id r, ev_UserID = row_user_id r, TypeID = row_type_id r,
                       ev_Timestamp = row_timestamp r, ev_Metadata = Some (row_metadata r), Type = n\<rparr>)
       (map_of (event_types db) (row_type_id r))"

definition of_user :: "int64 option \<Rightarrow> event_row \<Rightarrow> bool" where
  "of_user u r = (case u of None \<Rightarrow> True | Some i \<Rightarrow> row_user_id r = i)"

definition select_page :: "int64 option \<Rightarrow> nat \<Rightarrow> nat \<Rightarrow> pg \<Rightarrow> Event list" where
  "select_page u lim off db =
     take lim (drop off (List.map_filter (join_type db) (newest_first (filter (of_user u) (events db)))))"

definition count_events :: "int64 option \<Rightarrow> pg \<Rightarrow> nat" where
  "count_events u db = length (filter (of_user u) (events db))"


section \<open>The statistics query\<close>

definition in_window :: "pg_env \<Rightarrow> GetStatsData \<Rightarrow> event_row \<Rightarrow> bool" where
  "in_window env d r \<longleftrightarrow>
     (case From d of None \<Rightarrow> True | Some f \<Rightarrow> pg_timestamp env f \<le> row_timestamp r) \<and>
     (case To d of None \<Rightarrow> True | Some t \<Rightarrow> row_timestamp r < pg_timestamp env t) \<and>
     (case gs_TypeID d of None \<Rightarrow> True | Some i \<Rightarrow> row_type_id r = i)"

definition page_counts :: "pg_env \<Rightarrow> GetStatsData \<Rightarrow> pg \<Rightarrow> (string \<times> nat) list" where
  "page_counts env d db =
     (let pages = List.map_filter (\<lambda>r. page_of env (row_metadata r)) (filter (in_window env d) (events db))
      in map (\<lambda>p. (p, length (filter (\<lambda>q. q = p) pages))) (group_order env (remdups pages)))"

definition top_pages :: "pg_env \<Rightarrow> GetStatsData \<Rightarrow> pg \<Rightarrow> (string \<times> nat) list" where
  "top_pages env d db = take 10 (rev (sort_key snd (rev (page_counts env d db))))"

definition select_stats :: "pg_env \<Rightarrow> GetStatsData \<Rightarrow> pg \<Rightarrow> Stats" where
  "select_stats env d db =
     (let rs = filter (in_window env d) (events db); top = top_pages env d db in
      \<lparr>TotalEvents = int (length rs), UniqueUsers = int (card (row_user_id ` set rs)),
       TopPages = (if top = [] then ''{}'' else json_object_agg env top)\<rparr>)"


section \<open>Connecting\<close>

record pool_settings =
  maxOpen :: int
  maxIdle :: int

text \<open>\<open>dial\<close> is what \<open>sqlx.Connect\<close> reports for the URL.\<close>

definition ConnectWithPool ::
  "(string \<Rightarrow> go_error + pg) \<Rightarrow> string \<Rightarrow> int \<Rightarrow> int \<Rightarrow> go_error + pg \<times> pool_settings" where
  "ConnectWithPool dial url maxOpenConns maxIdleConns =
     (if maxOpenConns \<le> 0
      then Inl (Errorf (''maxOpenConns must be positive, got '' @ fmt_d maxOpenConns))
      else if maxIdleConns \<le> 0
      then Inl (Errorf (''maxIdleConns must be positive, got '' @ fmt_d maxIdleConns))
      else if maxIdleConns > maxOpenConns
      then Inl (Errorf (''maxIdleConns ('' @ fmt_d maxIdleConns @ '') cannot exceed maxOpenConns ('' @
                        fmt_d maxOpenConns @ '')''))
      else case dial url of
        Inl e \<Rightarrow> Inl e
      | Inr db \<Rightarrow> Inr (db, \<lparr>maxOpen = maxOpenConns, maxIdle = maxIdleConns\<rparr>))"

definition Connect :: "(string \<Rightarrow> go_error + pg) \<Rightarrow> string \<Rightarrow> go_error + pg \<times> pool_settings" where
  "Connect dial url = ConnectWithPool dial url 20 10"

end
