(* ===== verification/Stores.thy ===== *)
theory Stores
  imports Database Snowflake EventQueue
begin

text \<open>
  The data access layer: \<open>src/internal/stores/event_store.go\<close> and
  \<open>src/internal/stores/stats_store.go\<close>, over the database of theory \<open>Database\<close>.
  Operations return their result and the new state of the store; an operation that draws an
  identifier also takes and returns the number of clock readings made so far.
\<close>


section \<open>The event store\<close>

record EventStore =
  db :: pg
  snowflake :: Snowflake
  typeCache :: "string \<rightharpoonup> int64"
  cacheWarmedUp :: bool
  warmupDone :: bool

text \<open>\<open>None\<close> is the panic on an invalid node number.\<close>

definition NewEventStore :: "pg \<Rightarrow> int64 \<Rightarrow> EventStore option" where
  "NewEventStore d node =
     (case New_sf node of
        Inl _ \<Rightarrow> None
      | Inr sf \<Rightarrow> Some \<lparr>db = d, snowflake = sf, typeCache = Map.empty, cacheWarmedUp = False,
                        warmupDone = False\<rparr>)"

definition GenerateEventID ::
  "clock \<Rightarrow> nat \<Rightarrow> EventStore \<Rightarrow> ((go_error + int64) \<times> EventStore \<times> nat) option" where
  "GenerateEventID clk k s =
     (case Generate clk k (snowflake s) of
        None \<Rightarrow> None
      | Some (r, sf, k') \<Rightarrow> Some (r, s\<lparr>snowflake := sf\<rparr>, k'))"

text \<open>A statement run on the store's database.\<close>

definition on_db :: "(pg \<Rightarrow> (go_error + 'a) \<times> pg) \<Rightarrow> EventStore \<Rightarrow> (go_error + 'a) \<times> EventStore" where
  "on_db f s = (case f (db s) of (r, d) \<Rightarrow> (r, s\<lparr>db := d\<rparr>))"

text \<open>\<open>database/sql\<close> refuses an unsigned argument with the high bit set.\<close>

definition high_bit_error :: go_error where
  "high_bit_error = Errorf ''uint64 values with high bit set are not supported''"

definition fits_int64 :: "uint \<Rightarrow> bool" where
  "fits_int64 u \<longleftrightarrow> unat u < 2 ^ 63"

definition GetPaginated ::
  "uint \<Rightarrow> uint \<Rightarrow> int64 option \<Rightarrow> EventStore \<Rightarrow> (go_error + Event list) \<times> EventStore" where
  "GetPaginated page limit userID s =
     (let offset = (page - 1) * limit in
      if \<not> fits_int64 limit \<or> \<not> fits_int64 offset then (Inl high_bit_error, s)
      else on_db (query (\<lambda>d. Inr (select_page userID (unat limit) (unat offset) d))) s)"

definition GetTotal :: "int64 option \<Rightarrow> EventStore \<Rightarrow> (go_error + int) \<times> EventStore" where
  "GetTotal userID = on_db (query (\<lambda>d. Inr (int (count_events userID d))))"

definition GetEventTypeId :: "string \<Rightarrow> EventStore \<Rightarrow> (go_error + int64) \<times> EventStore" where
  "GetEventTypeId name =
     on_db (query (\<lambda>d. case type_of_name name d of None \<Rightarrow> Inl ErrNoRows | Some t \<Rightarrow> Inr t))"

text \<open>Every row of the table is put into the cache, in the order of the result.\<close>

fun store_rows :: "(int64 \<times> string) list \<Rightarrow> (string \<rightharpoonup> int64) \<Rightarrow> (string \<rightharpoonup> int64)" where
  "store_rows [] m = m"
| "store_rows ((t, n) # rows) m = store_rows rows (m(n \<mapsto> t))"

definition warmTypeCache :: "EventStore \<Rightarrow> go_error option \<times> EventStore" where
  "warmTypeCache s =
     (case on_db (query (\<lambda>d. Inr (event_types d))) s of
        (Inl e, s1) \<Rightarrow> (Some e, s1)
      | (Inr rows, s1) \<Rightarrow>
          (None, s1\<lparr>typeCache := store_rows rows (typeCache s1)\<rparr>))"

definition warm_once :: "EventStore \<Rightarrow> go_error option \<times> EventStore" where
  "warm_once s =
     (if warmupDone s then (None, s)
      else case warmTypeCache s of
        (err, s1) \<Rightarrow> (err, s1\<lparr>cacheWarmedUp := True, warmupDone := True\<rparr>))"

definition GetOrCreateTypeID :: "string \<Rightarrow> EventStore \<Rightarrow> (go_error + int64) \<times> EventStore" where
  "GetOrCreateTypeID eventType s =
     (case typeCache s eventType of
        Some t \<Rightarrow> (Inr t, s)
      | None \<Rightarrow>
          (case on_db (statement (upsert_type eventType)) s of
             (Inl e, s1) \<Rightarrow> (Inl e, s1)
           | (Inr t, s1) \<Rightarrow> (Inr t, s1\<lparr>typeCache := (typeCache s1)(eventType \<mapsto> t)\<rparr>)))"

definition or_empty_object :: "string option \<Rightarrow> string" where
  "or_empty_object m = (if slice_len m = 0 then ''{}'' else the m)"

text \<open>The scanned row has no column for the name of the type.\<close>

definition scan_event :: "event_row \<Rightarrow> Event" where
  "scan_event r =
     \<lparr>ID = row_event_id r, ev_UserID = row_user_id r, TypeID = row_type_id r,
      ev_Timestamp = row_timestamp r, ev_Metadata = Some (row_metadata r), Type = []\<rparr>"

definition CreateEventWithType ::
  "pg_env \<Rightarrow> clock \<Rightarrow> int64 \<Rightarrow> string \<Rightarrow> string option \<Rightarrow> nat \<Rightarrow> EventStore
   \<Rightarrow> ((go_error + Event) \<times> EventStore \<times> nat) option" where
  "CreateEventWithType env clk userID eventType metadata k s =
     (case warm_once s of
        (Some e, s1) \<Rightarrow> Some (Inl e, s1, k)
      | (None, s1) \<Rightarrow>
          (case GetOrCreateTypeID eventType s1 of
             (Inl e, s2) \<Rightarrow> Some (Inl e, s2, k)
           | (Inr typeID, s2) \<Rightarrow>
               (case GenerateEventID clk k s2 of
                  None \<Rightarrow> None
                | Some (Inl e, s3, k') \<Rightarrow> Some (Inl e, s3, k')
                | Some (Inr eventID, s3, k') \<Rightarrow>
                    (case on_db (statement (insert_events env
                            [(eventID, userID, typeID, or_empty_object metadata)])) s3 of
                       (Inl e, s4) \<Rightarrow> Some (Inl e, s4, k')
                     | (Inr rows, s4) \<Rightarrow> Some (Inr (scan_event (hd rows)), s4, k')))))"


section \<open>The batch insert\<close>

text \<open>The first loop: the distinct types in the order of their first use.\<close>

fun collect_types :: "Event list \<Rightarrow> string list \<Rightarrow> go_error + string list" where
  "collect_types [] ts = Inr ts"
| "collect_types (e # es) ts =
     (if Type e = [] then Inl (Errorf ''event type cannot be empty'')
      else collect_types es (if Type e \<in> set ts then ts else ts @ [Type e]))"

text \<open>The second loop: an identifier for each type.\<close>

fun resolve_types ::
  "string list \<Rightarrow> (string \<rightharpoonup> int64) \<Rightarrow> EventStore \<Rightarrow> (go_error + (string \<rightharpoonup> int64)) \<times> EventStore" where
  "resolve_types [] m s = (Inr m, s)"
| "resolve_types (t # ts) m s =
     (case GetOrCreateTypeID t s of
        (Inl e, s1) \<Rightarrow> (Inl (Wrap (''failed to get type ID for '' @ t @ '': '') e ''''), s1)
      | (Inr i, s1) \<Rightarrow> resolve_types ts (m(t \<mapsto> i)) s1)"

text \<open>The third loop: the argument arrays of the statement.\<close>

fun batch_values ::
  "(string \<rightharpoonup> int64) \<Rightarrow> Event list \<Rightarrow> go_error + (int64 \<times> int64 \<times> int64 \<times> string) list" where
  "batch_values m [] = Inr []"
| "batch_values m (e # es) =
     (case m (Type e) of
        None \<Rightarrow> Inl (Errorf (''type ID not found for event type: '' @ Type e))
      | Some t \<Rightarrow>
          (case batch_values m es of
             Inl err \<Rightarrow> Inl err
           | Inr vs \<Rightarrow> Inr ((ID e, ev_UserID e, t, or_empty_object (ev_Metadata e)) # vs)))"

definition BatchInsertEventsContext :: "pg_env \<Rightarrow> Event list \<Rightarrow> EventStore effect" where
  "BatchInsertEventsContext env es s =
     (if es = [] then (None, s)
      else case warm_once s of
        (Some e, s1) \<Rightarrow> (Some e, s1)
      | (None, s1) \<Rightarrow>
          (case collect_types es [] of
             Inl e \<Rightarrow> (Some e, s1)
           | Inr ts \<Rightarrow>
               (case resolve_types ts Map.empty s1 of
                  (Inl e, s2) \<Rightarrow> (Some e, s2)
                | (Inr m, s2) \<Rightarrow>
                    (case batch_values m es of
                       Inl e \<Rightarrow> (Some e, s2)
                     | Inr vs \<Rightarrow>
                         (case on_db (statement (insert_events env vs)) s2 of
                            (Inl e, s3) \<Rightarrow> (Some (Wrap ''batch insert failed: '' e ''''), s3)
                          | (Inr _, s3) \<Rightarrow> (None, s3))))))"

definition BatchInsertEvents :: "pg_env \<Rightarrow> Event list \<Rightarrow> EventStore effect" where
  "BatchInsertEvents env es = BatchInsertEventsContext env es"

definition InsertEventWithID :: "pg_env \<Rightarrow> Event \<Rightarrow> EventStore effect" where
  "InsertEventWithID env e s =
     (case on_db (statement (insert_events env
             [(ID e, ev_UserID e, TypeID e, or_empty_object (ev_Metadata e))])) s of
        (Inl err, s1) \<Rightarrow> (Some (Wrap ''insert event failed: '' err ''''), s1)
      | (Inr _, s1) \<Rightarrow> (None, s1))"


section \<open>The stats store\<close>

definition GetStats_store :: "pg_env \<Rightarrow> GetStatsData \<Rightarrow> pg \<Rightarrow> (go_error + Stats) \<times> pg" where
  "GetStats_store env d p =
     (case query (\<lambda>d'. Inr (select_stats env d d')) p of
        (Inl e, p1) \<Rightarrow> (Inl (Wrap ''failed to get stats: '' e ''''), p1)
      | (Inr st, p1) \<Rightarrow> (Inr st, p1))"

section \<open>The database only grows and keeps its constraints\<close>

definition pg_le :: "pg \<Rightarrow> pg \<Rightarrow> bool" where
  "pg_le d d' \<longleftrightarrow> set (events d) \<subseteq> set (events d') \<and> set (event_types d) \<subseteq> set (event_types d') \<and>
     users d' = users d"

lemma pg_le_refl [simp]: "pg_le d d"
  by (simp add: pg_le_def)

lemma pg_le_trans: "pg_le a b \<Longrightarrow> pg_le b c \<Longrightarrow> pg_le a c"
  by (auto simp: pg_le_def)

lemma pg_faults [simp]:
  "pg_ok (d\<lparr>faults := fs\<rparr>) \<longleftrightarrow> pg_ok d" "pg_le (d\<lparr>faults := fs\<rparr>) d' \<longleftrightarrow> pg_le d d'"
  "pg_le d (d'\<lparr>faults := fs\<rparr>) \<longleftrightarrow> pg_le d d'"
  by (simp_all add: pg_ok_def pg_le_def)

definition grows :: "(pg \<Rightarrow> (go_error + 'a) \<times> pg) \<Rightarrow> bool" where
  "grows f \<longleftrightarrow> (\<forall>d. pg_ok d \<longrightarrow> pg_ok (snd (f d)) \<and> pg_le d (snd (f d)))"

lemma statement_law:
  assumes "pg_ok d" and "statement f d = (r, d')" and "grows f"
  shows "pg_ok d'" and "pg_le d d'"
    and "r = Inr x \<Longrightarrow> \<exists>fs. f (d\<lparr>faults := fs\<rparr>) = (Inr x, d')"
proof -
  have f: "pg_ok (snd (f (d\<lparr>faults := fs\<rparr>))) \<and> pg_le d (snd (f (d\<lparr>faults := fs\<rparr>)))" for fs
    using assms(3) [unfolded grows_def, rule_format, of "d\<lparr>faults := fs\<rparr>"] assms(1) by simp
  consider (run) fs where "f (d\<lparr>faults := fs\<rparr>) = (r, d')"
    | (before) e fs where "r = Inl e" "d' = d\<lparr>faults := fs\<rparr>"
    | (after) e fs where "r = Inl e" "d' = snd (f (d\<lparr>faults := fs\<rparr>))"
  proof (cases "faults d")
    case Nil
    then have e: "d\<lparr>faults := []\<rparr> = d" by simp
    have "f d = (r, d')" using assms(2) Nil by (simp add: statement_def)
    then show ?thesis by (intro run [of "[]"]) (unfold e)
  next
    case (Cons a fs)
    then show ?thesis
      using assms(2) run [of fs] before after by (cases a) (auto simp: statement_def)
  qed
  then have "pg_ok d' \<and> pg_le d d' \<and> (r = Inr x \<longrightarrow> (\<exists>fs. f (d\<lparr>faults := fs\<rparr>) = (Inr x, d')))"
  proof cases
    case (run fs)
    then show ?thesis using f [of fs] by auto
  next
    case (before e fs)
    then show ?thesis using assms(1) by simp
  next
    case (after e fs)
    then show ?thesis using f [of fs] by simp
  qed
  then show "pg_ok d'" "pg_le d d'" "r = Inr x \<Longrightarrow> \<exists>fs. f (d\<lparr>faults := fs\<rparr>) = (Inr x, d')"
    by blast+
qed

lemma query_law:
  assumes "pg_ok d" and "query f d = (r, d')"
  shows "pg_ok d'" and "pg_le d d'"
    and "r = Inr x \<Longrightarrow> \<exists>fs. d' = d\<lparr>faults := fs\<rparr> \<and> f d' = Inr x"
proof -
  have "grows (\<lambda>d. (f d, d))" by (simp add: grows_def)
  note l = statement_law [OF assms(1) assms(2) [unfolded query_def] this]
  show "pg_ok d'" "pg_le d d'" using l(1,2) by auto
  show "r = Inr x \<Longrightarrow> \<exists>fs. d' = d\<lparr>faults := fs\<rparr> \<and> f d' = Inr x" using l(3) by auto
qed

lemma those_map_Some:
  "those (map f xs) = Some ys \<longleftrightarrow> map f xs = map Some ys"
proof (induction xs arbitrary: ys)
  case (Cons x xs)
  then show ?case by (cases ys) (auto split: option.splits)
qed auto

lemma insert_events_law:
  assumes "pg_ok d" and "insert_events env vs d = (r, d')"
  shows "pg_ok d' \<and> pg_le d d' \<and> (case r of
           Inl e \<Rightarrow> d' = d
         | Inr rows \<Rightarrow> map (new_row env d) vs = map Some rows \<and> d' = d\<lparr>events := events d @ rows\<rparr>)"
proof (cases r)
  case (Inl e)
  then have "d' = d"
    using assms(2) by (auto simp: insert_events_def split: option.splits if_splits)
  then show ?thesis using assms(1) Inl by simp
next
  case (Inr rows)
  then have rows: "map (new_row env d) vs = map Some rows" "distinct (map row_event_id (events d @ rows))"
      "\<not> list_ex (\<lambda>r. row_type_id r \<notin> fst ` set (event_types d) \<or> row_user_id r \<notin> set (users d)) rows"
      "d' = d\<lparr>events := events d @ rows\<rparr>"
    using assms(2) by (auto simp: insert_events_def those_map_Some split: option.splits if_splits)
  then show ?thesis using assms(1) Inr by (auto simp: pg_ok_def pg_le_def list_ex_iff)
qed

lemma type_of_name_mem: "type_of_name n d = Some t \<Longrightarrow> (t, n) \<in> set (event_types d)"
proof -
  assume "type_of_name n d = Some t"
  then obtain x where x: "find (\<lambda>tn. snd tn = n) (event_types d) = Some x" "fst x = t"
    by (auto simp: type_of_name_def)
  then have "x \<in> set (event_types d) \<and> snd x = n" by (auto simp: find_Some_iff)
  then show ?thesis using x(2) by (metis prod.collapse)
qed

lemma type_of_name_None: "type_of_name n d = None \<Longrightarrow> n \<notin> snd ` set (event_types d)"
  by (auto simp: type_of_name_def find_None_iff)

lemma upsert_type_law:
  assumes "pg_ok d" and "upsert_type n d = (r, d')"
  shows "pg_ok d' \<and> pg_le d d' \<and> events d' = events d \<and> (\<forall>t. r = Inr t \<longrightarrow> (t, n) \<in> set (event_types d'))"
proof -
  have seq: "sint (word_of_int (type_seq d) :: int64) = type_seq d" if "\<not> 2 ^ 63 \<le> type_seq d"
    using assms(1) that by (intro sint_word_of_int64) (auto simp: pg_ok_def)
  have fresh: "(word_of_int (type_seq d) :: int64) \<notin> fst ` set (event_types d)" if "\<not> 2 ^ 63 \<le> type_seq d"
  proof
    assume "(word_of_int (type_seq d) :: int64) \<in> fst ` set (event_types d)"
    then have "sint (word_of_int (type_seq d) :: int64) < type_seq d"
      using assms(1) unfolding pg_ok_def by fastforce
    then show False using seq [OF that] by simp
  qed
  have mono: "\<forall>(t, n) \<in> set (event_types d). sint t < type_seq d + 1"
    using assms(1) by (fastforce simp: pg_ok_def)
  show ?thesis
  proof (cases "2 ^ 63 \<le> type_seq d \<or> 255 < char_count n")
    case True
    then show ?thesis
      using assms mono by (auto simp: upsert_type_def Let_def pg_ok_def pg_le_def split: if_splits)
  next
    case False
    show ?thesis
    proof (cases "type_of_name n d")
      case None
      have d': "d' = d\<lparr>type_seq := type_seq d + 1, event_types := event_types d @ [(word_of_int (type_seq d), n)]\<rparr>"
          "r = Inr (word_of_int (type_seq d))"
        using assms(2) None False by (auto simp: upsert_type_def Let_def)
      show ?thesis
        using assms(1) None False fresh seq mono type_of_name_None [OF None]
        by (auto simp: d' pg_ok_def pg_le_def)
    next
      case (Some t)
      have d': "d' = d\<lparr>type_seq := type_seq d + 1\<rparr>" "r = Inr t"
        using assms(2) Some False by (auto simp: upsert_type_def Let_def)
      show ?thesis
        using assms(1) mono type_of_name_mem [OF Some] by (auto simp: d' pg_ok_def pg_le_def)
    qed
  qed
qed

lemma grows_upsert: "grows (upsert_type n)"
  unfolding grows_def using upsert_type_law [of _ n] by (metis prod.collapse)

lemma grows_insert: "grows (insert_events env vs)"
  unfolding grows_def using insert_events_law [of _ env vs] by (metis prod.collapse)


section \<open>The invariant of the store\<close>

text \<open>The cached identifiers are those of the table.\<close>

definition store_ok :: "EventStore \<Rightarrow> bool" where
  "store_ok s \<longleftrightarrow> pg_ok (db s) \<and>
     (\<forall>n t. typeCache s n = Some t \<longrightarrow> (t, n) \<in> set (event_types (db s)))"

definition store_le :: "EventStore \<Rightarrow> EventStore \<Rightarrow> bool" where
  "store_le s s' \<longleftrightarrow> pg_le (db s) (db s')"

lemma store_le_refl [simp]: "store_le s s"
  by (simp add: store_le_def)

lemma store_le_trans: "store_le a b \<Longrightarrow> store_le b c \<Longrightarrow> store_le a c"
  unfolding store_le_def by (rule pg_le_trans)

lemma on_db_law:
  assumes "store_ok s" and "on_db (statement f) s = (r, s')" and "grows f"
  shows "store_ok s'" and "store_le s s'" and "typeCache s' = typeCache s" and "snowflake s' = snowflake s"
    and "r = Inr x \<Longrightarrow> \<exists>fs. f (db s\<lparr>faults := fs\<rparr>) = (Inr x, db s')"
proof -
  obtain d' where st: "statement f (db s) = (r, d')" and s': "s' = s\<lparr>db := d'\<rparr>"
    using assms(2) by (auto simp: on_db_def split: prod.splits)
  have "pg_ok (db s)" using assms(1) by (simp add: store_ok_def)
  note l = statement_law [OF this st assms(3)]
  show "store_ok s'" "store_le s s'" "typeCache s' = typeCache s" "snowflake s' = snowflake s"
    using l(1,2) assms(1) by (auto simp: s' store_ok_def store_le_def pg_le_def)
  show "r = Inr x \<Longrightarrow> \<exists>fs. f (db s\<lparr>faults := fs\<rparr>) = (Inr x, db s')" using l(3) by (simp add: s')
qed

lemma on_db_query_law:
  assumes "store_ok s" and "on_db (query f) s = (r, s')"
  shows "store_ok s'" and "store_le s s'" and "typeCache s' = typeCache s"
    and "r = Inr x \<Longrightarrow> f (db s') = Inr x"
proof -
  have "grows (\<lambda>d. (f d, d))" by (simp add: grows_def)
  note l = on_db_law [OF assms(1) assms(2) [unfolded query_def] this]
  show "store_ok s'" "store_le s s'" "typeCache s' = typeCache s" using l(1-3) by auto
  show "r = Inr x \<Longrightarrow> f (db s') = Inr x" using l(5) by auto
qed

lemma store_rows_mem:
  "store_rows rows m n = Some t \<Longrightarrow> m n = Some t \<or> (t, n) \<in> set rows"
  by (induction rows m rule: store_rows.induct) (auto split: if_splits)

text \<open>Statements that do not touch the events.\<close>

lemma on_db_events:
  assumes "on_db (statement f) s = (r, s')" and "\<And>d. events (snd (f d)) = events d"
  shows "events (db s') = events (db s)"
proof -
  have "events (snd (statement f d)) = events d" for d
    using assms(2) by (auto simp: statement_def split: list.splits fault.splits)
  from this [of "db s"] show ?thesis using assms(1) by (auto simp: on_db_def split: prod.splits)
qed

lemma warm_once_events: "warm_once s = (r, s') \<Longrightarrow> events (db s') = events (db s)"
  using on_db_events [of "\<lambda>d. (Inr (event_types d), d)" s]
  by (auto simp: warm_once_def warmTypeCache_def query_def split: if_splits prod.splits sum.splits)

lemma GetOrCreateTypeID_events: "GetOrCreateTypeID n s = (r, s') \<Longrightarrow> events (db s') = events (db s)"
proof -
  have "events (snd (upsert_type n d)) = events d" for d
    by (simp add: upsert_type_def Let_def split: option.splits)
  then show "GetOrCreateTypeID n s = (r, s') \<Longrightarrow> ?thesis"
    using on_db_events [of "upsert_type n" s]
    by (auto simp: GetOrCreateTypeID_def split: option.splits prod.splits sum.splits)
qed

lemma resolve_types_events: "resolve_types ts m s = (r, s') \<Longrightarrow> events (db s') = events (db s)"
  by (induction ts arbitrary: m s)
    (auto split: prod.splits sum.splits dest: GetOrCreateTypeID_events)

lemma warm_once_law:
  assumes "store_ok s" and "warm_once s = (r, s')"
  shows "store_ok s' \<and> store_le s s'"
proof (cases "warmupDone s")
  case True
  then show ?thesis using assms by (simp add: warm_once_def)
next
  case False
  obtain q s1 where q: "on_db (query (\<lambda>d. Inr (event_types d))) s = (q, s1)" by fastforce
  note l = on_db_query_law [OF assms(1) q]
  show ?thesis
  proof (cases q)
    case (Inl e)
    then show ?thesis
      using assms(2) False q l(1,2) by (auto simp: warm_once_def warmTypeCache_def store_ok_def store_le_def)
  next
    case (Inr rows)
    then have "rows = event_types (db s1)" using l(4) by simp
    moreover have "(t, n) \<in> set (event_types (db s1))"
      if "store_rows (event_types (db s1)) (typeCache s1) n = Some t" for n t
      using store_rows_mem [OF that] l(1) unfolding store_ok_def by blast
    ultimately show ?thesis
      using assms(2) False q Inr l(1,2)
      by (auto simp: warm_once_def warmTypeCache_def store_ok_def store_le_def)
  qed
qed

lemma GetOrCreateTypeID_law:
  assumes "store_ok s" and "GetOrCreateTypeID n s = (r, s')"
  shows "store_ok s' \<and> store_le s s' \<and> (\<forall>t. r = Inr t \<longrightarrow> (t, n) \<in> set (event_types (db s')))"
proof (cases "typeCache s n")
  case (Some t)
  then show ?thesis using assms by (auto simp: GetOrCreateTypeID_def store_ok_def)
next
  case None
  obtain q s1 where q: "on_db (statement (upsert_type n)) s = (q, s1)" by fastforce
  note l = on_db_law [OF assms(1) q grows_upsert]
  show ?thesis
  proof (cases q)
    case (Inl e)
    then show ?thesis using assms(2) None q l(1,2) by (auto simp: GetOrCreateTypeID_def)
  next
    case (Inr t)
    then obtain fs where "upsert_type n (db s\<lparr>faults := fs\<rparr>) = (Inr t, db s1)" using l(5) by blast
    then have "(t, n) \<in> set (event_types (db s1))"
      using upsert_type_law [of "db s\<lparr>faults := fs\<rparr>"] assms(1) by (auto simp: store_ok_def)
    then show ?thesis
      using assms(2) None q Inr l(1,2)
      by (auto simp: GetOrCreateTypeID_def store_ok_def store_le_def split: if_splits)
  qed
qed

lemma collect_types_law:
  "collect_types es ts = Inr us \<Longrightarrow> set us = set ts \<union> Type ` set es \<and> [] \<notin> Type ` set es"
proof (induction es ts rule: collect_types.induct)
  case (2 e es ts)
  then show ?case by (auto split: if_splits)
qed simp

lemma resolve_types_law:
  assumes "store_ok s" and "resolve_types ts m s = (r, s')"
    and "\<forall>n t. m n = Some t \<longrightarrow> (t, n) \<in> set (event_types (db s))"
  shows "store_ok s' \<and> store_le s s' \<and>
         (\<forall>m'. r = Inr m' \<longrightarrow> dom m' = dom m \<union> set ts \<and>
            (\<forall>n t. m' n = Some t \<longrightarrow> (t, n) \<in> set (event_types (db s'))))"
  using assms
proof (induction ts arbitrary: m s)
  case (Cons t ts)
  obtain q s1 where q: "GetOrCreateTypeID t s = (q, s1)" by fastforce
  note g = GetOrCreateTypeID_law [OF Cons.prems(1) q]
  show ?case
  proof (cases q)
    case (Inl e)
    then show ?thesis using Cons.prems(2) q g by auto
  next
    case (Inr i)
    have "\<forall>n u. (m(t \<mapsto> i)) n = Some u \<longrightarrow> (u, n) \<in> set (event_types (db s1))"
      using Cons.prems(3) g Inr by (auto simp: store_le_def pg_le_def)
    moreover have "resolve_types ts (m(t \<mapsto> i)) s1 = (r, s')" using Cons.prems(2) q Inr by simp
    ultimately have "store_ok s' \<and> store_le s1 s' \<and>
         (\<forall>m'. r = Inr m' \<longrightarrow> dom m' = dom (m(t \<mapsto> i)) \<union> set ts \<and>
            (\<forall>n t. m' n = Some t \<longrightarrow> (t, n) \<in> set (event_types (db s'))))"
      using Cons.IH [of s1 "m(t \<mapsto> i)"] g by blast
    then show ?thesis using g store_le_trans by auto
  qed
qed auto

lemma batch_values_law:
  "batch_values m es = Inr vs \<Longrightarrow>
   map Some vs = map (\<lambda>e. map_option (\<lambda>t. (ID e, ev_UserID e, t, or_empty_object (ev_Metadata e))) (m (Type e))) es"
  by (induction es arbitrary: vs) (auto split: option.splits sum.splits)

lemma batch_values_total: "Type ` set es \<subseteq> dom m \<Longrightarrow> \<exists>vs. batch_values m es = Inr vs"
  by (induction es) (auto split: option.splits sum.splits)

text \<open>What it means that an event is stored: its row is there, under the right type.\<close>

definition stored_row :: "pg_env \<Rightarrow> EventStore \<Rightarrow> Event \<Rightarrow> event_row \<Rightarrow> bool" where
  "stored_row env s e r \<longleftrightarrow>
     row_event_id r = ID e \<and> row_user_id r = ev_UserID e \<and>
     (row_type_id r, Type e) \<in> set (event_types (db s)) \<and>
     jsonb_in env (or_empty_object (ev_Metadata e)) = Some (row_metadata r)"

definition stored :: "pg_env \<Rightarrow> EventStore \<Rightarrow> Event \<Rightarrow> bool" where
  "stored env s e \<longleftrightarrow> (\<exists>r \<in> set (events (db s)). stored_row env s e r)"

lemma stored_mono: "stored env s e \<Longrightarrow> store_le s s' \<Longrightarrow> stored env s' e"
  unfolding stored_def stored_row_def store_le_def pg_le_def by blast

lemma stored_rows:
  assumes "map Some vs = map (\<lambda>e. map_option (\<lambda>t. (ID e, ev_UserID e, t, or_empty_object (ev_Metadata e))) (m (Type e))) es"
    and "map (new_row env d) vs = map Some rows"
    and "\<And>n t. m n = Some t \<Longrightarrow> (t, n) \<in> set (event_types (db s))"
  shows "list_all2 (stored_row env s) es rows"
  using assms(1,2)
proof (induction es arbitrary: vs rows)
  case (Cons e es)
  then obtain v vs' row rows' where vs: "vs = v # vs'" "rows = row # rows'"
    by (cases vs; cases rows) auto
  obtain t where t: "m (Type e) = Some t" "v = (ID e, ev_UserID e, t, or_empty_object (ev_Metadata e))"
    using Cons.prems(1) vs(1) by (cases "m (Type e)") auto
  then have "stored_row env s e row"
    using Cons.prems(2) vs assms(3) [OF t(1)] by (auto simp: stored_row_def new_row_def)
  then show ?case using Cons.IH [of vs' rows'] Cons.prems vs by simp
qed simp

text \<open>The insert statement appends all its rows or none, whatever it reports.\<close>

lemma insert_events_cases:
  obtains (failed) e where "insert_events env vs d = (Inl e, d)"
    | (appended) rows where "insert_events env vs d = (Inr rows, d\<lparr>events := events d @ rows\<rparr>)"
      "map (new_row env d) vs = map Some rows"
proof -
  have "(\<exists>e. insert_events env vs d = (Inl e, d)) \<or>
      (\<exists>rows. insert_events env vs d = (Inr rows, d\<lparr>events := events d @ rows\<rparr>) \<and>
              those (map (new_row env d) vs) = Some rows)"
    unfolding insert_events_def by (auto split: option.splits)
  then show ?thesis using failed appended by (auto simp: those_map_Some)
qed

lemma new_row_faults [simp]: "new_row env (d\<lparr>faults := fs\<rparr>) = new_row env d"
  by (rule ext) (simp add: new_row_def split: prod.splits)

lemma insert_statement_cases:
  assumes "on_db (statement (insert_events env vs)) s = (x, s')"
  shows "(events (db s') = events (db s) \<and> (\<exists>e. x = Inl e)) \<or>
         (\<exists>rows. map (new_row env (db s)) vs = map Some rows \<and> events (db s') = events (db s) @ rows)"
proof -
  have one: "(events d' = events (db s) \<and> (\<exists>e. y = Inl e)) \<or>
      (\<exists>rows. map (new_row env (db s)) vs = map Some rows \<and> events d' = events (db s) @ rows)"
    if "insert_events env vs (db s\<lparr>faults := fs\<rparr>) = (y, d')" for y d' fs
    using that by (cases rule: insert_events_cases [of env vs "db s\<lparr>faults := fs\<rparr>"]) auto
  have id: "db s\<lparr>faults := faults (db s)\<rparr> = db s" by simp
  have st: "statement (insert_events env vs) (db s) = (x, db s')"
    using assms by (auto simp: on_db_def split: prod.splits)
  show ?thesis
  proof (cases "faults (db s)")
    case Nil
    then have "insert_events env vs (db s) = (x, db s')" using st by (simp add: statement_def)
    then show ?thesis by (rule one [of "faults (db s)", unfolded id])
  next
    case (Cons a fs)
    obtain y d' where y: "insert_events env vs (db s\<lparr>faults := fs\<rparr>) = (y, d')" by fastforce
    show ?thesis
    proof (cases a)
      case (F_before e)
      then have "x = Inl e" "db s' = db s\<lparr>faults := fs\<rparr>" using st Cons by (auto simp: statement_def)
      then show ?thesis by simp
    qed (use st Cons one [OF y] y in \<open>auto simp: statement_def\<close>)
  qed
qed

lemma insert_statement_types:
  assumes "on_db (statement (insert_events env vs)) s = (x, s')"
  shows "event_types (db s') = event_types (db s)"
proof -
  have "event_types (snd (insert_events env vs d)) = event_types d" for d
    by (cases rule: insert_events_cases [of env vs d]) auto
  then have "event_types (snd (statement (insert_events env vs) d)) = event_types d" for d
    by (auto simp: statement_def split: list.splits fault.splits)
  from this [of "db s"] show ?thesis using assms by (auto simp: on_db_def split: prod.splits)
qed

text \<open>
  The outcome of the batch insert: all rows have been appended, in order, or the table of events
  is as it was; success means the former.
\<close>

definition batch_outcome :: "pg_env \<Rightarrow> Event list \<Rightarrow> EventStore \<Rightarrow> go_error option \<Rightarrow> EventStore \<Rightarrow> bool" where
  "batch_outcome env es s r s' \<longleftrightarrow>
     (events (db s') = events (db s) \<and> r \<noteq> None) \<or>
     (\<exists>rows. events (db s') = events (db s) @ rows \<and> list_all2 (stored_row env s') es rows)"

lemma BatchInsert_law:
  assumes "store_ok s" and "BatchInsertEventsContext env es s = (r, s')"
  shows "store_ok s' \<and> store_le s s' \<and> batch_outcome env es s r s'"
proof (cases "es = []")
  case True
  then show ?thesis using assms by (simp add: BatchInsertEventsContext_def batch_outcome_def)
next
  case False
  obtain w s1 where w: "warm_once s = (w, s1)" by fastforce
  note l1 = warm_once_law [OF assms(1) w]
  have e1: "events (db s1) = events (db s)" by (rule warm_once_events [OF w])
  show ?thesis
  proof (cases "w = None \<and> (\<exists>ts. collect_types es [] = Inr ts)")
    case False
    then have "s' = s1 \<and> r \<noteq> None"
      using assms(2) w \<open>es \<noteq> []\<close>
      by (auto simp: BatchInsertEventsContext_def split: option.splits sum.splits)
    then show ?thesis using l1 e1 by (simp add: batch_outcome_def)
  next
    case True
    then obtain ts where ts: "w = None" "collect_types es [] = Inr ts" by blast
    obtain q s2 where q: "resolve_types ts Map.empty s1 = (q, s2)" by fastforce
    note l2 = resolve_types_law [OF conjunct1 [OF l1] q]
    have e2: "events (db s2) = events (db s)" using e1 resolve_types_events [OF q] by simp
    have ok2: "store_ok s2" "store_le s s2" using l1 l2 store_le_trans by auto
    show ?thesis
    proof (cases q)
      case (Inl e)
      then have "s' = s2 \<and> r \<noteq> None"
        using assms(2) w ts q \<open>es \<noteq> []\<close> by (auto simp: BatchInsertEventsContext_def)
      then show ?thesis using ok2 e2 by (simp add: batch_outcome_def)
    next
      case (Inr m)
      then have m: "dom m = set ts" "\<And>n t. m n = Some t \<Longrightarrow> (t, n) \<in> set (event_types (db s2))"
        using l2 by auto
      then obtain vs where vs: "batch_values m es = Inr vs"
        using batch_values_total [of es m] collect_types_law [OF ts(2)] by auto
      obtain x s3 where x: "on_db (statement (insert_events env vs)) s2 = (x, s3)" by fastforce
      note l3 = on_db_law [OF ok2(1) x grows_insert]
      have s3: "s' = s3" "r = None \<longleftrightarrow> (\<exists>rows. x = Inr rows)"
        using assms(2) w ts q Inr vs x \<open>es \<noteq> []\<close>
        by (auto simp: BatchInsertEventsContext_def split: sum.splits)
      have "list_all2 (stored_row env s') es rows" if "map (new_row env (db s2)) vs = map Some rows" for rows
        using stored_rows [OF batch_values_law [OF vs] that] m(2) insert_statement_types [OF x] s3(1) by simp
      then have "batch_outcome env es s r s'"
        using insert_statement_cases [OF x] s3 e2 by (auto simp: batch_outcome_def)
      then show ?thesis using l3(1,2) ok2(2) store_le_trans s3(1) by auto
    qed
  qed
qed

interpretation pg: event_sink "BatchInsertEventsContext env" "stored env" store_ok
proof (unfold_locales, goal_cases)
  case (1 s xs s' x)
  then obtain rows where rows: "events (db s') = events (db s) @ rows" "list_all2 (stored_row env s') xs rows"
    using BatchInsert_law by (force simp: batch_outcome_def)
  then obtain r where "r \<in> set rows" "stored_row env s' x r"
    using 1(3) by (metis in_set_conv_nth list_all2_conv_all_nth)
  then show ?case using rows(1) by (auto simp: stored_def)
next
  case (2 s x xs)
  then show ?case
    using BatchInsert_law [OF 2(1), of env xs] stored_mono by (cases "BatchInsertEventsContext env xs s") auto
next
  case (3 s xs)
  then show ?case
    using BatchInsert_law [OF 3, of env xs] by (cases "BatchInsertEventsContext env xs s") auto
qed

section \<open>Pages\<close>

definition all_events :: "int64 option \<Rightarrow> pg \<Rightarrow> Event list" where
  "all_events u d = List.map_filter (join_type d) (newest_first (filter (of_user u) (events d)))"

lemma set_newest_first [simp]: "set (newest_first rs) = set rs"
  by (simp add: newest_first_def)

lemma length_newest_first [simp]: "length (newest_first rs) = length rs"
  by (simp add: newest_first_def)

lemma newest_first_decreasing:
  assumes "distinct (map row_event_id rs)"
  shows "sorted_wrt (\<lambda>a b. sint (row_event_id b) < sint (row_event_id a)) (newest_first rs)"
proof -
  let ?k = "\<lambda>r. sint (row_event_id r)"
  have inj: "inj (sint :: int64 \<Rightarrow> int)" by (rule injI) (rule signed_word_eqI)
  have "mset (map row_event_id (sort_key ?k rs)) = mset (map row_event_id rs)" by simp
  then have "distinct (map row_event_id (sort_key ?k rs))" using assms mset_eq_imp_distinct_iff by blast
  then have "distinct (map sint (map row_event_id (sort_key ?k rs)))"
    by (rule distinct_map [THEN iffD2, OF conjI, OF _ inj_on_subset [OF inj subset_UNIV]])
  then have "sorted_wrt (<) (map ?k (sort_key ?k rs))"
    by (intro strict_sorted_iff [THEN iffD2] conjI sorted_sort_key) (simp add: comp_def)
  then show ?thesis by (simp add: newest_first_def sorted_wrt_rev sorted_wrt_map)
qed

lemma map_filter_total:
  "\<forall>x \<in> set xs. f x \<noteq> None \<Longrightarrow> List.map_filter f xs = map (\<lambda>x. the (f x)) xs"
  by (induction xs) (auto simp: map_filter_simps)

lemma join_type_total:
  assumes "pg_ok d" and "r \<in> set (events d)"
  shows "\<exists>n. (row_type_id r, n) \<in> set (event_types d) \<and>
    join_type d r = Some \<lparr>ID = row_event_id r, ev_UserID = row_user_id r, TypeID = row_type_id r,
      ev_Timestamp = row_timestamp r, ev_Metadata = Some (row_metadata r), Type = n\<rparr>"
proof -
  obtain n where n: "(row_type_id r, n) \<in> set (event_types d)" using assms by (fastforce simp: pg_ok_def)
  then have "map_of (event_types d) (row_type_id r) = Some n"
    using assms(1) by (simp add: pg_ok_def)
  then show ?thesis using n by (auto simp: join_type_def)
qed

lemma all_events_map:
  assumes "pg_ok d"
  shows "all_events u d = map (\<lambda>r. the (join_type d r)) (newest_first (filter (of_user u) (events d)))"
  unfolding all_events_def
  using join_type_total [OF assms] by (intro map_filter_total) fastforce

lemma all_events_facts:
  assumes "pg_ok d"
  shows "length (all_events u d) = count_events u d"
    and "sorted_wrt (\<lambda>a b. sint (ID b) < sint (ID a)) (all_events u d)"
proof -
  show "length (all_events u d) = count_events u d"
    using all_events_map [OF assms] by (simp add: count_events_def)
  have id: "ID (the (join_type d r)) = row_event_id r" if "r \<in> set (events d)" for r
    using join_type_total [OF assms that] by auto
  let ?rs = "filter (of_user u) (events d)"
  have "distinct (map row_event_id ?rs)"
    using assms by (simp add: pg_ok_def distinct_map_filter)
  from newest_first_decreasing [OF this]
  have "sorted_wrt (\<lambda>a b. sint (ID (the (join_type d b))) < sint (ID (the (join_type d a)))) (newest_first ?rs)"
    by (rule sorted_wrt_mono_rel [rotated]) (simp add: id)
  then show "sorted_wrt (\<lambda>a b. sint (ID b) < sint (ID a)) (all_events u d)"
    by (simp add: all_events_map [OF assms] sorted_wrt_map)
qed

lemma unat_page_offset:
  assumes "p * unat limit < 2 ^ 63" and "p < 2 ^ 63"
  shows "unat ((of_nat (Suc p) - 1) * limit :: uint) = p * unat limit"
proof -
  have "(of_nat (Suc p) - 1) * limit = (of_nat (p * unat limit) :: uint)" by simp
  moreover have "unat (of_nat (p * unat limit) :: uint) = p * unat limit"
    unfolding unat_of_nat using assms(1) by simp
  ultimately show ?thesis by metis
qed

lemma query_no_faults:
  "faults (db s) = [] \<Longrightarrow> on_db (query f) s = (f (db s), s)"
  by (simp add: on_db_def query_def statement_def)

lemma GetPaginated_page:
  assumes "faults (db s) = []" and "p < n" and "n * unat limit < 2 ^ 63" and "n < 2 ^ 63"
  shows "GetPaginated (of_nat (Suc p)) limit u s =
           (Inr (take (unat limit) (drop (p * unat limit) (all_events u (db s)))), s)"
proof -
  have "p * unat limit \<le> n * unat limit" using assms(2) by simp
  then have b: "p * unat limit < 2 ^ 63" using assms(3) by linarith
  have "1 * unat limit \<le> n * unat limit" using assms(2) by (intro mult_right_mono) simp_all
  then have l: "unat limit < 2 ^ 63" using assms(3) by linarith
  have "p < 2 ^ 63" using assms(2,4) by linarith
  note off = unat_page_offset [OF b this]
  show ?thesis
    using l b off query_no_faults [OF assms(1)]
    by (simp add: GetPaginated_def Let_def fits_int64_def select_page_def all_events_def del: of_nat_Suc)
qed

lemma concat_slices:
  "concat (map (\<lambda>p. take l (drop (p * l) xs)) [0..<n]) = take (n * l) xs"
proof (induction n)
  case (Suc n)
  have "take (n * l) xs @ take l (drop (n * l) xs) = take (Suc n * l) xs"
    using take_add [of "n * l" l xs] by (simp add: add.commute)
  then show ?case using Suc by simp
qed simp

section \<open>Properties\<close>

text \<open>A concrete environment and a database with two users for the witnesses.\<close>

definition plain_env :: pg_env where
  "plain_env = \<lparr>jsonb_in = Some, page_of = (\<lambda>m. if m = [] then None else Some m), pg_timestamp = wall,
                group_order = (\<lambda>ps. ps), json_object_agg = (\<lambda>ps. concat (map fst ps))\<rparr>"

definition two_users :: pg where
  "two_users = \<lparr>users = [1, 2], event_types = [], events = [], type_seq = 1, pg_now = 0, faults = []\<rparr>"

definition demo_store :: "fault list \<Rightarrow> EventStore" where
  "demo_store fs = \<lparr>db = two_users\<lparr>faults := fs\<rparr>, snowflake = demo_sf, typeCache = Map.empty,
                    cacheWarmedUp = False, warmupDone = False\<rparr>"

definition demo_ev :: "int64 \<Rightarrow> int64 \<Rightarrow> Event" where
  "demo_ev i u = \<lparr>ID = i, ev_UserID = u, TypeID = 0, ev_Timestamp = 0, ev_Metadata = None, Type = ''view''\<rparr>"

lemma demo_store_ok: "store_ok (demo_store fs)"
  by (simp add: store_ok_def demo_store_def two_users_def pg_ok_def)

lemmas store_eval = BatchInsertEventsContext_def warm_once_def warmTypeCache_def on_db_def query_def
  statement_def GetOrCreateTypeID_def upsert_type_def type_of_name_def char_count_def Let_def
  insert_events_def new_row_def or_empty_object_def slice_len_def demo_store_def two_users_def
  demo_ev_def plain_env_def

text \<open>
  C6. The batch insert is all or nothing: it appends a row for every event, in order, with the
  identifier of the event's type, or leaves the table of events as it was, also when a reply is
  lost; and it reports success only in the first case.
\<close>

theorem BatchInsert_atomic:
  assumes "store_ok s" and "BatchInsertEventsContext env es s = (r, s')"
  shows "(events (db s') = events (db s) \<and> r \<noteq> None) \<or>
         (\<exists>rows. events (db s') = events (db s) @ rows \<and> list_all2 (stored_row env s') es rows)"
  using BatchInsert_law [OF assms] by (simp add: batch_outcome_def)

theorem BatchInsert_atomic_witness:
  "\<exists>r s'. BatchInsertEventsContext plain_env [demo_ev 7 1, demo_ev 8 3] (demo_store []) = (r, s') \<and>
          r = Some (Wrap ''batch insert failed: '' foreign_key_violation '''') \<and> events (db s') = []"
proof -
  obtain r s' where rs: "BatchInsertEventsContext plain_env [demo_ev 7 1, demo_ev 8 3] (demo_store []) = (r, s')"
    by fastforce
  have "r = Some (Wrap ''batch insert failed: '' foreign_key_violation '''') \<and> length (events (db s')) < 2"
    using rs by (auto simp: store_eval)
  moreover have "events (db (demo_store [])) = []" by (simp add: demo_store_def two_users_def)
  ultimately show ?thesis
    using BatchInsert_atomic [OF demo_store_ok rs] rs by (auto dest: list_all2_lengthD)
qed

definition keeps_store :: "EventStore \<Rightarrow> EventStore \<Rightarrow> bool" where
  "keeps_store s s' \<longleftrightarrow> store_ok s' \<and> store_le s s'"

lemma GenerateEventID_keeps:
  "store_ok s \<Longrightarrow> GenerateEventID clk k s = Some (r, s', k') \<Longrightarrow> keeps_store s s'"
  by (auto simp: GenerateEventID_def keeps_store_def store_ok_def store_le_def split: option.splits prod.splits)

lemma insert_statement_keeps:
  "store_ok s \<Longrightarrow> on_db (statement (insert_events env vs)) s = (r, s') \<Longrightarrow> keeps_store s s'"
  using on_db_law(1,2) [OF _ _ grows_insert] unfolding keeps_store_def by blast

lemma query_keeps: "store_ok s \<Longrightarrow> keeps_store s (snd (on_db (query f) s))"
  using on_db_query_law(1,2) [of s f] by (cases "on_db (query f) s") (auto simp: keeps_store_def)

lemma keeps_store_refl: "store_ok s \<Longrightarrow> keeps_store s s"
  by (simp add: keeps_store_def)

lemma keeps_store_trans: "keeps_store a b \<Longrightarrow> keeps_store b c \<Longrightarrow> keeps_store a c"
  using store_le_trans by (auto simp: keeps_store_def)

lemma CreateEventWithType_keeps:
  assumes "store_ok s" and "CreateEventWithType env clk u t m k s = Some (r, s', k')"
  shows "keeps_store s s'"
proof -
  obtain w s1 where w: "warm_once s = (w, s1)" by fastforce
  have k1: "keeps_store s s1" using warm_once_law [OF assms(1) w] by (simp add: keeps_store_def)
  obtain g s2 where g: "GetOrCreateTypeID t s1 = (g, s2)" by fastforce
  have k2: "keeps_store s1 s2"
    using GetOrCreateTypeID_law [OF _ g] k1 by (simp add: keeps_store_def)
  have k12: "keeps_store s s2" by (rule keeps_store_trans [OF k1 k2])
  consider e where "w = Some e" | e where "w = None" "g = Inl e" | i where "w = None" "g = Inr i"
    by (cases w; cases g) auto
  then show ?thesis
  proof cases
    case 1
    then show ?thesis using assms(2) w k1 by (simp add: CreateEventWithType_def)
  next
    case 2
    then show ?thesis using assms(2) w g k12 by (simp add: CreateEventWithType_def)
  next
    case (3 i)
    obtain q s3 k3 where q: "GenerateEventID clk k s2 = Some (q, s3, k3)"
      using assms(2) w g 3 by (auto simp: CreateEventWithType_def split: option.splits)
    have k13: "keeps_store s s3"
      using k12 GenerateEventID_keeps [OF _ q] keeps_store_trans by (auto simp: keeps_store_def)
    show ?thesis
    proof (cases q)
      case (Inl e)
      then show ?thesis using assms(2) w g 3 q k13 by (simp add: CreateEventWithType_def)
    next
      case (Inr eid)
      obtain x s4 where x: "on_db (statement (insert_events env [(eid, u, i, or_empty_object m)])) s3 = (x, s4)"
        by fastforce
      then have "s' = s4"
        using assms(2) w g 3 q Inr by (auto simp: CreateEventWithType_def split: sum.splits)
      moreover have "store_ok s3" using k13 by (simp add: keeps_store_def)
      ultimately show ?thesis
        using insert_statement_keeps [OF _ x] k13 keeps_store_trans by blast
    qed
  qed
qed

lemma store_ops_keep:
  assumes "store_ok s"
  shows "keeps_store s (snd (BatchInsertEventsContext env es s)) \<and>
         keeps_store s (snd (InsertEventWithID env e s)) \<and>
         keeps_store s (snd (GetOrCreateTypeID n s)) \<and>
         keeps_store s (snd (GetPaginated page limit u s)) \<and>
         keeps_store s (snd (GetTotal u s)) \<and> keeps_store s (snd (GetEventTypeId n s)) \<and>
         (\<forall>r s' k'. CreateEventWithType env clk uid n m k s = Some (r, s', k') \<longrightarrow> keeps_store s s') \<and>
         (\<forall>r s' k'. GenerateEventID clk k s = Some (r, s', k') \<longrightarrow> keeps_store s s')"
proof (intro conjI allI impI)
  show "keeps_store s (snd (BatchInsertEventsContext env es s))"
    using BatchInsert_law [OF assms] by (cases "BatchInsertEventsContext env es s") (auto simp: keeps_store_def)
  show "keeps_store s (snd (InsertEventWithID env e s))"
    using insert_statement_keeps [OF assms]
    by (auto simp: InsertEventWithID_def split: prod.splits sum.splits)
  show "keeps_store s (snd (GetOrCreateTypeID n s))"
    using GetOrCreateTypeID_law [OF assms] by (cases "GetOrCreateTypeID n s") (auto simp: keeps_store_def)
  show "keeps_store s (snd (GetPaginated page limit u s))"
    by (simp add: GetPaginated_def Let_def query_keeps keeps_store_refl assms)
  show "keeps_store s (snd (GetTotal u s))" "keeps_store s (snd (GetEventTypeId n s))"
    by (simp_all add: GetTotal_def GetEventTypeId_def query_keeps assms)
qed (rule CreateEventWithType_keeps [OF assms], assumption, rule GenerateEventID_keeps [OF assms], assumption)

text \<open>
  C22. The constraints of the schema and the agreement of the type cache with the table are
  invariant under every operation of the store, and no operation removes a row.
\<close>

theorem store_invariant:
  assumes "store_ok s"
  shows "keeps_store s (snd (BatchInsertEventsContext env es s)) \<and>
         keeps_store s (snd (InsertEventWithID env e s)) \<and>
         keeps_store s (snd (GetOrCreateTypeID n s)) \<and>
         keeps_store s (snd (GetPaginated page limit u s)) \<and>
         keeps_store s (snd (GetTotal u s)) \<and> keeps_store s (snd (GetEventTypeId n s)) \<and>
         (\<forall>r s' k'. CreateEventWithType env clk uid n m k s = Some (r, s', k') \<longrightarrow> keeps_store s s') \<and>
         (\<forall>r s' k'. GenerateEventID clk k s = Some (r, s', k') \<longrightarrow> keeps_store s s')"
  by (rule store_ops_keep [OF assms])

theorem store_invariant_witness:
  "keeps_store (demo_store [F_ok, F_after (Errorf ''reset'')])
     (snd (BatchInsertEventsContext plain_env [demo_ev 7 1] (demo_store [F_ok, F_after (Errorf ''reset'')])))"
  using store_invariant [OF demo_store_ok] by blast

text \<open>
  C20. Consecutive pages of the same limit, put together, are the events newest first without a
  gap or a repetition, in strictly decreasing order of identifiers, as many as \<open>GetTotal\<close>
  reports; this as long as page times limit stays below \<open>2\<^sup>6\<^sup>3\<close>.
\<close>

theorem GetPaginated_pages:
  assumes "store_ok s" and "faults (db s) = []" and "n * unat limit < 2 ^ 63" and "n < 2 ^ 63"
  shows "\<exists>pages. length pages = n \<and>
           (\<forall>p < n. GetPaginated (of_nat (Suc p)) limit u s = (Inr (pages ! p), s)) \<and>
           concat pages = take (n * unat limit) (all_events u (db s)) \<and>
           sorted_wrt (\<lambda>a b. sint (ID b) < sint (ID a)) (all_events u (db s)) \<and>
           GetTotal u s = (Inr (int (length (all_events u (db s)))), s)"
proof (intro exI conjI allI impI)
  let ?pages = "map (\<lambda>p. take (unat limit) (drop (p * unat limit) (all_events u (db s)))) [0..<n]"
  show "length ?pages = n" by simp
  show "GetPaginated (of_nat (Suc p)) limit u s = (Inr (?pages ! p), s)" if "p < n" for p
    using GetPaginated_page [OF assms(2) that assms(3,4)] that by (simp del: of_nat_Suc)
  show "concat ?pages = take (n * unat limit) (all_events u (db s))" by (rule concat_slices)
  have ok: "pg_ok (db s)" using assms(1) by (simp add: store_ok_def)
  show "sorted_wrt (\<lambda>a b. sint (ID b) < sint (ID a)) (all_events u (db s))"
    by (rule all_events_facts(2) [OF ok])
  show "GetTotal u s = (Inr (int (length (all_events u (db s)))), s)"
    using query_no_faults [OF assms(2)] by (simp add: GetTotal_def all_events_facts(1) [OF ok])
qed

theorem GetPaginated_pages_witness:
  "\<exists>pages. length pages = 3 \<and> concat pages = take (3 * unat (20 :: uint)) (all_events None (db (demo_store [])))"
  using GetPaginated_pages [OF demo_store_ok, of "[]" 3 20 None] by (force simp: demo_store_def two_users_def)

text \<open>
  The offset is computed without an overflow check: the page number \<open>2\<^sup>6\<^sup>2 + 1\<close> with
  limit 4 has offset zero and returns the first page.
\<close>

theorem GetPaginated_offset_wraps:
  "GetPaginated (2 ^ 62 + 1) 4 u s = GetPaginated 1 4 u s"
proof -
  have "((2 :: uint) ^ 62 + 1 - 1) * 4 = (1 - 1) * 4" by (simp add: word_eq_iff_unsigned)
  then show ?thesis by (simp only: GetPaginated_def)
qed

section \<open>Statistics\<close>

text \<open>The server emits every group once, in an order of its choice.\<close>

definition groups_ok :: "pg_env \<Rightarrow> bool" where
  "groups_ok env \<longleftrightarrow>
     (\<forall>ps. distinct ps \<longrightarrow> distinct (group_order env ps) \<and> set (group_order env ps) = set ps)"

lemma page_counts_facts:
  assumes "groups_ok env"
  shows "distinct (map fst (page_counts env d p))"
    and "(pg, c) \<in> set (page_counts env d p) \<Longrightarrow>
      c = length (filter (\<lambda>r. page_of env (row_metadata r) = Some pg) (filter (in_window env d) (events p))) \<and> 0 < c"
    and "r \<in> set (filter (in_window env d) (events p)) \<Longrightarrow> page_of env (row_metadata r) = Some pg \<Longrightarrow>
      \<exists>c. (pg, c) \<in> set (page_counts env d p)"
proof -
  let ?pages = "List.map_filter (\<lambda>r. page_of env (row_metadata r)) (filter (in_window env d) (events p))"
  have g: "distinct (group_order env (remdups ?pages))" "set (group_order env (remdups ?pages)) = set ?pages"
    using assms [unfolded groups_ok_def, rule_format, of "remdups ?pages"] by auto
  show "distinct (map fst (page_counts env d p))"
    using g(1) by (simp add: page_counts_def Let_def comp_def)
  have len: "length (filter (\<lambda>q. q = x) (List.map_filter f rs)) = length (filter (\<lambda>r. f r = Some x) rs)"
    for x and f :: "event_row \<Rightarrow> string option" and rs
    by (induction rs) (auto simp: map_filter_simps split: option.splits)
  have mem: "x \<in> set (List.map_filter f rs) \<longleftrightarrow> (\<exists>r \<in> set rs. f r = Some x)"
    for x and f :: "event_row \<Rightarrow> string option" and rs
    by (induction rs) (auto simp: map_filter_simps split: option.splits)
  show "(pg, c) \<in> set (page_counts env d p) \<Longrightarrow>
      c = length (filter (\<lambda>r. page_of env (row_metadata r) = Some pg) (filter (in_window env d) (events p))) \<and> 0 < c"
    using g(2) by (auto simp: page_counts_def Let_def len mem filter_empty_conv)
  show "r \<in> set (filter (in_window env d) (events p)) \<Longrightarrow> page_of env (row_metadata r) = Some pg \<Longrightarrow>
      \<exists>c. (pg, c) \<in> set (page_counts env d p)"
  proof -
    assume "r \<in> set (filter (in_window env d) (events p))" "page_of env (row_metadata r) = Some pg"
    then have "pg \<in> set ?pages" by (auto simp: mem)
    then show ?thesis using g(2) by (force simp: page_counts_def Let_def)
  qed
qed

lemma top_pages_facts:
  shows "length (top_pages env d p) \<le> 10" and "set (top_pages env d p) \<subseteq> set (page_counts env d p)"
    and "sorted_wrt (\<lambda>a b. snd b \<le> snd a) (top_pages env d p)"
    and "x \<in> set (page_counts env d p) \<Longrightarrow> x \<notin> set (top_pages env d p) \<Longrightarrow>
      y \<in> set (top_pages env d p) \<Longrightarrow> snd x \<le> snd y"
proof -
  let ?s = "rev (sort_key snd (rev (page_counts env d p)))"
  have top: "top_pages env d p = take 10 ?s" by (simp add: top_pages_def)
  have "sorted_wrt (\<lambda>a b. snd a \<le> snd b) (sort_key snd (rev (page_counts env d p)))"
    using sorted_sort_key [of snd "rev (page_counts env d p)"] by (simp add: sorted_wrt_map)
  then have so: "sorted_wrt (\<lambda>a b. snd b \<le> snd a) ?s" by (simp add: sorted_wrt_rev)
  show "length (top_pages env d p) \<le> 10" by (simp add: top)
  show "set (top_pages env d p) \<subseteq> set (page_counts env d p)"
    using set_take_subset [of 10 ?s] by (auto simp: top)
  show "sorted_wrt (\<lambda>a b. snd b \<le> snd a) (top_pages env d p)" unfolding top by (rule sorted_wrt_take [OF so])
  assume x: "x \<in> set (page_counts env d p)" "x \<notin> set (top_pages env d p)" and y: "y \<in> set (top_pages env d p)"
  have "x \<in> set (take 10 ?s @ drop 10 ?s)" using x(1) by (simp only: append_take_drop_id) simp
  then have "x \<in> set (drop 10 ?s)" using x(2) by (simp only: top set_append) blast
  moreover have "sorted_wrt (\<lambda>a b. snd b \<le> snd a) (take 10 ?s @ drop 10 ?s)" using so by (simp only: append_take_drop_id)
  ultimately show "snd x \<le> snd y" using y unfolding top sorted_wrt_append by blast
qed



end
