(* ===== verification/Go_Time.thy ===== *)
theory Go_Time
  imports Models "HOL-Library.Monad_Syntax"
begin

text \<open>
  The part of the package \<open>time\<close> that the program uses on calendar times: the proleptic
  Gregorian calendar, \<open>Format\<close> with the layouts RFC 3339 and RFC 3339 with nanoseconds, and
  \<open>Parse\<close> with the layout RFC 3339 (as the package implements it: an hour may have one digit,
  a fraction of a second is accepted although the layout has none).
\<close>


section \<open>The calendar\<close>

text \<open>
  Years are counted from the first of March, so that the leap day is the last of its year;
  \<open>year_start y\<close> is the number of days from 1 March of the year 0 to 1 March of the year y.
\<close>

definition year_start :: "int \<Rightarrow> int" where
  "year_start y = 365 * y + y div 4 - y div 100 + y div 400"

definition year_of :: "int \<Rightarrow> int" where
  "year_of z =
     (let g = 400 * z div 146097 in
      if year_start (g + 1) \<le> z then g + 1 else if z < year_start g then g - 1 else g)"

text \<open>Day 0 is 1 January 1970.\<close>

definition civil :: "int \<Rightarrow> int \<times> int \<times> int" where
  "civil day =
     (let z = day + 719468; y = year_of z; doy = z - year_start y;
          mp = (5 * doy + 2) div 153; m = (if mp < 10 then mp + 3 else mp - 9)
      in (if m \<le> 2 then y + 1 else y, m, doy - (153 * mp + 2) div 5 + 1))"

definition day_number :: "int \<Rightarrow> int \<Rightarrow> int \<Rightarrow> int" where
  "day_number y m d =
     (let y' = (if m \<le> 2 then y - 1 else y); mp = (if m \<le> 2 then m + 9 else m - 3)
      in year_start y' + (153 * mp + 2) div 5 + d - 1 - 719468)"

definition leap :: "int \<Rightarrow> bool" where
  "leap y \<longleftrightarrow> y mod 4 = 0 \<and> (y mod 100 \<noteq> 0 \<or> y mod 400 = 0)"

definition daysIn :: "int \<Rightarrow> int \<Rightarrow> int" where
  "daysIn m y = (if m = 2 then (if leap y then 29 else 28) else if m \<in> {4, 6, 9, 11} then 30 else 31)"

definition valid_date :: "int \<Rightarrow> int \<Rightarrow> int \<Rightarrow> bool" where
  "valid_date y m d \<longleftrightarrow> 1 \<le> m \<and> m \<le> 12 \<and> 1 \<le> d \<and> d \<le> daysIn m y"

lemma div_Suc:
  fixes k :: int
  assumes "0 < k"
  shows "(y + 1) div k = y div k + (if (y + 1) mod k = 0 then 1 else 0)"
proof (cases "(y + 1) mod k = 0")
  case True
  then obtain q where q: "y + 1 = k * q" by (auto simp: mod_eq_0_iff_dvd elim: dvdE)
  then have y: "y = k * (q - 1) + (k - 1)" by (simp add: algebra_simps)
  have "y div k = q - 1" unfolding y using assms by (simp add: div_pos_pos_trivial)
  then show ?thesis using q assms by simp
next
  case False
  let ?q = "(y + 1) div k" and ?r = "(y + 1) mod k"
  have r: "1 \<le> ?r" "?r < k"
    using False assms pos_mod_sign [of k "y + 1"] pos_mod_bound [of k "y + 1"] by linarith+
  have y: "y = k * ?q + (?r - 1)" using mult_div_mod_eq [of k "y + 1"] by linarith
  have "(k * ?q + (?r - 1)) div k = ?q" using r by (simp add: div_pos_pos_trivial)
  then show ?thesis using False y by simp
qed

lemma mod_400: "(x :: int) mod 400 = 0 \<Longrightarrow> x mod 100 = 0" and mod_100: "(x :: int) mod 100 = 0 \<Longrightarrow> x mod 4 = 0"
  unfolding mod_eq_0_iff_dvd using dvd_trans [of 100 400 x] dvd_trans [of 4 100 x] by simp_all

lemma year_start_Suc: "year_start (y + 1) = year_start y + (if leap (y + 1) then 366 else 365)"
proof -
  note s = div_Suc [of 4 y, OF zero_less_numeral] div_Suc [of 100 y, OF zero_less_numeral]
    div_Suc [of 400 y, OF zero_less_numeral]
  define a b c where "a = (y + 1) mod 4" and "b = (y + 1) mod 100" and "c = (y + 1) mod 400"
  define p q r where "p = y div 4" and "q = y div 100" and "r = y div 400"
  note d = a_def [symmetric] b_def [symmetric] c_def [symmetric] p_def [symmetric] q_def [symmetric] r_def [symmetric]
  have "c = 0 \<Longrightarrow> b = 0" "b = 0 \<Longrightarrow> a = 0" using mod_400 [of "y + 1"] mod_100 [of "y + 1"] unfolding d by auto
  then show ?thesis
    unfolding year_start_def leap_def s unfolding d by (cases "a = 0"; cases "b = 0"; cases "c = 0") simp_all
qed

lemma year_start_mono: "y \<le> y' \<Longrightarrow> year_start y \<le> year_start y'"
proof (induction y' rule: int_ge_induct)
  case (step i)
  then show ?case using year_start_Suc [of i] by (auto split: if_splits)
qed simp

lemma year_start_bounds: "146097 * y - 699 \<le> 400 * year_start y" "400 * year_start y \<le> 146097 * y + 396"
proof -
  define a b c where "a = y div 4" and "b = y div 100" and "c = y div 400"
  define p q r where "p = y mod 4" and "q = y mod 100" and "r = y mod 400"
  have e: "y = 4 * a + p" "y = 100 * b + q" "y = 400 * c + r"
    unfolding a_def b_def c_def p_def q_def r_def by simp_all
  have l: "0 \<le> p" "p < 4" "0 \<le> q" "q < 100" "0 \<le> r" "r < 400"
    unfolding p_def q_def r_def by simp_all
  have s: "400 * year_start y = 146000 * y + 100 * (y - p) - 4 * (y - q) + (y - r)"
    unfolding year_start_def a_def [symmetric] b_def [symmetric] c_def [symmetric] using e by simp
  show "146097 * y - 699 \<le> 400 * year_start y" "400 * year_start y \<le> 146097 * y + 396"
    unfolding s using l by simp_all
qed

lemma year_of_bounds: "year_start (year_of z) \<le> z" "z < year_start (year_of z + 1)"
proof -
  define g where "g = 400 * z div 146097"
  have g: "146097 * g \<le> 400 * z" "400 * z < 146097 * g + 146097"
    using div_mult_mod_eq [of "400 * z" 146097] pos_mod_bound [of 146097 "400 * z"]
      pos_mod_sign [of 146097 "400 * z"] unfolding g_def by linarith+
  have "z < year_start (g + 2)" using year_start_bounds(1) [of "g + 2", unfolded distrib_left] g by linarith
  moreover have "year_start (g - 1) \<le> z" using year_start_bounds(2) [of "g - 1", unfolded right_diff_distrib] g by linarith
  moreover have "g + 1 + 1 = g + 2" "g - 1 + 1 = g" by simp_all
  ultimately show "year_start (year_of z) \<le> z" "z < year_start (year_of z + 1)"
    unfolding year_of_def Let_def g_def [symmetric] by (auto simp only: not_le not_less split: if_splits)
qed

lemma year_of_unique:
  assumes "year_start y \<le> z" and "z < year_start (y + 1)"
  shows "year_of z = y"
proof (rule ccontr)
  assume "year_of z \<noteq> y"
  then consider "year_of z + 1 \<le> y" | "y + 1 \<le> year_of z" by linarith
  then show False
    using year_of_bounds [of z] assms year_start_mono by cases (meson not_less order.trans)+
qed

lemma day_number_civil:
  assumes "civil n = (y, m, d)"
  shows "day_number y m d = n" and "valid_date y m d"
proof -
  define z where "z = n + 719468"
  define q where "q = z - year_start (year_of z)"
  have q: "0 \<le> q" "q \<le> (if leap (year_of z + 1) then 365 else 364)"
    using year_of_bounds [of z] year_start_Suc [of "year_of z"] by (auto simp: q_def split: if_splits)
  define mp where "mp = (5 * q + 2) div 153"
  have mp: "0 \<le> mp" "mp \<le> 11" "153 * mp \<le> 5 * q + 2" "5 * q + 2 < 153 * mp + 153"
  proof -
    have "5 * q + 2 = 153 * mp + (5 * q + 2) mod 153" "0 \<le> (5 * q + 2) mod 153" "(5 * q + 2) mod 153 < 153"
      unfolding mp_def by simp_all
    moreover have "q \<le> 365" using q(2) by (simp split: if_splits)
    ultimately show "0 \<le> mp" "mp \<le> 11" "153 * mp \<le> 5 * q + 2" "5 * q + 2 < 153 * mp + 153" using q(1) by linarith+
  qed
  have e: "y = (if 10 \<le> mp then year_of z + 1 else year_of z)" "m = (if mp < 10 then mp + 3 else mp - 9)"
      "d = q - (153 * mp + 2) div 5 + 1"
    using assms mp(1,2) unfolding civil_def Let_def z_def [symmetric] q_def [symmetric] mp_def [symmetric]
    by (auto split: if_splits)
  show "day_number y m d = n"
  proof (cases "mp < 10")
    case True
    then show ?thesis using mp(1) by (simp add: day_number_def Let_def e) (simp add: q_def z_def)
  next
    case False
    then show ?thesis using mp(2) by (simp add: day_number_def Let_def e) (simp add: q_def z_def)
  qed
  have "mp = 0 \<or> mp = 1 \<or> mp = 2 \<or> mp = 3 \<or> mp = 4 \<or> mp = 5 \<or> mp = 6 \<or> mp = 7 \<or> mp = 8 \<or> mp = 9 \<or> mp = 10 \<or> mp = 11"
    using mp(1,2) by presburger
  then show "valid_date y m d"
    using q mp(3,4) unfolding e valid_date_def daysIn_def
    by (elim disjE) (simp_all split: if_splits)
qed

lemma civil_day_number:
  assumes "valid_date y m d"
  shows "civil (day_number y m d) = (y, m, d)"
proof -
  define y' where "y' = (if m \<le> 2 then y - 1 else y)"
  define mp where "mp = (if m \<le> 2 then m + 9 else m - 3)"
  define q where "q = (153 * mp + 2) div 5 + d - 1"
  have m: "m = 1 \<or> m = 2 \<or> m = 3 \<or> m = 4 \<or> m = 5 \<or> m = 6 \<or> m = 7 \<or> m = 8 \<or> m = 9 \<or> m = 10 \<or> m = 11 \<or> m = 12"
    using assms unfolding valid_date_def by presburger
  have d: "1 \<le> d" "d \<le> daysIn m y" using assms by (simp_all add: valid_date_def)
  have q: "0 \<le> q \<and> q \<le> (if leap (y' + 1) then 365 else 364) \<and> (5 * q + 2) div 153 = mp"
    using m d unfolding q_def mp_def y'_def daysIn_def by (elim disjE) (simp_all split: if_splits)
  have n: "day_number y m d + 719468 = year_start y' + q"
    by (simp add: day_number_def Let_def y'_def mp_def q_def)
  have "year_of (year_start y' + q) = y'"
    using q year_start_Suc [of y'] by (intro year_of_unique) (auto split: if_splits)
  then show ?thesis
    unfolding civil_def n Let_def using q m by (elim disjE) (simp_all add: q_def mp_def y'_def)
qed

lemma civil_inject: "civil m = civil n \<longleftrightarrow> m = n"
  by (metis day_number_civil(1) prod_cases3)


section \<open>Printing\<close>

text \<open>A number with leading zeros up to a width.\<close>

definition pad :: "nat \<Rightarrow> nat \<Rightarrow> string" where
  "pad w n = replicate (w - length (fmt_nat n)) (CHR ''0'') @ fmt_nat n"

definition ns_of :: "go_time \<Rightarrow> nat" where
  "ns_of t = nat (wall t mod 1000000000)"

definition seconds :: "go_time \<Rightarrow> int" where
  "seconds t = wall t div 1000000000"

definition fmt_year :: "int \<Rightarrow> string" where
  "fmt_year y = (if y < 0 then CHR ''-'' # pad 4 (nat (- y)) else pad 4 (nat y))"

definition fmt_datetime :: "int \<Rightarrow> string" where
  "fmt_datetime s =
     (case civil (s div 86400) of (y, m, d) \<Rightarrow>
        let c = s mod 86400 in
        fmt_year y @ ''-'' @ pad 2 (nat m) @ ''-'' @ pad 2 (nat d) @ ''T'' @
        pad 2 (nat (c div 3600)) @ '':'' @ pad 2 (nat (c div 60 mod 60)) @ '':'' @ pad 2 (nat (c mod 60)))"

definition fmt_zone :: "int \<Rightarrow> string" where
  "fmt_zone z =
     (if z = 0 then ''Z''
      else let m = nat \<bar>z\<bar> div 60 in
        (if z < 0 \<and> 0 < m then ''-'' else ''+'') @ pad 2 (m div 60) @ '':'' @ pad 2 (m mod 60))"

text \<open>\<open>t.Format(time.RFC3339)\<close> and \<open>t.Format(time.RFC3339Nano)\<close>.\<close>

definition format_RFC3339 :: "go_time \<Rightarrow> string" where
  "format_RFC3339 t = fmt_datetime (seconds t) @ fmt_zone (zone t)"

definition fmt_nano :: "nat \<Rightarrow> string" where
  "fmt_nano n = (if n = 0 then [] else CHR ''.'' # rev (dropWhile (\<lambda>c. c = CHR ''0'') (rev (pad 9 n))))"

definition format_RFC3339Nano :: "go_time \<Rightarrow> string" where
  "format_RFC3339Nano t = fmt_datetime (seconds t) @ fmt_nano (ns_of t) @ fmt_zone (zone t)"


section \<open>Parsing\<close>

text \<open>\<open>getnum\<close>: two digits, or one when the field is not fixed.\<close>

fun getnum :: "bool \<Rightarrow> string \<Rightarrow> (nat \<times> string) option" where
  "getnum fixed [] = None"
| "getnum fixed (a # cs) =
     (if \<not> is_digit a then None
      else case cs of
        b # ds \<Rightarrow> if is_digit b then Some (10 * digit_val a + digit_val b, ds)
                  else if fixed then None else Some (digit_val a, cs)
      | [] \<Rightarrow> if fixed then None else Some (digit_val a, cs))"

definition lit :: "char \<Rightarrow> string \<Rightarrow> string option" where
  "lit c s = (case s of d # ds \<Rightarrow> if c = d then Some ds else None | [] \<Rightarrow> None)"

definition get_year :: "string \<Rightarrow> (nat \<times> string) option" where
  "get_year s =
     (if length s < 4 \<or> \<not> list_all is_digit (take 4 s) then None
      else Some (digits_val (take 4 s), drop 4 s))"

definition guard_opt :: "bool \<Rightarrow> unit option" where
  "guard_opt b = (if b then Some () else None)"

text \<open>A fraction of a second: at most nine digits count.\<close>

definition get_fraction :: "string \<Rightarrow> nat \<times> string" where
  "get_fraction s =
     (case s of
        c # d # _ \<Rightarrow>
          if (c = CHR ''.'' \<or> c = CHR '','') \<and> is_digit d
          then let ds = takeWhile is_digit (tl s); k = take 9 ds
               in (digits_val k * 10 ^ (9 - length k), drop (length ds) (tl s))
          else (0, s)
      | _ \<Rightarrow> (0, s))"

definition get_zone :: "string \<Rightarrow> (int \<times> string) option" where
  "get_zone s =
     (case s of
        [] \<Rightarrow> None
      | c # cs \<Rightarrow>
          if c = CHR ''Z'' then Some (0, cs)
          else do {
            (hr, r1) \<leftarrow> getnum True cs;
            r2 \<leftarrow> lit (CHR '':'') r1;
            (mm, r3) \<leftarrow> getnum True r2;
            guard_opt (hr \<le> 24 \<and> mm \<le> 60);
            if c = CHR ''+'' then Some (60 * (60 * int hr + int mm), r3)
            else if c = CHR ''-'' then Some (- (60 * (60 * int hr + int mm)), r3) else None
          })"

text \<open>
  The layout up to the seconds, with the fraction that \<open>Parse\<close> accepts there: the reading of
  the clock in nanoseconds and the rest of the text.
\<close>

definition parse_clock :: "string \<Rightarrow> (int \<times> string) option" where
  "parse_clock s = do {
     (y, s1) \<leftarrow> get_year s;
     s2 \<leftarrow> lit (CHR ''-'') s1;
     (m, s3) \<leftarrow> getnum True s2;
     s4 \<leftarrow> lit (CHR ''-'') s3;
     (d, s5) \<leftarrow> getnum True s4;
     s6 \<leftarrow> lit (CHR ''T'') s5;
     (h, s7) \<leftarrow> getnum False s6;
     s8 \<leftarrow> lit (CHR '':'') s7;
     (mi, s9) \<leftarrow> getnum True s8;
     s10 \<leftarrow> lit (CHR '':'') s9;
     (se, s11) \<leftarrow> getnum True s10;
     guard_opt (valid_date (int y) (int m) (int d) \<and> h < 24 \<and> mi < 60 \<and> se < 60);
     (case get_fraction s11 of (ns, s12) \<Rightarrow>
        Some ((86400 * day_number (int y) (int m) (int d) + 3600 * int h + 60 * int mi + int se)
                * 1000000000 + int ns, s12))
   }"

text \<open>\<open>time.Parse(time.RFC3339, s)\<close>; \<open>None\<close> is the error return.\<close>

definition parse_RFC3339 :: "string \<Rightarrow> go_time option" where
  "parse_RFC3339 s = do {
     (w, s1) \<leftarrow> parse_clock s;
     (z, rest) \<leftarrow> get_zone s1;
     guard_opt (rest = []);
     Some \<lparr>wall = w, zone = z\<rparr>
   }"

text \<open>
  \<open>time.Parse("2006-01-02T15:04:05Z", s)\<close>: the letter stands for itself and the result is
  in UTC.
\<close>

definition parse_literal_Z :: "string \<Rightarrow> go_time option" where
  "parse_literal_Z s = do {
     (w, s1) \<leftarrow> parse_clock s;
     rest \<leftarrow> lit (CHR ''Z'') s1;
     guard_opt (rest = []);
     Some \<lparr>wall = w, zone = 0\<rparr>
   }"

text \<open>The further checks of \<open>Time.UnmarshalJSON\<close>.\<close>

definition parse_strict :: "string \<Rightarrow> go_time option" where
  "parse_strict s =
     (case parse_RFC3339 s of
        None \<Rightarrow> None
      | Some t \<Rightarrow>
          if s ! 12 = CHR '':'' \<or> s ! 19 = CHR '','' \<or>
             last s \<noteq> CHR ''Z'' \<and>
               (24 \<le> digits_val (take 2 (drop (length s - 5) s)) \<or> 60 \<le> digits_val (drop (length s - 2) s))
          then None else Some t)"

lemma parse_literal_Z_redundant: "parse_literal_Z s = Some t \<Longrightarrow> parse_RFC3339 s = Some t"
  by (auto simp: parse_literal_Z_def parse_RFC3339_def lit_def get_zone_def guard_opt_def Let_def
      split: Option.bind_splits prod.splits if_splits list.splits)



section \<open>What is printed parses\<close>

lemma length_fmt_nat: "n < 10 ^ w \<Longrightarrow> 0 < w \<Longrightarrow> length (fmt_nat n) \<le> w"
proof (induction n arbitrary: w rule: fmt_nat.induct)
  case (1 n)
  show ?case
  proof (cases "n < 10")
    case True
    then show ?thesis using "1.prems" by (subst fmt_nat.simps) simp
  next
    case False
    then obtain v where v: "w = Suc v" "0 < v" using "1.prems" by (cases w; cases "w - 1") auto
    then have "n div 10 < 10 ^ v" using "1.prems" by (simp add: less_mult_imp_div_less)
    then show ?thesis using 1 False v by (subst fmt_nat.simps) auto
  qed
qed

lemma digits_val_zeros: "digits_val (replicate k (CHR ''0'') @ s) = digits_val s"
  by (induction k) (simp_all add: digits_val_def digit_val_def)

lemma pad_facts:
  assumes "n < 10 ^ w" and "0 < w"
  shows "length (pad w n) = w" and "list_all is_digit (pad w n)" and "digits_val (pad w n) = n"
  using length_fmt_nat [OF assms] fmt_nat_digits [of n]
  by (auto simp: pad_def digits_val_zeros list_all_iff is_digit_def)

lemma pad_digits: "c \<in> set (pad w n) \<Longrightarrow> is_digit c"
  using fmt_nat_digits [of n] by (auto simp: pad_def list_all_iff is_digit_def)

lemma pad_inject: "m < 10 ^ w \<Longrightarrow> n < 10 ^ w \<Longrightarrow> 0 < w \<Longrightarrow> pad w m = pad w n \<longleftrightarrow> m = n"
  by (metis pad_facts(3))

lemma list_length_2: "length s = 2 \<Longrightarrow> \<exists>a b. s = [a, b]"
  by (cases s; cases "tl s") auto

lemma getnum_pad:
  assumes "n < 100"
  shows "getnum fixed (pad 2 n @ s) = Some (n, s)"
proof -
  have p: "length (pad 2 n) = 2" "list_all is_digit (pad 2 n)" "digits_val (pad 2 n) = n"
    using pad_facts [of n 2] assms by simp_all
  then obtain a b where ab: "pad 2 n = [a, b]" using list_length_2 by blast
  then show ?thesis using p by (simp add: digits_val_def)
qed

lemma get_year_pad: "n < 10000 \<Longrightarrow> get_year (pad 4 n @ s) = Some (n, s)"
  using pad_facts [of n 4] by (simp add: get_year_def)

lemma lit_Cons [simp]: "lit c (c # s) = Some s"
  by (simp add: lit_def)

lemma get_fraction_none: "s = [] \<or> hd s \<noteq> CHR ''.'' \<and> hd s \<noteq> CHR '','' \<Longrightarrow> get_fraction s = (0, s)"
  by (cases s; cases "tl s") (auto simp: get_fraction_def)

definition four_digit_year :: "int \<Rightarrow> bool" where
  "four_digit_year s \<longleftrightarrow> (case civil (s div 86400) of (y, _, _) \<Rightarrow> 0 \<le> y \<and> y < 10000)"

lemma clock_parts:
  fixes c :: int
  assumes "0 \<le> c" and "c < 86400"
  shows "nat (c div 3600) < 24" and "nat (c div 60 mod 60) < 60" and "nat (c mod 60) < 60"
    and "3600 * int (nat (c div 3600)) + 60 * int (nat (c div 60 mod 60)) + int (nat (c mod 60)) = c"
proof -
  define q where "q = c div 60"
  have q: "c div 3600 = q div 60" "c = 60 * q + c mod 60" unfolding q_def by (simp_all flip: div_mult2_eq zdiv_zmult2_eq)
  have r: "q = 60 * (q div 60) + q mod 60" by simp
  have "0 \<le> c mod 60" "c mod 60 < 60" "0 \<le> q mod 60" "q mod 60 < 60" by simp_all
  moreover from this have "0 \<le> q" "q < 1440" using assms q(2) by linarith+
  moreover from this have "0 \<le> q div 60" "q div 60 < 24" by simp_all
  ultimately show "nat (c div 3600) < 24" "nat (c div 60 mod 60) < 60" "nat (c mod 60) < 60"
    unfolding q(1) q_def [symmetric] by simp_all
  have "int (nat (c div 3600)) = q div 60" "int (nat (c div 60 mod 60)) = q mod 60" "int (nat (c mod 60)) = c mod 60"
    unfolding q(1) q_def [symmetric] using \<open>0 \<le> q div 60\<close> by simp_all
  then show "3600 * int (nat (c div 3600)) + 60 * int (nat (c div 60 mod 60)) + int (nat (c mod 60)) = c"
    using q(2) r by linarith
qed

lemma valid_date_small: "valid_date y m d \<Longrightarrow> 1 \<le> m \<and> m \<le> 12 \<and> 1 \<le> d \<and> d \<le> 31"
  by (auto simp: valid_date_def daysIn_def split: if_splits)

lemma parse_clock_fraction:
  assumes "four_digit_year s" and "get_fraction rest = (ns, rest')"
  shows "parse_clock (fmt_datetime s @ rest) = Some (s * 1000000000 + int ns, rest')"
proof -
  obtain y m d where ymd: "civil (s div 86400) = (y, m, d)" by (metis prod_cases3)
  note c = day_number_civil [OF ymd]
  have y: "0 \<le> y" "y < 10000" using assms(1) ymd by (auto simp: four_digit_year_def)
  have md: "1 \<le> m" "m \<le> 12" "1 \<le> d" "d \<le> 31" using valid_date_small [OF c(2)] by auto
  have cl: "0 \<le> s mod 86400" "s mod 86400 < 86400" by simp_all
  define h mi se where "h = nat (s mod 86400 div 3600)" and "mi = nat (s mod 86400 div 60 mod 60)"
    and "se = nat (s mod 86400 mod 60)"
  note dp = h_def [symmetric] mi_def [symmetric] se_def [symmetric]
  have p: "h < 24" "mi < 60" "se < 60" "3600 * int h + 60 * int mi + int se = s mod 86400"
    using clock_parts [OF cl] unfolding dp by blast+
  have s: "86400 * (s div 86400) + 3600 * int h + 60 * int mi + int se = s"
    using p(4) mult_div_mod_eq [of 86400 s] by linarith
  obtain Y M D where n: "y = int Y" "m = int M" "d = int D"
    using y(1) md(1,3) by (metis dual_order.trans nonneg_int_cases zero_le_one)
  have small: "Y < 10000" "M < 100" "D < 100" "h < 100" "mi < 100" "se < 100"
    using y md p n by simp_all
  note ev = get_year_pad [OF small(1)] getnum_pad [OF small(2)] getnum_pad [OF small(3)] getnum_pad [OF small(4)]
    getnum_pad [OF small(5)] getnum_pad [OF small(6)] assms(2)
  have "parse_clock (pad 4 Y @ ''-'' @ pad 2 M @ ''-'' @ pad 2 D @ ''T'' @ pad 2 h @ '':'' @
      pad 2 mi @ '':'' @ pad 2 se @ rest) = Some (s * 1000000000 + int ns, rest')"
    unfolding parse_clock_def using s
    by (simp add: ev guard_opt_def c [unfolded n] p(1-3))
  then show ?thesis unfolding fmt_datetime_def fmt_year_def ymd Let_def prod.case dp n by simp
qed

lemma parse_clock_fmt:
  assumes "four_digit_year s" and "rest = [] \<or> hd rest \<noteq> CHR ''.'' \<and> hd rest \<noteq> CHR '',''"
  shows "parse_clock (fmt_datetime s @ rest) = Some (s * 1000000000, rest)"
  using parse_clock_fraction [OF assms(1) get_fraction_none [OF assms(2)]] by simp

lemma get_zone_fmt:
  assumes "60 dvd z" and "\<bar>z\<bar> < 90000"
  shows "get_zone (fmt_zone z) = Some (z, [])" and "hd (fmt_zone z) \<noteq> CHR ''.''" and "hd (fmt_zone z) \<noteq> CHR '',''"
proof -
  obtain k where k: "z = 60 * k" using assms(1) by (auto elim: dvdE)
  define hr mm where "hr = nat \<bar>k\<bar> div 60" and "mm = nat \<bar>k\<bar> mod 60"
  have m: "nat \<bar>z\<bar> div 60 = nat \<bar>k\<bar>" "nat \<bar>k\<bar> < 1500"
    using assms(2) k by (auto simp: abs_mult nat_mult_distrib)
  have h: "hr \<le> 24" "mm < 60" "60 * hr + mm = nat \<bar>k\<bar>"
    using m(2) unfolding hr_def mm_def by (auto simp: less_mult_imp_div_less simp flip: less_Suc_eq_le)
  then have j: "60 * int hr + int mm = \<bar>k\<bar>" by linarith
  have small: "hr < 100" "mm < 100" "mm \<le> 60" using h by simp_all
  have g: "getnum True (pad 2 mm) = Some (mm, [])" using getnum_pad [OF small(2), of True "[]"] by simp
  have f: "fmt_zone z = (if k = 0 then ''Z'' else (if k < 0 then ''-'' else ''+'') @ pad 2 hr @ '':'' @ pad 2 mm)"
    unfolding fmt_zone_def Let_def m(1) hr_def [symmetric] mm_def [symmetric] using k by simp
  consider "k = 0" | "k < 0" | "0 < k" by linarith
  then show "get_zone (fmt_zone z) = Some (z, [])"
    unfolding f
    by cases (use k j in \<open>simp_all add: get_zone_def getnum_pad [OF small(1)] g guard_opt_def h(1) small(3)\<close>)
  show "hd (fmt_zone z) \<noteq> CHR ''.''" "hd (fmt_zone z) \<noteq> CHR '',''"
    by (simp_all add: f)
qed

lemma fmt_zone_neq [simp]: "fmt_zone z \<noteq> []"
  by (simp add: fmt_zone_def Let_def)

lemma parse_format_RFC3339:
  assumes "four_digit_year (seconds t)" and "60 dvd zone t" and "\<bar>zone t\<bar> < 90000"
  shows "parse_RFC3339 (format_RFC3339 t) = Some \<lparr>wall = seconds t * 1000000000, zone = zone t\<rparr>"
  using parse_clock_fmt [OF assms(1), of "fmt_zone (zone t)"] get_zone_fmt [OF assms(2,3)]
  by (simp add: parse_RFC3339_def format_RFC3339_def guard_opt_def)

text \<open>The times that \<open>Parse\<close> returns; the largest offset it accepts is 24:60.\<close>

definition rfc_time :: "go_time \<Rightarrow> bool" where
  "rfc_time t \<longleftrightarrow> four_digit_year (seconds t) \<and> 60 dvd zone t \<and> \<bar>zone t\<bar> \<le> 90000"

lemma fmt_datetime_inject:
  assumes "four_digit_year s" and "four_digit_year s'"
  shows "fmt_datetime s = fmt_datetime s' \<longleftrightarrow> s = s'"
proof
  assume "fmt_datetime s = fmt_datetime s'"
  then have "Some (s * 1000000000, [] :: string) = Some (s' * 1000000000, [])"
    using parse_clock_fmt [OF assms(1) disjI1 [OF refl]] parse_clock_fmt [OF assms(2) disjI1 [OF refl]] by metis
  then show "s = s'" by simp
qed simp

lemma length_fmt_datetime:
  assumes "four_digit_year s"
  shows "length (fmt_datetime s) = 19"
proof -
  obtain y m d where ymd: "civil (s div 86400) = (y, m, d)" by (metis prod_cases3)
  have y: "0 \<le> y" "y < 10000" using assms ymd by (auto simp: four_digit_year_def)
  have md: "1 \<le> m" "m \<le> 12" "1 \<le> d" "d \<le> 31" using valid_date_small [OF day_number_civil(2) [OF ymd]] by auto
  have two: "length (pad 2 n) = 2" if "n < 60" for n using pad_facts(1) [of n 2] that by simp
  have c: "0 \<le> s mod 86400" "s mod 86400 < 86400" by simp_all
  note p = clock_parts(1-3) [OF c]
  have "length (pad 4 (nat y)) = 4" using pad_facts(1) [of "nat y" 4] y by simp
  moreover have "length (pad 2 (nat m)) = 2" "length (pad 2 (nat d)) = 2"
    by (rule two, use md in simp)+
  moreover have "length (pad 2 (nat (s mod 86400 div 3600))) = 2"
    by (rule two, rule less_trans [OF p(1)]) simp
  ultimately show ?thesis
    unfolding fmt_datetime_def fmt_year_def ymd Let_def prod.case length_append two [OF p(2)] two [OF p(3)]
    using y by simp
qed

lemma fmt_zone_inject:
  assumes "60 dvd z" "\<bar>z\<bar> \<le> 90000" "60 dvd z'" "\<bar>z'\<bar> \<le> 90000"
  shows "fmt_zone z = fmt_zone z' \<longleftrightarrow> z = z'"
proof
  assume eq: "fmt_zone z = fmt_zone z'"
  obtain k k' where k: "z = 60 * k" "z' = 60 * k'" using assms(1,3) by (auto elim!: dvdE)
  have m: "nat \<bar>60 * i\<bar> div 60 = nat \<bar>i\<bar>" for i :: int by (simp add: abs_mult nat_mult_distrib)
  have b: "nat \<bar>i\<bar> div 60 < 100" "nat \<bar>i\<bar> mod 60 < 100" if "\<bar>60 * i\<bar> \<le> 90000" for i :: int
  proof -
    have "\<bar>i\<bar> \<le> 1500" using that by linarith
    then have "nat \<bar>i\<bar> < 100 * 60" by linarith
    then show "nat \<bar>i\<bar> div 60 < 100" by (rule less_mult_imp_div_less)
    have "nat \<bar>i\<bar> mod 60 < 60" by simp
    then show "nat \<bar>i\<bar> mod 60 < 100" by linarith
  qed
  note b1 = b(1) [of k] b(2) [of k] b(1) [of k'] b(2) [of k']
  have len: "length (pad 2 (nat \<bar>k\<bar> div 60)) = length (pad 2 (nat \<bar>k'\<bar> div 60))"
    using pad_facts(1) [of "nat \<bar>k\<bar> div 60" 2] pad_facts(1) [of "nat \<bar>k'\<bar> div 60" 2]
      b1(1) [OF assms(2) [unfolded k]] b1(3) [OF assms(4) [unfolded k]] by simp
  show "z = z'"
  proof (cases "k = 0 \<or> k' = 0")
    case True
    then show ?thesis using eq k by (auto simp: fmt_zone_def Let_def split: if_splits)
  next
    case False
    then have s: "k < 0 \<longleftrightarrow> k' < 0"
      and "pad 2 (nat \<bar>k\<bar> div 60) @ '':'' @ pad 2 (nat \<bar>k\<bar> mod 60) =
           pad 2 (nat \<bar>k'\<bar> div 60) @ '':'' @ pad 2 (nat \<bar>k'\<bar> mod 60)"
      using eq unfolding k fmt_zone_def Let_def m by (auto split: if_splits)
    then have "nat \<bar>k\<bar> div 60 = nat \<bar>k'\<bar> div 60" "nat \<bar>k\<bar> mod 60 = nat \<bar>k'\<bar> mod 60"
      using len b1(1,2) [OF assms(2) [unfolded k]] b1(3,4) [OF assms(4) [unfolded k]]
        pad_inject [of "nat \<bar>k\<bar> div 60" 2 "nat \<bar>k'\<bar> div 60"] pad_inject [of "nat \<bar>k\<bar> mod 60" 2 "nat \<bar>k'\<bar> mod 60"]
      by simp_all
    then have "nat \<bar>k\<bar> = nat \<bar>k'\<bar>" by (metis mult_div_mod_eq)
    then show ?thesis using s k by linarith
  qed
qed simp

lemma format_RFC3339_inject:
  assumes "rfc_time t" and "rfc_time t'"
  shows "format_RFC3339 t = format_RFC3339 t' \<longleftrightarrow> seconds t = seconds t' \<and> zone t = zone t'"
  using assms length_fmt_datetime [of "seconds t"] length_fmt_datetime [of "seconds t'"]
    fmt_datetime_inject [of "seconds t" "seconds t'"] fmt_zone_inject [of "zone t" "zone t'"]
  by (auto simp: rfc_time_def format_RFC3339_def)

lemma fraction_small:
  assumes "get_fraction s = (n, r)"
  shows "n < 1000000000"
proof (rule ccontr)
  assume n: "\<not> n < 1000000000"
  define k where "k = take 9 (takeWhile is_digit (tl s))"
  have bound: "list_all is_digit ds \<Longrightarrow> digits_val ds < 10 ^ length ds" for ds
    by (induction ds rule: rev_induct) (auto simp: digits_val_snoc digits_val_def digit_val_def is_digit_def)
  have "list_all is_digit k" unfolding k_def by (auto simp: list_all_iff dest: in_set_takeD set_takeWhileD)
  then have "digits_val k * 10 ^ (9 - length k) < 10 ^ length k * 10 ^ (9 - length k)"
    using bound by (intro mult_strict_right_mono) simp_all
  also have "\<dots> = 1000000000" by (simp add: k_def flip: power_add)
  moreover have "n = digits_val k * 10 ^ (9 - length k)"
    using assms n by (auto simp: get_fraction_def k_def Let_def split: list.splits if_splits)
  ultimately show False using n by simp
qed

lemma get_year_small: "get_year s = Some (y, r) \<Longrightarrow> y < 10000"
proof -
  assume y: "get_year s = Some (y, r)"
  have bound: "list_all is_digit ds \<Longrightarrow> digits_val ds < 10 ^ length ds" for ds
    by (induction ds rule: rev_induct) (auto simp: digits_val_snoc digits_val_def digit_val_def is_digit_def)
  then show ?thesis using y bound [of "take 4 s"] by (auto simp: get_year_def split: if_splits)
qed

lemma parse_RFC3339_rfc_time:
  assumes "parse_RFC3339 s = Some t"
  shows "rfc_time t"
proof -
  obtain w s1 z where w: "parse_clock s = Some (w, s1)" and z: "get_zone s1 = Some (z, [])"
      and t: "t = \<lparr>wall = w, zone = z\<rparr>"
    using assms by (auto simp: parse_RFC3339_def guard_opt_def split: Option.bind_splits if_splits)
  have "60 dvd z \<and> \<bar>z\<bar> \<le> 90000"
    using z by (auto simp: get_zone_def guard_opt_def split: Option.bind_splits list.splits if_splits)
  moreover have "four_digit_year (w div 1000000000)"
  proof -
    obtain y m d h mi se ns where v: "valid_date (int y) (int m) (int d)" "h < 24" "mi < 60" "se < 60"
        "y < 10000" "ns < 1000000000"
        and w': "w = (86400 * day_number (int y) (int m) (int d) + 3600 * int h + 60 * int mi + int se) * 1000000000 + int ns"
      using w by (auto simp: parse_clock_def guard_opt_def split: Option.bind_splits if_splits prod.splits
          dest!: get_year_small fraction_small)
    have "int ns div 1000000000 = 0" using v(6) by simp
    then have "w div 1000000000 = 86400 * day_number (int y) (int m) (int d) + (3600 * int h + 60 * int mi + int se)"
      unfolding w' by (simp add: div_plus_div_distrib_dvd_left)
    moreover have "(3600 * int h + 60 * int mi + int se) div 86400 = 0"
      using v(2-4) by (intro div_pos_pos_trivial) linarith+
    ultimately have "w div 1000000000 div 86400 = day_number (int y) (int m) (int d)"
      by (simp add: div_plus_div_distrib_dvd_left)
    then show ?thesis using civil_day_number [OF v(1)] v(5) by (simp add: four_digit_year_def)
  qed
  ultimately show ?thesis by (simp add: rfc_time_def t seconds_def)
qed


lemma digits_val_trailing: "digits_val (ds @ replicate j (CHR ''0'')) = digits_val ds * 10 ^ j"
proof (induction j)
  case (Suc j)
  have "ds @ replicate (Suc j) (CHR ''0'') = (ds @ replicate j (CHR ''0'')) @ [CHR ''0'']"
    by (simp add: replicate_append_same)
  then show ?case using Suc digits_val_snoc [of "ds @ replicate j (CHR ''0'')" "CHR ''0''"]
    by (simp add: digit_val_def)
qed simp

lemma stripped_zeros:
  "\<exists>j. s = rev (dropWhile (\<lambda>c. c = z) (rev s)) @ replicate j z"
proof -
  let ?k = "takeWhile (\<lambda>c. c = z) (rev s)"
  have "?k = replicate (length ?k) z"
    by (metis (mono_tags, lifting) replicate_length_same set_takeWhileD)
  then have "rev ?k = replicate (length ?k) z" by (metis rev_replicate)
  moreover have "s = rev (dropWhile (\<lambda>c. c = z) (rev s)) @ rev ?k"
    by (metis rev_append rev_rev_ident takeWhile_dropWhile_id)
  ultimately show ?thesis by metis
qed

lemma get_fraction_nano:
  assumes "n < 1000000000" and "rest = [] \<or> \<not> is_digit (hd rest)" and "n = 0 \<longrightarrow> get_fraction rest = (0, rest)"
  shows "get_fraction (fmt_nano n @ rest) = (n, rest)"
proof (cases "n = 0")
  case True
  then show ?thesis using assms(3) by (simp add: fmt_nano_def)
next
  case False
  define ds where "ds = rev (dropWhile (\<lambda>c. c = CHR ''0'') (rev (pad 9 n)))"
  note p = pad_facts [of n 9]
  obtain j where j: "pad 9 n = ds @ replicate j (CHR ''0'')"
    using stripped_zeros [of "pad 9 n" "CHR ''0''"] unfolding ds_def by blast
  have len: "length ds + j = 9" using p(1) assms(1) arg_cong [OF j, of length] by simp
  have val: "digits_val ds * 10 ^ j = n"
    using p(3) assms(1) digits_val_trailing [of ds j] j by simp
  have dig: "list_all is_digit ds" using p(2) assms(1) j by simp
  obtain d es where ds: "ds = d # es" using val False by (cases ds) (auto simp: digits_val_def)
  have tw: "takeWhile is_digit (ds @ rest) = ds"
    using dig assms(2) by (cases rest) (auto simp: list_all_iff takeWhile_append2)
  have "get_fraction (CHR ''.'' # ds @ rest) = (digits_val ds * 10 ^ (9 - length ds), rest)"
    using dig len tw by (simp add: get_fraction_def ds Let_def)
  moreover have "9 - length ds = j" using len by simp
  moreover have "fmt_nano n = CHR ''.'' # ds" using False by (simp add: fmt_nano_def ds_def)
  ultimately show ?thesis using val by simp
qed

lemma fmt_datetime_12:
  assumes "four_digit_year s"
  shows "is_digit (fmt_datetime s ! 12)"
proof -
  obtain y m d where ymd: "civil (s div 86400) = (y, m, d)" by (metis prod_cases3)
  have y: "0 \<le> y" "y < 10000" using assms ymd by (auto simp: four_digit_year_def)
  have md: "1 \<le> m" "m \<le> 12" "1 \<le> d" "d \<le> 31" using valid_date_small [OF day_number_civil(2) [OF ymd]] by auto
  have h: "nat (s mod 86400 div 3600) < 100" using clock_parts(1) [of "s mod 86400"] by simp
  have l: "length (pad 4 (nat y)) = 4" "length (pad 2 (nat m)) = 2" "length (pad 2 (nat d)) = 2"
      "length (pad 2 (nat (s mod 86400 div 3600))) = 2" "list_all is_digit (pad 2 (nat (s mod 86400 div 3600)))"
    using pad_facts(1) [of "nat y" 4] pad_facts(1) [of "nat m" 2] pad_facts(1) [of "nat d" 2]
      pad_facts(1,2) [of "nat (s mod 86400 div 3600)" 2] y md h by simp_all
  define A where "A = pad 4 (nat y) @ ''-'' @ pad 2 (nat m) @ ''-'' @ pad 2 (nat d) @ ''T''"
  have "length A = 11" using l(1-3) by (simp add: A_def)
  moreover have "\<exists>B. fmt_datetime s = A @ pad 2 (nat (s mod 86400 div 3600)) @ B"
    using y(1) by (simp add: fmt_datetime_def ymd Let_def A_def fmt_year_def)
  then obtain B where "fmt_datetime s = A @ pad 2 (nat (s mod 86400 div 3600)) @ B" ..
  ultimately have "fmt_datetime s ! 12 = pad 2 (nat (s mod 86400 div 3600)) ! 1"
    using l(4) by (simp only: nth_append) simp
  then show ?thesis using l(4,5) by (simp add: list_all_length)
qed

lemma parse_strict_format:
  assumes "four_digit_year (w div 1000000000)"
  shows "parse_strict (format_RFC3339Nano \<lparr>wall = w, zone = 0\<rparr>) = Some \<lparr>wall = w, zone = 0\<rparr>"
proof -
  define s n where "s = w div 1000000000" and "n = nat (w mod 1000000000)"
  have n: "n < 1000000000" "s * 1000000000 + int n = w" unfolding s_def n_def by simp_all
  have y: "four_digit_year s" using assms by (simp add: s_def)
  let ?t = "fmt_datetime s @ fmt_nano n @ ''Z''"
  have f: "format_RFC3339Nano \<lparr>wall = w, zone = 0\<rparr> = ?t"
    by (simp add: format_RFC3339Nano_def seconds_def ns_of_def fmt_zone_def s_def n_def)
  have "get_fraction (fmt_nano n @ ''Z'') = (n, ''Z'')"
    by (rule get_fraction_nano [OF n(1)]) (simp_all add: is_digit_def get_fraction_none)
  from parse_clock_fraction [OF y this] have "parse_RFC3339 ?t = Some \<lparr>wall = w, zone = 0\<rparr>"
    using n(2) by (simp add: parse_RFC3339_def get_zone_def guard_opt_def)
  moreover have "?t ! 12 \<noteq> CHR '':''"
    using fmt_datetime_12 [OF y] length_fmt_datetime [OF y] by (auto simp: nth_append is_digit_def)
  moreover have "?t ! 19 \<noteq> CHR '',''"
    using length_fmt_datetime [OF y] by (simp add: nth_append fmt_nano_def)
  ultimately show ?thesis unfolding f by (simp add: parse_strict_def)
qed


end
