(* ===== verification/Codec.thy ===== *)
theory Codec
  imports Go_Json Go_Time
begin

text \<open>
  The JSON texts of the API and of the cache: what \<open>json.Marshal\<close> writes for the structs of
  \<open>src/internal/models/event.go\<close> and \<open>src/internal/models/stats.go\<close>, and what
  \<open>json.Unmarshal\<close> and \<open>json.Decoder\<close> read into them. A \<open>json.RawMessage\<close> is kept
  as text: it is compacted when written, and read as the bytes that stand in the document.
\<close>


section \<open>Writing\<close>

text \<open>
  \<open>json.Compact\<close> with HTML escaping: white space between tokens goes, the characters that
  matter to HTML are escaped, everything else stays as it is. The flag says whether the position
  is inside a string.
\<close>

fun compact_text :: "bool \<Rightarrow> string \<Rightarrow> string" where
  "compact_text q [] = []"
| "compact_text False (c # cs) =
     (if is_ws c then compact_text False cs else c # compact_text (c = dquote) cs)"
| "compact_text True (c # cs) =
     (if c = bslash then (case cs of [] \<Rightarrow> [c] | d # ds \<Rightarrow> c # d # compact_text True ds)
      else if c \<in> set ''<>&'' then u_escape (byte c) @ compact_text True cs
      else if take 3 (c # cs) = utf8_encode 8232 then u_escape 8232 @ compact_text True (drop 2 cs)
      else if take 3 (c # cs) = utf8_encode 8233 then u_escape 8233 @ compact_text True (drop 2 cs)
      else c # compact_text (c \<noteq> dquote) cs)"

text \<open>A \<open>json.RawMessage\<close>; \<open>None\<close> is the error of an invalid text.\<close>

definition raw_text :: "string option \<Rightarrow> string option" where
  "raw_text m =
     (case m of
        None \<Rightarrow> Some ''null''
      | Some t \<Rightarrow> if json_parse t = None then None else Some (compact_text False t))"

text \<open>An instant in a zone; \<open>Time.MarshalJSON\<close> refuses years of more than four digits.\<close>

definition time_text :: "int \<Rightarrow> int \<Rightarrow> string option" where
  "time_text z i =
     (let t = \<lparr>wall = i + z * 1000000000, zone = z\<rparr> in
      if four_digit_year (seconds t) \<and> \<bar>z\<bar> < 86400
      then Some (dquote # format_RFC3339Nano t @ [dquote]) else None)"

definition obj_text :: "(string \<times> string) list \<Rightarrow> string" where
  "obj_text ms = CHR ''{'' # join '','' (map (\<lambda>(k, v). quote k @ CHR '':'' # v) ms) @ ''}''"

definition arr_text :: "string list \<Rightarrow> string" where
  "arr_text vs = CHR ''['' # join '','' vs @ '']''"

definition event_text :: "int \<Rightarrow> Event \<Rightarrow> string option" where
  "event_text z e = do {
     ts \<leftarrow> time_text z (ev_Timestamp e);
     md \<leftarrow> raw_text (ev_Metadata e);
     Some (obj_text [(''id'', fmt_d (sint (ID e))), (''user_id'', fmt_d (sint (ev_UserID e))),
                     (''type_id'', fmt_d (sint (TypeID e))), (''timestamp'', ts),
                     (''metadata'', md), (''type'', quote (Type e))])
   }"

text \<open>
  A page as the store fills it: an empty result leaves the slice \<open>nil\<close>, which is written
  \<open>null\<close>; the times of the database carry the offset zero.
\<close>

definition page_text :: "PaginatedEvents \<Rightarrow> string option" where
  "page_text p = do {
     es \<leftarrow> those (map (event_text 0) (Data p));
     Some (obj_text [(''data'', if es = [] then ''null'' else arr_text es),
                     (''page'', fmt_nat (unat (Page p))), (''limit'', fmt_nat (unat (Limit p))),
                     (''total'', fmt_nat (unat (Total p)))])
   }"

definition event_data_text :: "int \<Rightarrow> Event \<Rightarrow> string option" where
  "event_data_text z e = map_option (\<lambda>t. obj_text [(''data'', t)]) (event_text z e)"

definition stats_text :: "Stats \<Rightarrow> string option" where
  "stats_text st =
     map_option (\<lambda>t. obj_text [(''total_events'', fmt_d (TotalEvents st)),
                               (''unique_users'', fmt_d (UniqueUsers st)), (''top_pages'', t)])
       (raw_text (Some (TopPages st)))"

definition error_body :: "string \<Rightarrow> string" where
  "error_body m = obj_text [(''error'', quote m)]"


section \<open>Reading\<close>

text \<open>A value, its text and what follows it.\<close>

definition raw_value :: "string \<Rightarrow> (json \<times> string \<times> string) option" where
  "raw_value s =
     (case parse_value (Suc (length s)) s of
        None \<Rightarrow> None
      | Some (v, u) \<Rightarrow> Some (v, take (length (skip_ws s) - length u) (skip_ws s), u))"

text \<open>
  The members of an object after its opening brace, with the text of every value. The fuel
  bounds the number of members, each of which takes at least one byte.
\<close>

fun raw_members :: "nat \<Rightarrow> string \<Rightarrow> (string \<times> json \<times> string) list option" where
  "raw_members 0 s = None"
| "raw_members (Suc f) s =
     (case skip_ws s of
        [] \<Rightarrow> None
      | c # cs \<Rightarrow>
          if c = CHR ''}'' then Some []
          else if c \<noteq> dquote then None
          else case unescape (Suc (length cs)) cs of
            None \<Rightarrow> None
          | Some (k, u) \<Rightarrow>
              (case skip_ws u of
                 [] \<Rightarrow> None
               | d # ds \<Rightarrow>
                   (case raw_value ds of
                      None \<Rightarrow> None
                    | Some (v, raw, w) \<Rightarrow>
                        (case skip_ws w of
                           [] \<Rightarrow> None
                         | e # es \<Rightarrow>
                             if e = CHR '',''
                             then map_option ((#) (k, v, raw)) (raw_members f es)
                             else Some [(k, v, raw)]))))"

fun raw_elems :: "nat \<Rightarrow> string \<Rightarrow> string list option" where
  "raw_elems 0 s = None"
| "raw_elems (Suc f) s =
     (case skip_ws s of
        [] \<Rightarrow> None
      | c # cs \<Rightarrow>
          if c = CHR '']'' then Some []
          else case raw_value (c # cs) of
            None \<Rightarrow> None
          | Some (v, raw, w) \<Rightarrow>
              (case skip_ws w of
                 [] \<Rightarrow> None
               | e # es \<Rightarrow>
                   if e = CHR '','' then map_option ((#) raw) (raw_elems f es) else Some [raw]))"

text \<open>
  The members of a document that is to fill a struct: \<open>null\<close> has none, a value that is not an
  object is an error. The text has been parsed as a whole before, so its syntax is right.
\<close>

definition struct_members :: "json \<Rightarrow> string \<Rightarrow> (string \<times> json \<times> string) list option" where
  "struct_members v raw =
     (case v of
        JNull \<Rightarrow> Some []
      | JObj _ \<Rightarrow> raw_members (Suc (length raw)) (tl raw)
      | _ \<Rightarrow> None)"

fun fill :: "('a \<Rightarrow> string \<times> json \<times> string \<Rightarrow> 'a option) \<Rightarrow> 'a \<Rightarrow> (string \<times> json \<times> string) list \<Rightarrow> 'a option" where
  "fill f x [] = Some x"
| "fill f x (m # ms) = (case f x m of None \<Rightarrow> None | Some y \<Rightarrow> fill f y ms)"

definition dec_uint :: "json \<Rightarrow> uint \<Rightarrow> uint option" where
  "dec_uint v old =
     (case v of
        JNull \<Rightarrow> Some old
      | JNum l \<Rightarrow>
          (case parse_digits l of
             Some n \<Rightarrow> if n < 2 ^ 64 then Some (of_nat n) else None
           | None \<Rightarrow> None)
      | _ \<Rightarrow> None)"

definition dec_int :: "json \<Rightarrow> int \<Rightarrow> int option" where
  "dec_int v old = (case v of JNull \<Rightarrow> Some old | JNum l \<Rightarrow> ParseInt64 l | _ \<Rightarrow> None)"

text \<open>\<open>Time.UnmarshalJSON\<close> gets the text of the value, quotes included.\<close>

definition dec_time :: "string \<Rightarrow> int \<Rightarrow> int option" where
  "dec_time raw old =
     (if raw = ''null'' then Some old
      else if length raw < 2 \<or> hd raw \<noteq> dquote \<or> last raw \<noteq> dquote then None
      else map_option (\<lambda>t. wall t - zone t * 1000000000) (parse_strict (butlast (tl raw))))"

definition set_event :: "Event \<Rightarrow> string \<times> json \<times> string \<Rightarrow> Event option" where
  "set_event e m =
     (case m of (k, v, raw) \<Rightarrow>
        let n = fold_name k in
        if n = ''id'' then map_option (\<lambda>x. e\<lparr>ID := x\<rparr>) (dec_int64 v (ID e))
        else if n = ''user_id'' then map_option (\<lambda>x. e\<lparr>ev_UserID := x\<rparr>) (dec_int64 v (ev_UserID e))
        else if n = ''type_id'' then map_option (\<lambda>x. e\<lparr>TypeID := x\<rparr>) (dec_int64 v (TypeID e))
        else if n = ''timestamp'' then map_option (\<lambda>x. e\<lparr>ev_Timestamp := x\<rparr>) (dec_time raw (ev_Timestamp e))
        else if n = ''metadata'' then Some (e\<lparr>ev_Metadata := Some raw\<rparr>)
        else if n = ''type'' then map_option (\<lambda>x. e\<lparr>Type := x\<rparr>) (dec_string v (Type e))
        else Some e)"

definition zero_Event :: Event where
  "zero_Event = \<lparr>ID = 0, ev_UserID = 0, TypeID = 0, ev_Timestamp = zero_time, ev_Metadata = None, Type = []\<rparr>"

definition dec_event :: "string \<Rightarrow> Event option" where
  "dec_event raw =
     (case raw_value raw of
        None \<Rightarrow> None
      | Some (v, t, _) \<Rightarrow> Option.bind (struct_members v t) (fill set_event zero_Event))"

definition dec_events :: "json \<Rightarrow> string \<Rightarrow> Event list option" where
  "dec_events v raw =
     (case v of
        JNull \<Rightarrow> Some []
      | JArr _ \<Rightarrow> Option.bind (raw_elems (Suc (length raw)) (tl raw)) (\<lambda>rs. those (map dec_event rs))
      | _ \<Rightarrow> None)"

definition set_page :: "PaginatedEvents \<Rightarrow> string \<times> json \<times> string \<Rightarrow> PaginatedEvents option" where
  "set_page p m =
     (case m of (k, v, raw) \<Rightarrow>
        let n = fold_name k in
        if n = ''data'' then map_option (\<lambda>x. p\<lparr>Data := x\<rparr>) (dec_events v raw)
        else if n = ''page'' then map_option (\<lambda>x. p\<lparr>Page := x\<rparr>) (dec_uint v (Page p))
        else if n = ''limit'' then map_option (\<lambda>x. p\<lparr>Limit := x\<rparr>) (dec_uint v (Limit p))
        else if n = ''total'' then map_option (\<lambda>x. p\<lparr>Total := x\<rparr>) (dec_uint v (Total p))
        else Some p)"

definition set_stats :: "Stats \<Rightarrow> string \<times> json \<times> string \<Rightarrow> Stats option" where
  "set_stats st m =
     (case m of (k, v, raw) \<Rightarrow>
        let n = fold_name k in
        if n = ''total_events'' then map_option (\<lambda>x. st\<lparr>TotalEvents := x\<rparr>) (dec_int v (TotalEvents st))
        else if n = ''unique_users'' then map_option (\<lambda>x. st\<lparr>UniqueUsers := x\<rparr>) (dec_int v (UniqueUsers st))
        else if n = ''top_pages'' then Some (st\<lparr>TopPages := raw\<rparr>)
        else Some st)"

definition set_input :: "CreateEventInput \<Rightarrow> string \<times> json \<times> string \<Rightarrow> CreateEventInput option" where
  "set_input i m =
     (case m of (k, v, raw) \<Rightarrow>
        let n = fold_name k in
        if n = ''user_id'' then map_option (\<lambda>x. i\<lparr>in_UserID := x\<rparr>) (dec_int64 v (in_UserID i))
        else if n = ''event_type'' then map_option (\<lambda>x. i\<lparr>in_Type := x\<rparr>) (dec_string v (in_Type i))
        else if n = ''metadata'' then Some (i\<lparr>in_Metadata := Some raw\<rparr>)
        else Some i)"

text \<open>\<open>json.Unmarshal\<close>: the whole text is one document.\<close>

definition unmarshal_struct :: "('a \<Rightarrow> string \<times> json \<times> string \<Rightarrow> 'a option) \<Rightarrow> 'a \<Rightarrow> string \<Rightarrow> 'a option" where
  "unmarshal_struct f zero s =
     (case raw_value s of
        Some (v, raw, u) \<Rightarrow> if skip_ws u = [] then Option.bind (struct_members v raw) (fill f zero) else None
      | None \<Rightarrow> None)"

definition unmarshal_page :: "string \<Rightarrow> PaginatedEvents option" where
  "unmarshal_page = unmarshal_struct set_page \<lparr>Data = [], Page = 0, Limit = 0, Total = 0\<rparr>"

definition unmarshal_stats :: "string \<Rightarrow> Stats option" where
  "unmarshal_stats = unmarshal_struct set_stats \<lparr>TotalEvents = 0, UniqueUsers = 0, TopPages = []\<rparr>"

definition unmarshal_int64 :: "string \<Rightarrow> int64 option" where
  "unmarshal_int64 s = Option.bind (json_parse s) (\<lambda>v. dec_int64 v 0)"

text \<open>
  \<open>json.NewDecoder(body).Decode(&input)\<close>: the first document of the body; what follows it
  is not read.
\<close>

definition decode_input :: "string \<Rightarrow> CreateEventInput option" where
  "decode_input s =
     (case raw_value s of
        Some (v, raw, _) \<Rightarrow>
          Option.bind (struct_members v raw) (fill set_input \<lparr>in_UserID = 0, in_Type = [], in_Metadata = None\<rparr>)
      | None \<Rightarrow> None)"


section \<open>What is written is read\<close>

lemma print_not_ws: "good_json v \<Longrightarrow> skip_ws (print_json v @ t) = print_json v @ t"
  using first_char [of v] by auto

lemma raw_value_print:
  assumes "good_json v" and "stop rest"
  shows "raw_value (print_json v @ rest) = Some (v, print_json v, rest)"
proof -
  have "parse_value (Suc (length (print_json v @ rest))) (print_json v @ rest) = Some (v, rest)"
    using parses_good [OF assms(1)] assms(2) unfolding parses_def by (metis le_imp_less_Suc length_append le_add1)
  then show ?thesis
    using print_not_ws [OF assms(1), of rest] unfolding raw_value_def by (simp del: parse_value.simps)
qed

definition with_text :: "string \<times> json \<Rightarrow> string \<times> json \<times> string" where
  "with_text m = (fst m, snd m, print_json (snd m))"

lemma raw_members_print:
  assumes "ms \<noteq> []" and "good_json (JObj ms)" and "length ms \<le> f"
  shows "raw_members f (members_text ms @ CHR ''}'' # rest) = Some (map with_text ms)"
  using assms
proof (induction ms arbitrary: f)
  case (Cons m ms)
  note prems = Cons.prems and IH = Cons.IH
  obtain k v where m: "m = (k, v)" by fastforce
  obtain g where f: "f = Suc g" using prems(3) by (cases f) auto
  have kv: "valid_utf8 k" "good_json v" using prems(2) m by auto
  show ?case
  proof (cases ms)
    case Nil
    have "raw_value (print_json v @ CHR ''}'' # rest) = Some (v, print_json v, CHR ''}'' # rest)"
      by (rule raw_value_print [OF kv(2)]) (simp add: stop_def)
    then show ?thesis
      using unescape_quote [OF kv(1)] by (simp add: f m Nil members_text_def quote_def with_text_def dquote_neq)
  next
    case (Cons m' ms')
    let ?more = "CHR '','' # members_text ms @ CHR ''}'' # rest"
    have mt: "members_text (m # ms) = quote k @ CHR '':'' # print_json v @ CHR '','' # members_text ms"
      by (simp add: members_text_def m Cons)
    have "raw_value (print_json v @ ?more) = Some (v, print_json v, ?more)"
      by (rule raw_value_print [OF kv(2)]) (simp add: stop_def)
    moreover have "raw_members g (members_text ms @ CHR ''}'' # rest) = Some (map with_text ms)"
      using IH [of g] prems Cons f by simp
    ultimately show ?thesis
      using unescape_quote [OF kv(1)] unfolding mt by (simp add: f m quote_def with_text_def dquote_neq)
  qed
qed simp

lemma members_text_length: "length ms \<le> length (members_text ms)"
proof (induction ms)
  case (Cons m ms)
  then show ?case by (cases ms; cases m) (auto simp: members_text_def quote_def)
qed (simp add: members_text_def)

lemma struct_members_print:
  assumes "good_json (JObj ms)"
  shows "struct_members (JObj ms) (print_json (JObj ms)) = Some (map with_text ms)"
proof -
  define doc where "doc = print_json (JObj ms)"
  have pr: "doc = CHR ''{'' # members_text ms @ ''}''" by (simp add: doc_def members_text_def)
  have "raw_members (Suc (length doc)) (members_text ms @ ''}'') = Some (map with_text ms)"
  proof (cases "ms = []")
    case True
    then show ?thesis by (simp add: members_text_def)
  next
    case False
    show ?thesis
      by (rule raw_members_print [OF False assms]) (use members_text_length [of ms] pr in simp)
  qed
  then show ?thesis unfolding doc_def [symmetric] by (simp add: struct_members_def pr del: raw_members.simps)
qed

lemma unmarshal_print:
  assumes "good_json (JObj ms)"
  shows "unmarshal_struct f z (print_json (JObj ms)) = fill f z (map with_text ms)"
  using raw_value_print [OF assms, of "[]"] struct_members_print [OF assms]
  by (simp add: unmarshal_struct_def stop_def del: print_json.simps)

lemma decode_print:
  assumes "good_json (JObj ms)"
  shows "decode_input (print_json (JObj ms) @ rest) =
     fill set_input \<lparr>in_UserID = 0, in_Type = [], in_Metadata = None\<rparr> (map with_text ms)"
proof -
  have "parse_value (Suc (length (print_json (JObj ms) @ rest))) (print_json (JObj ms) @ rest) = Some (JObj ms, rest)"
    by (rule parse_object_text) (use assms parses_good in auto)
  then have "raw_value (print_json (JObj ms) @ rest) = Some (JObj ms, print_json (JObj ms), rest)"
    using print_not_ws [OF assms, of rest] unfolding raw_value_def by (simp del: parse_value.simps print_json.simps)
  then show ?thesis
    using struct_members_print [OF assms] by (simp add: decode_input_def del: print_json.simps)
qed

lemma lower_names [simp]:
  "fold_name ''user_id'' = ''user_id''" "fold_name ''event_type'' = ''event_type''"
  "fold_name ''metadata'' = ''metadata''" "fold_name ''total_events'' = ''total_events''"
  "fold_name ''unique_users'' = ''unique_users''" "fold_name ''top_pages'' = ''top_pages''"
  "fold_name ''id'' = ''id''" "fold_name ''type_id'' = ''type_id''"
  "fold_name ''timestamp'' = ''timestamp''" "fold_name ''type'' = ''type''"
  "fold_name ''data'' = ''data''" "fold_name ''page'' = ''page''" "fold_name ''limit'' = ''limit''"
  "fold_name ''total'' = ''total''"
  by (rule fold_name_lower, simp)+

lemma ascii_names [simp]:
  "valid_utf8 ''user_id''" "valid_utf8 ''event_type''" "valid_utf8 ''metadata''" "valid_utf8 ''total_events''"
  "valid_utf8 ''unique_users''" "valid_utf8 ''top_pages''" "valid_utf8 ''id''" "valid_utf8 ''type_id''"
  "valid_utf8 ''timestamp''" "valid_utf8 ''type''" "valid_utf8 ''data''" "valid_utf8 ''page''"
  "valid_utf8 ''limit''" "valid_utf8 ''total''"
  by (rule valid_utf8_ascii, simp)+

text \<open>The body of a request, as a client writes it.\<close>

definition request_body :: "int64 \<Rightarrow> string \<Rightarrow> json \<Rightarrow> string" where
  "request_body u t m =
     print_json (JObj [(''user_id'', enc_int64 u), (''event_type'', JStr t), (''metadata'', m)])"

lemma set_input_fields:
  "set_input i (''user_id'', v, raw) = map_option (\<lambda>x. i\<lparr>in_UserID := x\<rparr>) (dec_int64 v (in_UserID i))"
  "set_input i (''event_type'', v, raw) = map_option (\<lambda>x. i\<lparr>in_Type := x\<rparr>) (dec_string v (in_Type i))"
  "set_input i (''metadata'', v, raw) = Some (i\<lparr>in_Metadata := Some raw\<rparr>)"
  unfolding set_input_def Let_def prod.case lower_names by simp_all

lemma decode_request_body:
  assumes "valid_utf8 t" and "good_json m"
  shows "decode_input (request_body u t m @ rest) =
     Some \<lparr>in_UserID = u, in_Type = t, in_Metadata = Some (print_json m)\<rparr>"
proof -
  have "good_json (enc_int64 u)" by (auto simp: enc_int64_def)
  then have g: "good_json (JObj [(''user_id'', enc_int64 u), (''event_type'', JStr t), (''metadata'', m)])"
    using assms by simp
  show ?thesis
    unfolding request_body_def decode_print [OF g]
    by (simp add: with_text_def set_input_fields dec_string_def del: print_json.simps)
qed

text \<open>
  C35. The body that \<open>POST /events\<close> expects is understood: a document with the fields
  \<open>user_id\<close>, \<open>event_type\<close> and \<open>metadata\<close>, written for any 64-bit user, any type of valid
  UTF-8 and any metadata, decodes to exactly these, the metadata as the text that was sent;
  whatever follows the document is not read.
\<close>

theorem request_roundtrip:
  assumes "valid_utf8 t" and "good_json m"
  shows "decode_input (request_body u t m @ rest) =
     Some \<lparr>in_UserID = u, in_Type = t, in_Metadata = Some (print_json m)\<rparr>"
  by (rule decode_request_body [OF assms])

theorem request_roundtrip_witness:
  "decode_input (request_body 7 ''click'' (JObj [(''page'', JStr ''/home'')])) =
     Some \<lparr>in_UserID = 7, in_Type = ''click'', in_Metadata = Some (print_json (JObj [(''page'', JStr ''/home'')]))\<rparr>"
proof -
  have "valid_utf8 ''click''" "valid_utf8 ''/home''" by (rule valid_utf8_ascii, simp)+
  then show ?thesis using request_roundtrip [of "''click''" "JObj [(''page'', JStr ''/home'')]" 7 "[]"] by simp
qed


section \<open>A document that Marshal wrote is compact\<close>

lemma hex_digit_plain:
  assumes "n < 16"
  shows "hex_digit n \<noteq> bslash" "hex_digit n \<noteq> dquote" "hex_digit n \<notin> set ''<>&''" "byte (hex_digit n) < 128"
proof -
  have b: "byte (hex_digit n) = (if n < 10 then 48 + n else 87 + n)"
    using assms by (simp add: hex_digit_def)
  show "byte (hex_digit n) < 128" using b assms by auto
  show "hex_digit n \<noteq> bslash" "hex_digit n \<noteq> dquote" "hex_digit n \<notin> set ''<>&''"
    using b assms by (auto simp: bslash_def dquote_def split: if_splits)
qed

text \<open>A byte that compaction copies inside a string.\<close>

definition copied :: "char \<Rightarrow> string \<Rightarrow> bool" where
  "copied c cs \<longleftrightarrow> c \<noteq> bslash \<and> c \<noteq> dquote \<and> c \<notin> set ''<>&'' \<and>
     take 3 (c # cs) \<noteq> utf8_encode 8232 \<and> take 3 (c # cs) \<noteq> utf8_encode 8233"

lemma compact_copied: "copied c cs \<Longrightarrow> compact_text True (c # cs) = c # compact_text True cs"
  by (simp add: copied_def)

lemma not_separator: "byte c \<noteq> 226 \<Longrightarrow> c # x \<noteq> utf8_encode 8232 \<and> c # x \<noteq> utf8_encode 8233"
  by (auto simp: utf8_encode_def)

lemma compact_bslash: "compact_text True (bslash # d # t) = bslash # d # compact_text True t"
  by simp

lemma compact_dquote: "compact_text True (dquote # t) = dquote # compact_text False t"
proof -
  have "byte dquote \<noteq> 226" by (simp add: dquote_def)
  from not_separator [OF this] show ?thesis by (simp add: numeral_3_eq_3) (simp add: dquote_def bslash_def)
qed

declare compact_text.simps(3) [simp del]

lemma copied_byte:
  assumes "c \<noteq> bslash" "c \<noteq> dquote" "c \<notin> set ''<>&''" "byte c \<noteq> 226"
  shows "copied c cs"
proof -
  from not_separator [OF assms(4)] show ?thesis using assms by (simp add: copied_def numeral_3_eq_3)
qed

lemma compact_u_escape: "compact_text True (u_escape r @ t) = u_escape r @ compact_text True t"
proof -
  have "copied (hex_digit (n mod 16)) s" for n s
    using hex_digit_plain [of "n mod 16"] by (intro copied_byte) auto
  then show ?thesis by (simp add: u_escape_def compact_copied compact_bslash)
qed

lemma compact_escape_ascii:
  assumes "byte c < 128"
  shows "compact_text True (escape_ascii c @ t) = escape_ascii c @ compact_text True t"
proof -
  have "copied c t" if "c \<noteq> bslash" "c \<noteq> dquote" "c \<notin> set ''<>&''"
    using that assms by (intro copied_byte) auto
  then show ?thesis
    using compact_u_escape by (auto simp: escape_ascii_def compact_copied compact_bslash)
qed

lemma compact_high:
  assumes "\<forall>c \<in> set xs. 128 \<le> byte c \<and> byte c \<noteq> 226"
  shows "compact_text True (xs @ t) = xs @ compact_text True t"
  using assms
proof (induction xs)
  case (Cons c xs)
  have "c \<noteq> bslash" "c \<noteq> dquote" "c \<notin> set ''<>&''" "byte c \<noteq> 226"
    using Cons.prems by (auto simp: bslash_def dquote_def)
  then show ?case using compact_copied [OF copied_byte] Cons by simp
qed simp

lemma cont_wide:
  "cont 128 159 b \<Longrightarrow> cont 128 191 b" "cont 160 191 b \<Longrightarrow> cont 128 191 b"
  "cont 144 191 b \<Longrightarrow> cont 128 191 b" "cont 128 143 b \<Longrightarrow> cont 128 191 b"
  by (simp_all add: cont_def)

lemma rune_bytes:
  assumes "s = c # cs" and "\<not> byte c < 128" and "0 < rune_len s"
  shows "list_all (cont 128 191) (take (rune_len s - 1) cs)" and "byte c = 226 \<Longrightarrow> rune_len s = 3"
proof -
  note r = rune_len.simps(2) [of c cs]
  consider "194 \<le> byte c" "byte c \<le> 223" | "224 \<le> byte c" "byte c \<le> 239" | "240 \<le> byte c" "byte c \<le> 244"
    using assms r by (auto split: if_splits)
  then have "list_all (cont 128 191) (take (rune_len s - 1) cs) \<and> (byte c = 226 \<longrightarrow> rune_len s = 3)"
  proof cases
    case 1
    then show ?thesis using assms r by (cases cs) (auto split: if_splits)
  next
    case 2
    then show ?thesis
      using assms r by (cases cs rule: list_cases4) (auto split: if_splits dest: cont_wide)
  next
    case 3
    then show ?thesis
      using assms r by (cases cs rule: list_cases4; cases "tl (tl cs)")
        (auto split: if_splits dest: cont_wide simp: numeral_3_eq_3)
  qed
  then show "list_all (cont 128 191) (take (rune_len s - 1) cs)" "byte c = 226 \<Longrightarrow> rune_len s = 3" by auto
qed

lemma compact_rune:
  assumes "s = c # cs" and "\<not> byte c < 128" and "0 < rune_len s"
    and "take 3 s \<noteq> utf8_encode 8232" and "take 3 s \<noteq> utf8_encode 8233"
  shows "compact_text True (take (rune_len s) s @ t) = take (rune_len s) s @ compact_text True t"
proof -
  let ?xs = "take (rune_len s - 1) cs"
  have tk: "take (rune_len s) s = c # ?xs" using assms(1,3) by (cases "rune_len s") auto
  have rest: "compact_text True (?xs @ t) = ?xs @ compact_text True t"
    using rune_bytes(1) [OF assms(1-3)] by (intro compact_high) (auto simp: list_all_iff cont_def)
  have p: "c \<noteq> bslash" "c \<noteq> dquote" "c \<notin> set ''<>&''" using assms(2) by (auto simp: bslash_def dquote_def)
  have "copied c (?xs @ t)"
  proof (cases "byte c = 226")
    case True
    have l: "rune_len s = 3" by (rule rune_bytes(2) [OF assms(1-3) True])
    then have "take 3 (c # ?xs @ t) = take 3 s"
      using tk rune_len_le [of s] assms(1) by (simp add: numeral_3_eq_3)
    then show ?thesis using p assms(4,5) by (simp add: copied_def)
  next
    case False
    then show ?thesis by (intro copied_byte p)
  qed
  then show ?thesis using rest unfolding tk by (simp add: compact_copied)
qed

lemma compact_escape:
  assumes "valid_utf8 s"
  shows "compact_text True (escape s @ t) = escape s @ compact_text True t"
  using assms
proof (induction s rule: escape.induct)
  case (1 s)
  show ?case
  proof (cases s)
    case Nil
    then show ?thesis by (simp add: escape.simps)
  next
    case (Cons c cs)
    have v: "0 < rune_len s" "valid_utf8 (drop (rune_len s) s)"
      using valid_utf8_drop "1.prems"(1) Cons by blast+
    consider "byte c < 128" | "\<not> byte c < 128" "take 3 s = utf8_encode 8232"
      | "\<not> byte c < 128" "take 3 s \<noteq> utf8_encode 8232" "take 3 s = utf8_encode 8233"
      | "\<not> byte c < 128" "take 3 s \<noteq> utf8_encode 8232" "take 3 s \<noteq> utf8_encode 8233" by blast
    then show ?thesis
    proof cases
      case 1
      then show ?thesis
        using "1.IH"(1) [OF Cons] v Cons compact_escape_ascii by (simp add: escape.simps [of "c # cs"])
    next
      case 2
      then show ?thesis
        using "1.IH"(3) [OF Cons] v rune_len_separators Cons compact_u_escape by (simp add: escape.simps [of "c # cs"])
    next
      case 3
      then show ?thesis
        using "1.IH"(4) [OF Cons] v rune_len_separators Cons compact_u_escape by (simp add: escape.simps [of "c # cs"])
    next
      case 4
      then show ?thesis
        using "1.IH"(5) [OF Cons] v Cons compact_rune [OF Cons 4(1) v(1) 4(2,3)] by (simp add: escape.simps [of "c # cs"])
    qed
  qed
qed

definition compact_at :: "string \<Rightarrow> bool" where
  "compact_at s \<longleftrightarrow> (\<forall>t. compact_text False (s @ t) = s @ compact_text False t)"

lemma compact_quote: "valid_utf8 s \<Longrightarrow> compact_at (quote s)"
  using compact_escape [of s] 
  by (simp add: compact_at_def quote_def compact_dquote) (simp add: is_ws_def dquote_def)

lemma compact_plain: "\<forall>c \<in> set s. \<not> is_ws c \<and> c \<noteq> dquote \<Longrightarrow> compact_at s"
  by (induction s) (simp_all add: compact_at_def)

lemma compact_append: "compact_at s \<Longrightarrow> compact_at t \<Longrightarrow> compact_at (s @ t)"
  by (simp add: compact_at_def)

lemma compact_join:
  assumes "\<forall>s \<in> set ss. compact_at s"
  shows "compact_at (join '','' ss)"
  using assms
proof (induction ss rule: induct_list012)
  case (3 x y xs)
  have "compact_at '',''" by (rule compact_plain) (simp add: is_ws_def dquote_def)
  then have "compact_at (x @ '','' @ join '','' (y # xs))" using 3 by (intro compact_append) auto
  then show ?case by simp
qed (simp_all add: compact_at_def)

lemma compact_print: "good_json v \<Longrightarrow> compact_at (print_json v)"
proof (induction v)
  case (JNum l)
  then obtain i where "l = fmt_d i" by auto
  moreover have "\<not> is_ws c \<and> c \<noteq> dquote" if "c \<in> set (fmt_d i)" for c
    using fmt_d_chars [OF that] by (auto simp: is_digit_def is_ws_def dquote_def)
  ultimately show ?case by (auto intro: compact_plain)
next
  case (JStr s)
  then show ?case by (simp add: compact_quote)
next
  case (JArr vs)
  have "compact_at (join '','' (map print_json vs))" using JArr by (auto intro!: compact_join)
  moreover have "compact_at ''[''" "compact_at '']''" by (rule compact_plain, simp add: is_ws_def dquote_def)+
  ultimately have "compact_at (''['' @ join '','' (map print_json vs) @ '']'')" by (intro compact_append)
  then show ?case by simp
next
  case (JObj ms)
  have colon: "compact_at '':''" and br: "compact_at ''{''" "compact_at ''}''"
    by (rule compact_plain, simp add: is_ws_def dquote_def)+
  have "compact_at (quote k @ CHR '':'' # print_json v)" if "(k, v) \<in> set ms" for k v
  proof -
    have "compact_at (print_json v)" using JObj that by (fastforce simp: snds.simps)
    moreover have "compact_at (quote k)" using JObj.prems that by (auto intro: compact_quote)
    ultimately have "compact_at (quote k @ '':'' @ print_json v)" using colon by (intro compact_append)
    then show ?thesis by simp
  qed
  then have "compact_at (join '','' (map (\<lambda>(k, v). quote k @ CHR '':'' # print_json v) ms))"
    by (intro compact_join) auto
  then have "compact_at (''{'' @ join '','' (map (\<lambda>(k, v). quote k @ CHR '':'' # print_json v) ms) @ ''}'')"
    using br by (intro compact_append)
  then show ?case by simp
qed (auto intro!: compact_plain simp: is_ws_def dquote_def)

lemma raw_text_print: "good_json v \<Longrightarrow> raw_text (Some (print_json v)) = Some (print_json v)"
proof -
  assume g: "good_json v"
  have "compact_text False (print_json v @ []) = print_json v @ compact_text False []"
    using compact_print [OF g] unfolding compact_at_def by blast
  then show ?thesis using json_parse_print [OF g] by (simp add: raw_text_def)
qed


section \<open>Cached values\<close>

lemma raw_elems_print:
  assumes "vs \<noteq> []" and "\<forall>v \<in> set vs. good_json v" and "length vs \<le> f"
  shows "raw_elems f (elems_text vs @ CHR '']'' # rest) = Some (map print_json vs)"
  using assms
proof (induction vs arbitrary: f)
  case (Cons v vs)
  note prems = Cons.prems and IH = Cons.IH
  obtain g where f: "f = Suc g" using prems(3) by (cases f) auto
  have v: "good_json v" using prems(2) by auto
  obtain c cs where c: "elems_text (v # vs) = c # cs" "c \<noteq> CHR '']''"
      "\<And>t. skip_ws (elems_text (v # vs) @ t) = elems_text (v # vs) @ t"
    using elems_text_Cons [of "v # vs"] prems(2) by (metis list.distinct(1) list.inject)
  have step: "raw_elems f (elems_text (v # vs) @ t) =
      (case raw_value (elems_text (v # vs) @ t) of
         None \<Rightarrow> None
       | Some (v, raw, w) \<Rightarrow>
           (case skip_ws w of
              [] \<Rightarrow> None
            | e # es \<Rightarrow> if e = CHR '','' then map_option ((#) raw) (raw_elems g es) else Some [raw]))" for t
    unfolding f raw_elems.simps c(3) using c(1,2) by (simp del: raw_elems.simps)
  show ?case
  proof (cases vs)
    case Nil
    have "raw_value (print_json v @ CHR '']'' # rest) = Some (v, print_json v, CHR '']'' # rest)"
      by (rule raw_value_print [OF v]) (simp add: stop_def)
    then show ?thesis unfolding step by (simp add: Nil elems_text_def)
  next
    case (Cons v' vs')
    let ?more = "CHR '','' # elems_text vs @ CHR '']'' # rest"
    have et: "elems_text (v # vs) @ CHR '']'' # rest = print_json v @ ?more"
      by (simp add: elems_text_def Cons)
    have "raw_value (print_json v @ ?more) = Some (v, print_json v, ?more)"
      by (rule raw_value_print [OF v]) (simp add: stop_def)
    moreover have "raw_elems g (elems_text vs @ CHR '']'' # rest) = Some (map print_json vs)"
      using IH [of g] prems Cons f by simp
    ultimately show ?thesis unfolding step unfolding et by (simp del: raw_elems.simps)
  qed
qed simp

lemma escape_plain:
  assumes "\<forall>c \<in> set s. 32 \<le> byte c \<and> byte c < 128 \<and> c \<noteq> dquote \<and> c \<noteq> bslash \<and> c \<notin> set ''<>&''"
  shows "escape s = s"
  using assms
proof (induction s)
  case (Cons c cs)
  then have "escape_ascii c = [c]" by (auto simp: escape_ascii_def)
  then show ?case using Cons by (subst escape.simps) simp
qed (simp add: escape.simps)

lemma fmt_nano_chars: "c \<in> set (fmt_nano n) \<Longrightarrow> is_digit c \<or> c = CHR ''.''"
  using set_dropWhileD [of c "\<lambda>c. c = CHR ''0''" "rev (pad 9 n)"] pad_digits by (auto simp: fmt_nano_def split: if_splits)

lemma nano_chars: "c \<in> set (format_RFC3339Nano t) \<Longrightarrow> is_digit c \<or> c \<in> set ''-T:+Z.''"
  using fmt_nano_chars [of c "ns_of t"]
  by (auto simp: format_RFC3339Nano_def fmt_datetime_def fmt_zone_def fmt_year_def Let_def
      split: prod.splits if_splits dest: pad_digits)

text \<open>
  An event as the database returns it: the metadata is a document, the type is valid UTF-8 and the
  time has a year of four digits.
\<close>

definition readable :: "Event \<Rightarrow> bool" where
  "readable e \<longleftrightarrow> (\<exists>m. good_json m \<and> ev_Metadata e = Some (print_json m)) \<and> valid_utf8 (Type e) \<and>
     four_digit_year (ev_Timestamp e div 1000000000)"

definition event_json :: "Event \<Rightarrow> json \<Rightarrow> json" where
  "event_json e m = JObj
     [(''id'', enc_int64 (ID e)), (''user_id'', enc_int64 (ev_UserID e)), (''type_id'', enc_int64 (TypeID e)),
      (''timestamp'', JStr (format_RFC3339Nano \<lparr>wall = ev_Timestamp e, zone = 0\<rparr>)),
      (''metadata'', m), (''type'', JStr (Type e))]"

lemma quote_time: "quote (format_RFC3339Nano t) = dquote # format_RFC3339Nano t @ [dquote]"
  and utf8_time: "valid_utf8 (format_RFC3339Nano t)"
proof -
  have p: "32 \<le> byte c \<and> byte c < 128 \<and> c \<noteq> dquote \<and> c \<noteq> bslash \<and> c \<notin> set ''<>&''"
    if "c \<in> set (format_RFC3339Nano t)" for c
    using nano_chars [OF that] by (auto simp: is_digit_def dquote_def bslash_def)
  show "quote (format_RFC3339Nano t) = dquote # format_RFC3339Nano t @ [dquote]"
    using p by (simp add: quote_def escape_plain)
  show "valid_utf8 (format_RFC3339Nano t)" using p by (auto intro: valid_utf8_ascii)
qed

lemma good_enc_int64 [simp]: "good_json (enc_int64 w)"
  by (auto simp: enc_int64_def)

lemma good_event: "good_json m \<Longrightarrow> valid_utf8 (Type e) \<Longrightarrow> good_json (event_json e m)"
  using utf8_time by (simp add: event_json_def)

lemma event_text_print:
  assumes "good_json m" and "ev_Metadata e = Some (print_json m)" and "four_digit_year (ev_Timestamp e div 1000000000)"
  shows "event_text 0 e = Some (print_json (event_json e m))"
  using assms raw_text_print [OF assms(1)] quote_time
  by (simp add: event_text_def time_text_def seconds_def event_json_def obj_text_def enc_int64_def)

lemma set_event_fields:
  "set_event e (''id'', v, raw) = map_option (\<lambda>x. e\<lparr>ID := x\<rparr>) (dec_int64 v (ID e))"
  "set_event e (''user_id'', v, raw) = map_option (\<lambda>x. e\<lparr>ev_UserID := x\<rparr>) (dec_int64 v (ev_UserID e))"
  "set_event e (''type_id'', v, raw) = map_option (\<lambda>x. e\<lparr>TypeID := x\<rparr>) (dec_int64 v (TypeID e))"
  "set_event e (''timestamp'', v, raw) = map_option (\<lambda>x. e\<lparr>ev_Timestamp := x\<rparr>) (dec_time raw (ev_Timestamp e))"
  "set_event e (''metadata'', v, raw) = Some (e\<lparr>ev_Metadata := Some raw\<rparr>)"
  "set_event e (''type'', v, raw) = map_option (\<lambda>x. e\<lparr>Type := x\<rparr>) (dec_string v (Type e))"
  unfolding set_event_def Let_def prod.case lower_names by simp_all

lemma dec_time_quote:
  assumes "four_digit_year (w div 1000000000)"
  shows "dec_time (quote (format_RFC3339Nano \<lparr>wall = w, zone = 0\<rparr>)) old = Some w"
  using parse_strict_format [OF assms] unfolding quote_time dec_time_def by (simp add: dquote_def)

lemma dec_event_print:
  assumes "good_json m" and "ev_Metadata e = Some (print_json m)" and "valid_utf8 (Type e)"
    and "four_digit_year (ev_Timestamp e div 1000000000)"
  shows "dec_event (print_json (event_json e m)) = Some e"
proof -
  note g = good_event [of m e, OF assms(1,3)]
  have "raw_value (print_json (event_json e m)) = Some (event_json e m, print_json (event_json e m), [])"
    using raw_value_print [OF g, of "[]"] by (simp add: stop_def)
  then have "dec_event (print_json (event_json e m)) =
      Option.bind (struct_members (event_json e m) (print_json (event_json e m))) (fill set_event zero_Event)"
    by (simp add: dec_event_def)
  also have "\<dots> = Some e"
    unfolding event_json_def struct_members_print [OF g [unfolded event_json_def]]
    using assms(2) dec_time_quote [OF assms(4)]
    by (cases e) (simp add: with_text_def set_event_fields dec_string_def zero_Event_def)
  finally show ?thesis .
qed

definition page_json :: "PaginatedEvents \<Rightarrow> json list \<Rightarrow> json" where
  "page_json p es = JObj
     [(''data'', if es = [] then JNull else JArr es), (''page'', JNum (fmt_nat (unat (Page p)))),
      (''limit'', JNum (fmt_nat (unat (Limit p)))), (''total'', JNum (fmt_nat (unat (Total p))))]"

lemma set_page_fields:
  "set_page p (''data'', v, raw) = map_option (\<lambda>x. p\<lparr>Data := x\<rparr>) (dec_events v raw)"
  "set_page p (''page'', v, raw) = map_option (\<lambda>x. p\<lparr>Page := x\<rparr>) (dec_uint v (Page p))"
  "set_page p (''limit'', v, raw) = map_option (\<lambda>x. p\<lparr>Limit := x\<rparr>) (dec_uint v (Limit p))"
  "set_page p (''total'', v, raw) = map_option (\<lambda>x. p\<lparr>Total := x\<rparr>) (dec_uint v (Total p))"
  unfolding set_page_def Let_def prod.case lower_names by simp_all

lemma dec_uint_fmt: "dec_uint (JNum (fmt_nat (unat w))) old = Some w"
proof -
  have "unat w < 2 ^ LENGTH(64)" by (rule unsigned_less)
  then show ?thesis using fmt_nat_digits [of "unat w"] by (simp add: dec_uint_def parse_digits_def)
qed

lemma those_map_fun: "(\<And>x. x \<in> set xs \<Longrightarrow> f x = Some (g x)) \<Longrightarrow> those (map f xs) = Some (map g xs)"
  by (induction xs) auto

lemma elems_text_length: "\<forall>v \<in> set vs. good_json v \<Longrightarrow> length vs \<le> length (elems_text vs)"
proof (induction vs)
  case (Cons v vs)
  obtain c cs where "print_json v = c # cs" using first_char [of v] Cons.prems by auto
  then show ?case using Cons by (cases vs) (auto simp: elems_text_def)
qed simp

lemma page_roundtrip_law:
  assumes "\<forall>e \<in> set (Data p). readable e"
  shows "\<exists>t. page_text p = Some t \<and> unmarshal_page t = Some p"
proof -
  obtain md where md: "\<And>e. e \<in> set (Data p) \<Longrightarrow> good_json (md e) \<and> ev_Metadata e = Some (print_json (md e))"
    using assms unfolding readable_def by metis
  define es where "es = map (\<lambda>e. event_json e (md e)) (Data p)"
  have good: "\<forall>v \<in> set es. good_json v"
    using assms md good_event by (auto simp: es_def readable_def)
  have texts: "those (map (event_text 0) (Data p)) = Some (map print_json es)"
    using assms md by (auto simp: es_def readable_def o_def intro!: those_map_fun event_text_print)
  have read: "those (map dec_event (map print_json es)) = Some (Data p)"
  proof -
    have "those (map (\<lambda>e. dec_event (print_json (event_json e (md e)))) (Data p)) = Some (map id (Data p))"
      using assms md by (intro those_map_fun) (simp add: readable_def dec_event_print)
    then show ?thesis by (simp add: es_def o_def)
  qed
  have num: "\<exists>i. fmt_nat n = fmt_d i" for n by (rule exI [of _ "int n"]) (simp add: fmt_d_def)
  have g: "good_json (page_json p es)" using good num by (simp add: page_json_def)
  have "page_text p = Some (print_json (page_json p es))"
    using texts by (simp add: page_text_def page_json_def obj_text_def arr_text_def)
  moreover have "dec_events (if es = [] then JNull else JArr es) (print_json (if es = [] then JNull else JArr es)) = Some (Data p)"
  proof (cases "es = []")
    case True
    then show ?thesis by (simp add: dec_events_def es_def)
  next
    case False
    note len = elems_text_length [OF good]
    have "raw_elems (Suc (length (print_json (JArr es)))) (tl (print_json (JArr es))) = Some (map print_json es)"
      using raw_elems_print [OF False good, of "Suc (length (print_json (JArr es)))" "[]"] len
      by (simp add: elems_text_def del: raw_elems.simps)
    then show ?thesis using False read by (simp add: dec_events_def)
  qed
  then have "unmarshal_page (print_json (page_json p es)) = Some p"
    unfolding unmarshal_page_def page_json_def unmarshal_print [OF g [unfolded page_json_def]]
    by (cases p) (simp add: with_text_def set_page_fields dec_uint_fmt del: print_json.simps)
  ultimately show ?thesis by blast
qed


definition int64_range :: "int \<Rightarrow> bool" where
  "int64_range i \<longleftrightarrow> - (2 ^ 63) \<le> i \<and> i < 2 ^ 63"

definition stats_json :: "Stats \<Rightarrow> json \<Rightarrow> json" where
  "stats_json st v = JObj
     [(''total_events'', JNum (fmt_d (TotalEvents st))), (''unique_users'', JNum (fmt_d (UniqueUsers st))),
      (''top_pages'', v)]"

lemma set_stats_fields:
  "set_stats st (''total_events'', v, raw) = map_option (\<lambda>x. st\<lparr>TotalEvents := x\<rparr>) (dec_int v (TotalEvents st))"
  "set_stats st (''unique_users'', v, raw) = map_option (\<lambda>x. st\<lparr>UniqueUsers := x\<rparr>) (dec_int v (UniqueUsers st))"
  "set_stats st (''top_pages'', v, raw) = Some (st\<lparr>TopPages := raw\<rparr>)"
  unfolding set_stats_def Let_def prod.case lower_names by simp_all

lemma stats_roundtrip_law:
  assumes "int64_range (TotalEvents st)" and "int64_range (UniqueUsers st)" and "good_json v" and "TopPages st = print_json v"
  shows "\<exists>t. stats_text st = Some t \<and> unmarshal_stats t = Some st"
proof -
  have g: "good_json (stats_json st v)" using assms(3) by (auto simp: stats_json_def)
  have "stats_text st = Some (print_json (stats_json st v))"
    using raw_text_print [OF assms(3)] assms(4) by (simp add: stats_text_def stats_json_def obj_text_def)
  moreover have "unmarshal_stats (print_json (stats_json st v)) = Some st"
    unfolding unmarshal_stats_def stats_json_def unmarshal_print [OF g [unfolded stats_json_def]]
    using assms(1,2,4) by (cases st) (simp add: with_text_def set_stats_fields dec_int_def ParseInt64_fmt_d int64_range_def)
  ultimately show ?thesis by blast
qed


definition demo_page :: PaginatedEvents where
  "demo_page =
     \<lparr>Data = [\<lparr>ID = 7, ev_UserID = 1, TypeID = 2, ev_Timestamp = 1500000000, ev_Metadata = Some (print_json (JObj [])),
               Type = ''click''\<rparr>], Page = 1, Limit = 20, Total = 1\<rparr>"

definition demo_stats :: Stats where
  "demo_stats = \<lparr>TotalEvents = 3, UniqueUsers = 2, TopPages = print_json (JObj [])\<rparr>"


end
