(* ===== verification/Cache.thy ===== *)
theory Cache
  imports Codec "HOL-Library.Sublist"
begin

text \<open>
  The cache of \<open>src/internal/cache/cache.go\<close>. The Redis client (go-redis and the server
  behind it) is a parameter: a record of the commands the code issues, over an abstract type of
  server states. What the code relies on is the predicate \<open>redis_ok\<close>, which states the
  documented behaviour of the commands; keys may expire at any command.
\<close>


section \<open>The client\<close>

record ('r, 'it) redis =
  Ping :: "'r \<Rightarrow> go_error option"
  r_Get :: "string \<Rightarrow> 'r \<Rightarrow> (go_error + string) \<times> 'r"
  r_Set :: "string \<Rightarrow> string \<Rightarrow> int \<Rightarrow> 'r \<Rightarrow> go_error option \<times> 'r"
  r_Del :: "string list \<Rightarrow> 'r \<Rightarrow> go_error option \<times> 'r"
  Scan :: "string \<Rightarrow> nat \<Rightarrow> 'r \<Rightarrow> 'it \<times> 'r"
  iter_Next :: "'it \<Rightarrow> 'r \<Rightarrow> string option \<times> 'it \<times> 'r"
  iter_Err :: "'it \<Rightarrow> go_error option"
  r_Close :: "'r \<Rightarrow> go_error option"

text \<open>The error of a command on a key that does not exist.\<close>

definition redis_Nil :: go_error where "redis_Nil = New ''redis: nil''"


section \<open>The cache\<close>

text \<open>Times to live, in nanoseconds.\<close>

definition TTLEvents :: int where "TTLEvents = 10 * 60 * 1000000000"
definition TTLStats :: int where "TTLStats = 15 * 60 * 1000000000"
definition TTLEventTypeId :: int where "TTLEventTypeId = 30 * 60 * 1000000000"

definition keyPrefixEvents :: string where "keyPrefixEvents = ''events''"
definition keyPrefixStats :: string where "keyPrefixStats = ''stats''"
definition keyPrefixEventTypeId :: string where "keyPrefixEventTypeId = ''event_type_id''"

record CacheStats =
  hits :: int
  misses :: int
  cache_errors :: int

record 'r Cache = CacheStats +
  client :: "'r option"

definition NewCache :: "'r option \<Rightarrow> 'r Cache" where
  "NewCache c = \<lparr>hits = 0, misses = 0, cache_errors = 0, client = c\<rparr>"

text \<open>\<open>dial\<close> is \<open>redis.NewClient\<close> for an address and a pool size.\<close>

definition NewFromURL :: "('r, 'it) redis \<Rightarrow> (string \<Rightarrow> int \<Rightarrow> 'r) \<Rightarrow> string \<Rightarrow> int \<Rightarrow> 'r Cache" where
  "NewFromURL rd dial url poolSize =
     (let r = dial url poolSize in
      case Ping rd r of
        Some e \<Rightarrow> NewCache None
      | None \<Rightarrow> NewCache (Some r))"

definition Close_cache :: "('r, 'it) redis \<Rightarrow> 'r Cache \<Rightarrow> go_error option" where
  "Close_cache rd c = (case client c of None \<Rightarrow> None | Some r \<Rightarrow> r_Close rd r)"

definition hit :: "'r Cache \<Rightarrow> 'r Cache" where "hit c = c\<lparr>hits := hits c + 1\<rparr>"
definition miss :: "'r Cache \<Rightarrow> 'r Cache" where "miss c = c\<lparr>misses := misses c + 1\<rparr>"
definition fail :: "'r Cache \<Rightarrow> 'r Cache" where "fail c = c\<lparr>cache_errors := cache_errors c + 1\<rparr>"

text \<open>
  \<open>Get\<close> with \<open>dec\<close> the decoder for the type of the destination; \<open>None\<close> is the
  result \<open>false\<close>. A value that does not decode is deleted.
\<close>

definition Get_cache :: "('r, 'it) redis \<Rightarrow> (string \<Rightarrow> 'a option) \<Rightarrow> string \<Rightarrow> 'r Cache \<Rightarrow> 'a option \<times> 'r Cache" where
  "Get_cache rd dec key c =
     (case client c of
        None \<Rightarrow> (None, miss c)
      | Some r \<Rightarrow>
          (case r_Get rd key r of
             (Inl e, r1) \<Rightarrow> (None, (if e = redis_Nil then miss c else fail c)\<lparr>client := Some r1\<rparr>)
           | (Inr data, r1) \<Rightarrow>
               (case dec data of
                  None \<Rightarrow> (None, (fail c)\<lparr>client := Some (snd (r_Del rd [key] r1))\<rparr>)
                | Some v \<Rightarrow> (Some v, (hit c)\<lparr>client := Some r1\<rparr>))))"

definition GetBytes :: "('r, 'it) redis \<Rightarrow> string \<Rightarrow> 'r Cache \<Rightarrow> string option \<times> 'r Cache" where
  "GetBytes rd key c =
     (case client c of
        None \<Rightarrow> (None, miss c)
      | Some r \<Rightarrow>
          (case r_Get rd key r of
             (Inl e, r1) \<Rightarrow> (None, (if e = redis_Nil then miss c else fail c)\<lparr>client := Some r1\<rparr>)
           | (Inr data, r1) \<Rightarrow> (Some data, (hit c)\<lparr>client := Some r1\<rparr>)))"

text \<open>\<open>Set\<close> of a value whose JSON text is given; \<open>None\<close>: it cannot be marshalled.\<close>

definition Set_cache :: "('r, 'it) redis \<Rightarrow> string \<Rightarrow> string option \<Rightarrow> int \<Rightarrow> 'r Cache \<Rightarrow> 'r Cache" where
  "Set_cache rd key value ttl c =
     (case client c of
        None \<Rightarrow> c
      | Some r \<Rightarrow>
          (case value of
             None \<Rightarrow> c
           | Some data \<Rightarrow>
               (case r_Set rd key data ttl r of
                  (None, r1) \<Rightarrow> c\<lparr>client := Some r1\<rparr>
                | (Some e, r1) \<Rightarrow> (fail c)\<lparr>client := Some r1\<rparr>)))"

definition Delete_cache :: "('r, 'it) redis \<Rightarrow> string \<Rightarrow> 'r Cache \<Rightarrow> 'r Cache" where
  "Delete_cache rd key c =
     (case client c of
        None \<Rightarrow> c
      | Some r \<Rightarrow>
          (case r_Del rd [key] r of
             (None, r1) \<Rightarrow> c\<lparr>client := Some r1\<rparr>
           | (Some e, r1) \<Rightarrow> (fail c)\<lparr>client := Some r1\<rparr>))"

text \<open>A batch of deletions and its error count.\<close>

definition del_batch :: "('r, 'it) redis \<Rightarrow> string list \<Rightarrow> int \<Rightarrow> 'r \<Rightarrow> int \<times> 'r" where
  "del_batch rd ks n r = (case r_Del rd ks r of (e, r1) \<Rightarrow> (if e = None then n else n + 1, r1))"

text \<open>
  The loop of \<open>DeleteByPattern\<close> over the iterator: the keys collected so far, the errors
  counted so far. \<open>None\<close>: the iteration does not end.
\<close>

partial_function (option) del_loop ::
  "('r, 'it) redis \<Rightarrow> 'it \<Rightarrow> string list \<Rightarrow> int \<Rightarrow> 'r \<Rightarrow> ('it \<times> string list \<times> int \<times> 'r) option" where
  "del_loop rd it ks n r =
     (case iter_Next rd it r of
        (None, it1, r1) \<Rightarrow> Some (it1, ks, n, r1)
      | (Some k, it1, r1) \<Rightarrow>
          if 100 \<le> length (ks @ [k])
          then (case del_batch rd (ks @ [k]) n r1 of (n1, r2) \<Rightarrow> del_loop rd it1 [] n1 r2)
          else del_loop rd it1 (ks @ [k]) n r1)"

definition DeleteByPattern :: "('r, 'it) redis \<Rightarrow> string \<Rightarrow> 'r Cache \<Rightarrow> 'r Cache option" where
  "DeleteByPattern rd pattern c =
     (case client c of
        None \<Rightarrow> Some c
      | Some r \<Rightarrow>
          (case Scan rd pattern 100 r of (it, r1) \<Rightarrow>
             (case del_loop rd it [] (cache_errors c) r1 of
                None \<Rightarrow> None
              | Some (it1, ks, n, r2) \<Rightarrow>
                  (case (if ks \<noteq> [] then del_batch rd ks n r2 else (n, r2)) of (n1, r3) \<Rightarrow>
                     Some (c\<lparr>client := Some r3,
                             cache_errors := if iter_Err rd it1 = None then n1 else n1 + 1\<rparr>)))))"

definition InvalidateEvents :: "('r, 'it) redis \<Rightarrow> 'r Cache \<Rightarrow> 'r Cache option" where
  "InvalidateEvents rd c = DeleteByPattern rd (keyPrefixEvents @ '':*'') c"

definition InvalidateStats :: "('r, 'it) redis \<Rightarrow> 'r Cache \<Rightarrow> 'r Cache option" where
  "InvalidateStats rd c = DeleteByPattern rd (keyPrefixStats @ '':*'') c"


section \<open>Keys\<close>

definition EventsKey :: "uint \<Rightarrow> uint \<Rightarrow> int64 option \<Rightarrow> string" where
  "EventsKey page limit userID =
     keyPrefixEvents @ '':page:'' @ fmt_nat (unat page) @ '':limit:'' @ fmt_nat (unat limit) @ '':user:'' @
     (case userID of None \<Rightarrow> ''all'' | Some u \<Rightarrow> fmt_d (sint u))"

definition StatsKey :: "go_time option \<Rightarrow> go_time option \<Rightarrow> int64 option \<Rightarrow> string" where
  "StatsKey from to typeID =
     (let str = (\<lambda>t. case t of None \<Rightarrow> ''nil'' | Some t \<Rightarrow> format_RFC3339 t) in
      keyPrefixStats @ '':from:'' @ str from @ '':to:'' @ str to @ '':type:'' @
      (case typeID of None \<Rightarrow> ''nil'' | Some i \<Rightarrow> fmt_d (sint i)))"

definition EventTypeIdKey :: "string \<Rightarrow> string" where
  "EventTypeIdKey name = keyPrefixEventTypeId @ '':'' @ name"



section \<open>Keys do not collide\<close>

lemma split_unique:
  assumes "xs @ c # r = ys @ c # r'" and "c \<notin> set xs" and "c \<notin> set ys"
  shows "xs = ys \<and> r = r'"
  using assms
proof (induction xs arbitrary: ys)
  case Nil
  then show ?case by (cases ys) auto
next
  case (Cons x xs)
  then show ?case by (cases ys) auto
qed

lemma digits_no: "\<not> is_digit c \<Longrightarrow> c \<notin> set (fmt_nat n)"
  using fmt_nat_digits [of n] by (auto simp: list_all_iff)

lemma format_chars: "c \<in> set (format_RFC3339 t) \<Longrightarrow> is_digit c \<or> c \<in> set ''-T:+Z''"
  by (auto simp: format_RFC3339_def fmt_datetime_def fmt_year_def fmt_zone_def Let_def
      dest: pad_digits split: prod.splits if_splits)

lemma fmt_nat_append_inject:
  assumes "fmt_nat m @ CHR '':'' # r = fmt_nat n @ CHR '':'' # r'"
  shows "m = n \<and> r = r'"
  using split_unique [OF assms] digits_no [of "CHR '':''"] by (simp add: is_digit_def)

lemma user_part_inject:
  "(case u of None \<Rightarrow> ''all'' | Some i \<Rightarrow> fmt_d (sint i)) = (case u' of None \<Rightarrow> ''all'' | Some i \<Rightarrow> fmt_d (sint (i :: int64)))
   \<longleftrightarrow> u = u'"
proof -
  have "fmt_d i \<noteq> ''all''" "''all'' \<noteq> fmt_d i" for i
    using fmt_d_chars [of "CHR ''a''" i] by (auto simp: is_digit_def dest: sym)
  then show ?thesis by (auto split: option.splits intro: signed_word_eqI)
qed

lemma EventsKey_inject:
  "EventsKey p l u = EventsKey p' l' u' \<longleftrightarrow> p = p' \<and> l = l' \<and> u = u'"
proof
  assume "EventsKey p l u = EventsKey p' l' u'"
  then have 1: "fmt_nat (unat p) @ CHR '':'' # (''limit:'' @ fmt_nat (unat l) @ '':user:'' @
        (case u of None \<Rightarrow> ''all'' | Some u \<Rightarrow> fmt_d (sint u))) =
      fmt_nat (unat p') @ CHR '':'' # (''limit:'' @ fmt_nat (unat l') @ '':user:'' @
        (case u' of None \<Rightarrow> ''all'' | Some u \<Rightarrow> fmt_d (sint u)))"
    by (simp add: EventsKey_def)
  note p = fmt_nat_append_inject [OF 1]
  then have 2: "fmt_nat (unat l) @ CHR '':'' # (''user:'' @ (case u of None \<Rightarrow> ''all'' | Some u \<Rightarrow> fmt_d (sint u))) =
      fmt_nat (unat l') @ CHR '':'' # (''user:'' @ (case u' of None \<Rightarrow> ''all'' | Some u \<Rightarrow> fmt_d (sint u)))"
    by simp
  note l = fmt_nat_append_inject [OF 2]
  then show "p = p' \<and> l = l' \<and> u = u'" using p user_part_inject [of u u'] by (simp add: word_unat_eq_iff)
qed simp

definition time_part :: "go_time option \<Rightarrow> string" where
  "time_part t = (case t of None \<Rightarrow> ''nil'' | Some t \<Rightarrow> format_RFC3339 t)"

lemma time_part_no_t: "CHR ''t'' \<notin> set (time_part t)"
proof (cases t)
  case (Some a)
  then show ?thesis using format_chars [of "CHR ''t''" a] by (auto simp: time_part_def is_digit_def)
qed (simp add: time_part_def)

text \<open>Two filters of the statistics that the key does not tell apart.\<close>

definition same_second :: "go_time option \<Rightarrow> go_time option \<Rightarrow> bool" where
  "same_second t t' \<longleftrightarrow> map_option seconds t = map_option seconds t' \<and> map_option zone t = map_option zone t'"

definition opt_rfc :: "go_time option \<Rightarrow> bool" where
  "opt_rfc t \<longleftrightarrow> (case t of None \<Rightarrow> True | Some t \<Rightarrow> rfc_time t)"

lemma time_part_inject:
  assumes "opt_rfc t" and "opt_rfc t'"
  shows "time_part t = time_part t' \<longleftrightarrow> same_second t t'"
proof -
  have "format_RFC3339 a \<noteq> ''nil''" "''nil'' \<noteq> format_RFC3339 a" for a
    using format_chars [of "CHR ''n''" a] by (auto simp: is_digit_def dest: sym)
  then show ?thesis
    using assms format_RFC3339_inject
    by (auto simp: time_part_def same_second_def opt_rfc_def split: option.splits)
qed

lemma type_part_inject:
  "(case u of None \<Rightarrow> ''nil'' | Some i \<Rightarrow> fmt_d (sint i)) = (case u' of None \<Rightarrow> ''nil'' | Some i \<Rightarrow> fmt_d (sint (i :: int64)))
   \<longleftrightarrow> u = u'"
proof -
  have "fmt_d i \<noteq> ''nil''" "''nil'' \<noteq> fmt_d i" for i
    using fmt_d_chars [of "CHR ''n''" i] by (auto simp: is_digit_def dest: sym)
  then show ?thesis by (auto split: option.splits intro: signed_word_eqI)
qed

lemma StatsKey_inject:
  assumes "opt_rfc f" "opt_rfc t" "opt_rfc f'" "opt_rfc t'"
  shows "StatsKey f t i = StatsKey f' t' i' \<longleftrightarrow> same_second f f' \<and> same_second t t' \<and> i = i'"
proof -
  let ?ty = "\<lambda>u. case u of None \<Rightarrow> ''nil'' | Some i \<Rightarrow> fmt_d (sint (i :: int64))"
  have k: "StatsKey f t i = ''stats:from:'' @ (time_part f @ '':'') @ CHR ''t'' # (''o:'' @ (time_part t @ '':'') @ CHR ''t'' # (''ype:'' @ ?ty i))"
    for f t i by (simp add: StatsKey_def Let_def time_part_def keyPrefixStats_def)
  have nt: "CHR ''t'' \<notin> set (time_part x @ '':'')" for x using time_part_no_t [of x] by simp
  have "StatsKey f t i = StatsKey f' t' i' \<longleftrightarrow> time_part f = time_part f' \<and> time_part t = time_part t' \<and> ?ty i = ?ty i'"
  proof
    assume "StatsKey f t i = StatsKey f' t' i'"
    then have 1: "(time_part f @ '':'') @ CHR ''t'' # (''o:'' @ (time_part t @ '':'') @ CHR ''t'' # (''ype:'' @ ?ty i)) =
        (time_part f' @ '':'') @ CHR ''t'' # (''o:'' @ (time_part t' @ '':'') @ CHR ''t'' # (''ype:'' @ ?ty i'))"
      unfolding k by simp
    note f = split_unique [OF 1 nt nt]
    then have 2: "(time_part t @ '':'') @ CHR ''t'' # (''ype:'' @ ?ty i) = (time_part t' @ '':'') @ CHR ''t'' # (''ype:'' @ ?ty i')"
      by simp
    show "time_part f = time_part f' \<and> time_part t = time_part t' \<and> ?ty i = ?ty i'"
      using split_unique [OF 2 nt nt] f by simp
  qed (simp add: k)
  then show ?thesis using assms time_part_inject type_part_inject [of i i'] by simp
qed

lemma key_prefixes:
  "prefix ''events:'' (EventsKey p l u)" "prefix ''stats:'' (StatsKey f t i)"
  "\<not> prefix ''events:'' (StatsKey f t i)" "\<not> prefix ''stats:'' (EventsKey p l u)"
  "\<not> prefix ''events:'' (EventTypeIdKey n)" "\<not> prefix ''stats:'' (EventTypeIdKey n)"
  by (simp_all add: EventsKey_def StatsKey_def EventTypeIdKey_def Let_def keyPrefixEvents_def
      keyPrefixStats_def keyPrefixEventTypeId_def)

lemma EventTypeIdKey_inject [simp]: "EventTypeIdKey n = EventTypeIdKey n' \<longleftrightarrow> n = n'"
  by (simp add: EventTypeIdKey_def)

lemma keys_differ [simp]:
  "EventsKey p l u \<noteq> StatsKey f t i" "StatsKey f t i \<noteq> EventsKey p l u"
  "EventsKey p l u \<noteq> EventTypeIdKey n" "EventTypeIdKey n \<noteq> EventsKey p l u"
  "StatsKey f t i \<noteq> EventTypeIdKey n" "EventTypeIdKey n \<noteq> StatsKey f t i"
  using key_prefixes by metis+

text \<open>
  C34. The keys are faithful: two pages share a key only if page, limit and user agree, the keys
  of the three kinds never coincide, and two statistics queries share a key exactly when their
  type agrees and their times agree to the second. So two queries whose times differ by a
  fraction of a second are served from the same entry.
\<close>

theorem cache_keys:
  assumes "opt_rfc f" "opt_rfc t" "opt_rfc f'" "opt_rfc t'"
  shows "(EventsKey p l u = EventsKey p' l' u' \<longleftrightarrow> p = p' \<and> l = l' \<and> u = u') \<and>
         (EventTypeIdKey n = EventTypeIdKey n' \<longleftrightarrow> n = n') \<and>
         (StatsKey f t i = StatsKey f' t' i' \<longleftrightarrow> same_second f f' \<and> same_second t t' \<and> i = i') \<and>
         EventsKey p l u \<noteq> StatsKey f t i \<and> EventsKey p l u \<noteq> EventTypeIdKey n \<and> StatsKey f t i \<noteq> EventTypeIdKey n"
  using StatsKey_inject [OF assms] EventsKey_inject by simp

definition noon :: "int \<Rightarrow> go_time option" where
  "noon ns = Some \<lparr>wall = 43200 * 1000000000 + ns, zone = 10800\<rparr>"

lemma noon_rfc:
  assumes "0 \<le> ns" and "ns < 1000000000"
  shows "opt_rfc (noon ns)"
proof -
  have "(43200 * 1000000000 + ns) div 1000000000 = 43200 + ns div 1000000000"
    by (rule div_mult_self3 [of 1000000000]) simp
  moreover have "ns div 1000000000 = 0" using assms by (rule div_pos_pos_trivial)
  ultimately have s: "seconds \<lparr>wall = 43200 * 1000000000 + ns, zone = 10800\<rparr> = 43200"
    unfolding seconds_def go_time.simps by (metis add_0_right)
  have "valid_date 1970 1 1" "day_number 1970 1 1 = 0"
    by (simp_all add: valid_date_def daysIn_def day_number_def year_start_def Let_def)
  then have "civil 0 = (1970, 1, 1)" using civil_day_number by metis
  then have "four_digit_year 43200" unfolding four_digit_year_def by simp
  then show ?thesis by (simp only: noon_def opt_rfc_def rfc_time_def s option.case go_time.simps) simp
qed

theorem cache_keys_witness:
  "StatsKey (noon 0) None None = StatsKey (noon 500000000) None None \<and> noon 0 \<noteq> noon 500000000 \<and>
   EventsKey 1 20 None \<noteq> EventsKey 1 20 (Some 7)"
proof -
  have n: "opt_rfc (noon 0)" "opt_rfc (noon 500000000)" "opt_rfc None"
    using noon_rfc [of 0] noon_rfc [of 500000000] by (simp_all, simp add: opt_rfc_def)
  have "same_second (noon 0) (noon 500000000)" "same_second None None" "noon 0 \<noteq> noon 500000000"
    by (simp_all add: noon_def same_second_def seconds_def)
  then show ?thesis
    using cache_keys [OF n(1,3,2,3), of 1 20 None 1 20 "Some 7" _ _ None None] by blast
qed



section \<open>What the code relies on\<close>

text \<open>
  An iteration together with the deletions made during it: the results of \<open>Next\<close>, the
  iterator at the end, and all states of the server on the way.
\<close>

datatype scan_act = A_next | A_del "string list"

fun scan_trace ::
  "('r, 'it) redis \<Rightarrow> scan_act list \<Rightarrow> 'it \<Rightarrow> 'r \<Rightarrow> string option list \<times> 'it \<times> 'r list" where
  "scan_trace rd [] it r = ([], it, [r])"
| "scan_trace rd (A_next # as) it r =
     (case iter_Next rd it r of (x, it1, r1) \<Rightarrow>
        (case scan_trace rd as it1 r1 of (xs, it2, rs) \<Rightarrow> (x # xs, it2, r # rs)))"
| "scan_trace rd (A_del ks # as) it r =
     (case r_Del rd ks r of (e, r1) \<Rightarrow>
        (case scan_trace rd as it r1 of (xs, it2, rs) \<Rightarrow> (xs, it2, r # rs)))"

text \<open>
  Redis and its client, with \<open>con\<close> the contents of a server state and \<open>glob\<close> the pattern
  language: a value that is read is the one stored; after the answer that there is no value the
  key is absent (it may have expired at that very command); a \<open>SET\<close> without an error has stored
  the value, one with an error may have; a \<open>DEL\<close> without an error has removed its keys; no
  command adds anything else (keys may expire at any time).
\<close>

definition commands_ok :: "('r, 'it) redis \<Rightarrow> ('r \<Rightarrow> string \<rightharpoonup> string) \<Rightarrow> bool" where
  "commands_ok rd con \<longleftrightarrow>
     (\<forall>k r x r'. r_Get rd k r = (x, r') \<longrightarrow> con r' \<subseteq>\<^sub>m con r \<and> (\<forall>v. x = Inr v \<longrightarrow> con r k = Some v) \<and>
        (x = Inl redis_Nil \<longrightarrow> con r' k = None)) \<and>
     (\<forall>k v ttl r e r' j d. r_Set rd k v ttl r = (e, r') \<longrightarrow> con r' j = Some d \<longrightarrow> con r j = Some d \<or> j = k \<and> d = v) \<and>
     (\<forall>k v ttl r r'. r_Set rd k v ttl r = (None, r') \<longrightarrow> con r' k = Some v) \<and>
     (\<forall>ks r e r'. r_Del rd ks r = (e, r') \<longrightarrow> con r' \<subseteq>\<^sub>m con r \<and> (e = None \<longrightarrow> dom (con r') \<inter> set ks = {})) \<and>
     (\<forall>p n r it r'. Scan rd p n r = (it, r') \<longrightarrow> con r' \<subseteq>\<^sub>m con r) \<and>
     (\<forall>it r x it' r'. iter_Next rd it r = (x, it', r') \<longrightarrow> con r' \<subseteq>\<^sub>m con r)"

text \<open>
  The guarantee of \<open>SCAN\<close>: a full iteration that reports no error returns every matching key
  that is present from its start to its end.
\<close>

definition scan_complete ::
  "('r, 'it) redis \<Rightarrow> ('r \<Rightarrow> string \<rightharpoonup> string) \<Rightarrow> (string \<Rightarrow> string \<Rightarrow> bool) \<Rightarrow> bool" where
  "scan_complete rd con glob \<longleftrightarrow>
     (\<forall>p n r0 it r as xs it' rs k. Scan rd p n r0 = (it, r) \<longrightarrow> scan_trace rd as it r = (xs, it', rs) \<longrightarrow>
        None \<in> set xs \<longrightarrow> iter_Err rd it' = None \<longrightarrow> glob p k \<longrightarrow> (\<forall>r \<in> set rs. k \<in> dom (con r)) \<longrightarrow> Some k \<in> set xs)"

text \<open>An iteration ends when nothing is added to the server meanwhile.\<close>

definition scan_ends :: "('r, 'it) redis \<Rightarrow> bool" where
  "scan_ends rd \<longleftrightarrow>
     (\<forall>p n r0 it r. Scan rd p n r0 = (it, r) \<longrightarrow>
        (\<exists>b. \<forall>as xs it' rs. scan_trace rd as it r = (xs, it', rs) \<longrightarrow> b < length xs \<longrightarrow> None \<in> set xs))"

text \<open>A pattern whose only special character is a final star matches the keys with that prefix.\<close>

definition glob_ok :: "(string \<Rightarrow> string \<Rightarrow> bool) \<Rightarrow> bool" where
  "glob_ok glob \<longleftrightarrow> (\<forall>p k. set p \<inter> set ''*?[]^-'' = {} \<longrightarrow> CHR 0x5C \<notin> set p \<longrightarrow> glob (p @ ''*'') k = prefix p k)"

definition redis_ok ::
  "('r, 'it) redis \<Rightarrow> ('r \<Rightarrow> string \<rightharpoonup> string) \<Rightarrow> (string \<Rightarrow> string \<Rightarrow> bool) \<Rightarrow> bool" where
  "redis_ok rd con glob \<longleftrightarrow> commands_ok rd con \<and> scan_complete rd con glob \<and> scan_ends rd \<and> glob_ok glob"


section \<open>Deletion by pattern\<close>

text \<open>
  What can be read through a cache object: the contents of the server behind its client, and
  nothing when the object has no client. It says nothing about a server that could not be reached.
\<close>

definition entries :: "('r \<Rightarrow> string \<rightharpoonup> string) \<Rightarrow> 'r Cache \<Rightarrow> string \<rightharpoonup> string" where
  "entries con c = (case client c of None \<Rightarrow> Map.empty | Some r \<Rightarrow> con r)"

lemma trace_last:
  assumes "commands_ok rd con" and "scan_trace rd as it r = (xs, it', rs)"
  shows "rs \<noteq> [] \<and> hd rs = r \<and> (\<forall>q \<in> set rs. con (last rs) \<subseteq>\<^sub>m con q)"
  using assms(2)
proof (induction as arbitrary: it r xs rs)
  case (Cons a as)
  have step: "rs \<noteq> [] \<and> hd rs = r \<and> (\<forall>q \<in> set rs. con (last rs) \<subseteq>\<^sub>m con q)"
    if "scan_trace rd as it1 r1 = (ys, it', rs1)" "rs = r # rs1" "con r1 \<subseteq>\<^sub>m con r" for it1 r1 ys rs1
  proof -
    have ih: "rs1 \<noteq> []" "hd rs1 = r1" "\<forall>q \<in> set rs1. con (last rs1) \<subseteq>\<^sub>m con q"
      using Cons.IH [OF that(1)] by auto
    then have "con (last rs1) \<subseteq>\<^sub>m con r" using that(3) by (metis hd_in_set map_le_trans)
    then show ?thesis using ih that(2) by auto
  qed
  show ?case
  proof (cases a)
    case A_next
    obtain x it1 r1 where n: "iter_Next rd it r = (x, it1, r1)" by (metis prod_cases3)
    then have le: "con r1 \<subseteq>\<^sub>m con r" using assms(1) by (auto simp: commands_ok_def)
    obtain ys rs1 where "scan_trace rd as it1 r1 = (ys, it', rs1)" "rs = r # rs1"
      using Cons.prems n A_next by (auto split: prod.splits)
    then show ?thesis using le by (rule step)
  next
    case (A_del ks)
    obtain e r1 where n: "r_Del rd ks r = (e, r1)" by fastforce
    then have le: "con r1 \<subseteq>\<^sub>m con r" using assms(1) by (auto simp: commands_ok_def)
    obtain ys rs1 where "scan_trace rd as it r1 = (ys, it', rs1)" "rs = r # rs1"
      using Cons.prems n A_del by (auto split: prod.splits)
    then show ?thesis using le by (rule step)
  qed
qed auto

lemma del_batch_law:
  assumes "commands_ok rd con" and "del_batch rd ks n r = (n', r')"
  shows "con r' \<subseteq>\<^sub>m con r" and "n \<le> n'" and "n' = n \<Longrightarrow> dom (con r') \<inter> set ks = {}"
  using assms by (auto simp: del_batch_def commands_ok_def split: prod.splits if_splits)

definition ends_within :: "('r, 'it) redis \<Rightarrow> nat \<Rightarrow> 'it \<Rightarrow> 'r \<Rightarrow> bool" where
  "ends_within rd b it r \<longleftrightarrow>
     (\<forall>as xs it' rs. scan_trace rd as it r = (xs, it', rs) \<longrightarrow> b < length xs \<longrightarrow> None \<in> set xs)"

lemma ends_within_next:
  assumes "ends_within rd b it r" and "iter_Next rd it r = (Some k, it1, r1)"
  shows "0 < b" and "ends_within rd (b - 1) it1 r1"
proof -
  have *: "None \<in> set ys" if "scan_trace rd as it1 r1 = (ys, it', rs)" "b \<le> length ys" for as ys it' rs
  proof -
    have "scan_trace rd (A_next # as) it r = (Some k # ys, it', r # rs)" using that(1) assms(2) by simp
    moreover have "b < length (Some k # ys)" using that(2) by simp
    ultimately have "None \<in> set (Some k # ys)" using assms(1) unfolding ends_within_def by blast
    then show ?thesis by simp
  qed
  show "0 < b" using * [of "[]" "[]" it1 "[r1]"] by (cases b) auto
  show "ends_within rd (b - 1) it1 r1"
    unfolding ends_within_def
  proof (intro allI impI)
    fix as xs it' rs assume t: "scan_trace rd as it1 r1 = (xs, it', rs)" and "b - 1 < length xs"
    then have "b \<le> length xs" by simp
    then show "None \<in> set xs" by (rule * [OF t])
  qed
qed

lemma ends_within_del:
  assumes "ends_within rd b it r" and "r_Del rd ks r = (e, r1)"
  shows "ends_within rd b it r1"
  unfolding ends_within_def
proof (intro allI impI)
  fix as xs it' rs assume "scan_trace rd as it r1 = (xs, it', rs)" and b: "b < length xs"
  then have "scan_trace rd (A_del ks # as) it r = (xs, it', r # rs)" using assms(2) by simp
  then show "None \<in> set xs" using assms(1) b unfolding ends_within_def by blast
qed

text \<open>The loop has run an iteration to its end, and every key it was given is still collected or gone.\<close>

definition loop_done ::
  "('r, 'it) redis \<Rightarrow> ('r \<Rightarrow> string \<rightharpoonup> string) \<Rightarrow> 'it \<Rightarrow> 'r \<Rightarrow> string list \<Rightarrow> int \<Rightarrow> 'it \<times> string list \<times> int \<times> 'r \<Rightarrow> bool" where
  "loop_done rd con it r ks n res =
     (case res of (it', ks', n', r') \<Rightarrow>
        n \<le> n' \<and> (\<exists>as xs rs. scan_trace rd as it r = (xs, it', rs) \<and> None \<in> set xs \<and> last rs = r' \<and>
          (n' = n \<longrightarrow> (\<forall>k. Some k \<in> set xs \<or> k \<in> set ks \<longrightarrow> k \<in> set ks' \<or> k \<notin> dom (con r')))))"

lemma loop_done_next:
  assumes "commands_ok rd con" and "iter_Next rd it r = (Some k, it1, r1)"
    and "loop_done rd con it1 r1 (ks @ [k]) n res"
  shows "loop_done rd con it r ks n res"
proof -
  obtain it' ks' n' r' where res: "res = (it', ks', n', r')" by (metis prod_cases4)
  obtain as xs rs where t: "scan_trace rd as it1 r1 = (xs, it', rs)" "None \<in> set xs" "last rs = r'" "n \<le> n'"
      "n' = n \<longrightarrow> (\<forall>j. Some j \<in> set xs \<or> j \<in> set (ks @ [k]) \<longrightarrow> j \<in> set ks' \<or> j \<notin> dom (con r'))"
    using assms(3) unfolding loop_done_def res prod.case by blast
  have tr: "scan_trace rd (A_next # as) it r = (Some k # xs, it', r # rs)" using assms(2) t(1) by simp
  have "rs \<noteq> []" using trace_last [OF assms(1) t(1)] by simp
  then have "last (r # rs) = r'" "None \<in> set (Some k # xs)" using t(2,3) by simp_all
  moreover have "n' = n \<longrightarrow> (\<forall>j. Some j \<in> set (Some k # xs) \<or> j \<in> set ks \<longrightarrow> j \<in> set ks' \<or> j \<notin> dom (con r'))"
    using t(5) by auto
  ultimately show ?thesis using tr t(4) unfolding loop_done_def res prod.case by blast
qed

lemma loop_done_del:
  assumes "commands_ok rd con" and "del_batch rd ks n r = (n1, r1)" and "loop_done rd con it r1 [] n1 res"
  shows "loop_done rd con it r ks n res"
proof -
  obtain it' ks' n' r' where res: "res = (it', ks', n', r')" by (metis prod_cases4)
  obtain as xs rs where t: "scan_trace rd as it r1 = (xs, it', rs)" "None \<in> set xs" "last rs = r'" "n1 \<le> n'"
      "n' = n1 \<longrightarrow> (\<forall>j. Some j \<in> set xs \<longrightarrow> j \<in> set ks' \<or> j \<notin> dom (con r'))"
    using assms(3) unfolding loop_done_def res prod.case by auto
  obtain e where e: "r_Del rd ks r = (e, r1)" using assms(2) by (auto simp: del_batch_def split: prod.splits)
  have tr: "scan_trace rd (A_del ks # as) it r = (xs, it', r # rs)" using e t(1) by simp
  note tl = trace_last [OF assms(1) t(1)] and dl = del_batch_law [OF assms(1,2)]
  have "con r' \<subseteq>\<^sub>m con r1" using tl t(3) by (metis hd_in_set)
  then have "dom (con r') \<subseteq> dom (con r1)" by (rule map_le_implies_dom_le)
  then have "n' = n \<longrightarrow> (\<forall>j. Some j \<in> set xs \<or> j \<in> set ks \<longrightarrow> j \<in> set ks' \<or> j \<notin> dom (con r'))"
  proof (intro impI allI)
    fix j assume n: "n' = n" and j: "Some j \<in> set xs \<or> j \<in> set ks"
    have eq: "n' = n1" "n1 = n" using n t(4) dl(2) by simp_all
    then have gone: "dom (con r1) \<inter> set ks = {}" using dl(3) by simp
    show "j \<in> set ks' \<or> j \<notin> dom (con r')"
      using j t(5) eq(1) gone \<open>dom (con r') \<subseteq> dom (con r1)\<close> by blast
  qed
  moreover have "last (r # rs) = r'" using tl t(3) by simp
  moreover have "n \<le> n'" using t(4) dl(2) by simp
  ultimately show ?thesis using tr t(2) unfolding loop_done_def res prod.case by blast
qed

lemma del_loop_law:
  assumes "commands_ok rd con" and "ends_within rd b it r"
  shows "\<exists>res. del_loop rd it ks n r = Some res \<and> loop_done rd con it r ks n res"
  using assms(2)
proof (induction b arbitrary: it ks n r rule: less_induct)
  case (less b)
  obtain x it1 r1 where nx: "iter_Next rd it r = (x, it1, r1)" by (metis prod_cases3)
  show ?case
  proof (cases x)
    case None
    then have "del_loop rd it ks n r = Some (it1, ks, n, r1)" using nx by (subst del_loop.simps) simp
    moreover have "scan_trace rd [A_next] it r = ([None], it1, [r, r1])" using nx None by simp
    then have "loop_done rd con it r ks n (it1, ks, n, r1)"
      unfolding loop_done_def prod.case by (intro conjI exI) (assumption | simp)+
    ultimately show ?thesis by blast
  next
    case (Some k)
    note nk = nx [unfolded Some] and e = ends_within_next [OF less.prems nx [unfolded Some]]
    have lt: "b - 1 < b" using e(1) by simp
    show ?thesis
    proof (cases "100 \<le> length (ks @ [k])")
      case True
      obtain n1 r2 where d: "del_batch rd (ks @ [k]) n r1 = (n1, r2)" by fastforce
      obtain er where er: "r_Del rd (ks @ [k]) r1 = (er, r2)" using d by (auto simp: del_batch_def split: prod.splits)
      obtain res where ih: "del_loop rd it1 [] n1 r2 = Some res" "loop_done rd con it1 r2 [] n1 res"
        using less.IH [OF lt ends_within_del [OF e(2) er]] by blast
      have "del_loop rd it ks n r = Some res"
        using nk True d ih(1) by (subst del_loop.simps) simp
      then show ?thesis using loop_done_next [OF assms(1) nk loop_done_del [OF assms(1) d ih(2)]] by blast
    next
      case False
      obtain res where ih: "del_loop rd it1 (ks @ [k]) n r1 = Some res" "loop_done rd con it1 r1 (ks @ [k]) n res"
        using less.IH [OF lt e(2)] by blast
      have "del_loop rd it ks n r = Some res"
        using nk False ih(1) by (subst del_loop.simps) simp
      then show ?thesis using loop_done_next [OF assms(1) nk ih(2)] by blast
    qed
  qed
qed

lemma DeleteByPattern_law:
  assumes "redis_ok rd con glob"
  shows "\<exists>c'. DeleteByPattern rd p c = Some c' \<and> entries con c' \<subseteq>\<^sub>m entries con c \<and>
           cache_errors c \<le> cache_errors c' \<and> hits c' = hits c \<and> misses c' = misses c \<and>
           (client c' = None \<longleftrightarrow> client c = None) \<and>
           (cache_errors c' = cache_errors c \<longrightarrow> (\<forall>k \<in> dom (entries con c'). \<not> glob p k))"
proof (cases "client c")
  case None
  then show ?thesis by (simp add: DeleteByPattern_def entries_def)
next
  case (Some r)
  have cmd: "commands_ok rd con" using assms by (simp add: redis_ok_def)
  obtain it r1 where sc: "Scan rd p 100 r = (it, r1)" by fastforce
  obtain b where "ends_within rd b it r1"
    using assms sc unfolding redis_ok_def scan_ends_def ends_within_def by metis
  then obtain res where res: "del_loop rd it [] (cache_errors c) r1 = Some res"
      "loop_done rd con it r1 [] (cache_errors c) res"
    using del_loop_law [OF cmd] by blast
  obtain it' ks n r2 where rs4: "res = (it', ks, n, r2)" by (metis prod_cases4)
  obtain as xs rs where l: "del_loop rd it [] (cache_errors c) r1 = Some (it', ks, n, r2)"
      "scan_trace rd as it r1 = (xs, it', rs)" "None \<in> set xs" "last rs = r2" "cache_errors c \<le> n"
      "n = cache_errors c \<longrightarrow> (\<forall>k. Some k \<in> set xs \<longrightarrow> k \<in> set ks \<or> k \<notin> dom (con r2))"
    using res unfolding loop_done_def rs4 prod.case by auto
  obtain n1 r3 where d: "(if ks \<noteq> [] then del_batch rd ks n r2 else (n, r2)) = (n1, r3)" by fastforce
  have dl: "con r3 \<subseteq>\<^sub>m con r2" "n \<le> n1" "n1 = n \<Longrightarrow> dom (con r3) \<inter> set ks = {}"
    using d del_batch_law [OF cmd, of ks n r2 n1 r3] by (auto split: if_splits)
  let ?c' = "c\<lparr>client := Some r3, cache_errors := if iter_Err rd it' = None then n1 else n1 + 1\<rparr>"
  note tl = trace_last [OF cmd l(2)]
  have sub: "con r3 \<subseteq>\<^sub>m con q" if "q \<in> set rs" for q
    using tl that l(4) dl(1) by (auto intro: map_le_trans)
  have "con r1 \<subseteq>\<^sub>m con r" using cmd sc by (auto simp: commands_ok_def)
  moreover have "r1 \<in> set rs" using tl by (metis hd_in_set)
  ultimately have le: "con r3 \<subseteq>\<^sub>m con r" using sub map_le_trans by blast
  have gone: "\<not> glob p k" if ce: "cache_errors ?c' = cache_errors c" and k: "k \<in> dom (con r3)" for k
  proof
    assume g: "glob p k"
    have e: "n1 = cache_errors c" "n = cache_errors c" "iter_Err rd it' = None"
      using ce l(5) dl(2) by (auto split: if_splits)
    have "\<forall>q \<in> set rs. k \<in> dom (con q)" using sub k by (metis map_le_implies_dom_le subsetD)
    then have "Some k \<in> set xs"
      using assms sc l(2,3) e(3) g unfolding redis_ok_def scan_complete_def by blast
    then have "k \<in> set ks \<or> k \<notin> dom (con r2)" using l(6) e(2) by blast
    moreover have "k \<in> dom (con r2)" using k dl(1) map_le_implies_dom_le by blast
    ultimately show False using dl(3) e k by auto
  qed
  have "DeleteByPattern rd p c = Some ?c'"
    using Some sc l(1) d by (simp add: DeleteByPattern_def)
  then show ?thesis
    using le gone l(5) dl(2) Some by (intro exI [of _ ?c']) (auto simp: entries_def)
qed



section \<open>Reading and writing\<close>

lemma glob_prefix:
  assumes "redis_ok rd con glob"
  shows "glob (keyPrefixEvents @ '':*'') k \<longleftrightarrow> prefix ''events:'' k"
    and "glob (keyPrefixStats @ '':*'') k \<longleftrightarrow> prefix ''stats:'' k"
proof -
  have g: "set p \<inter> set ''*?[]^-'' = {} \<Longrightarrow> CHR 0x5C \<notin> set p \<Longrightarrow> glob (p @ ''*'') k = prefix p k" for p
    using assms by (simp add: redis_ok_def glob_ok_def)
  show "glob (keyPrefixEvents @ '':*'') k \<longleftrightarrow> prefix ''events:'' k"
    using g [of "''events:''"] by (simp add: keyPrefixEvents_def)
  show "glob (keyPrefixStats @ '':*'') k \<longleftrightarrow> prefix ''stats:'' k"
    using g [of "''stats:''"] by (simp add: keyPrefixStats_def)
qed

text \<open>A read changes no entry but may lose some; what it returns was there.\<close>

lemma GetBytes_law:
  assumes "commands_ok rd con" and "GetBytes rd k c = (x, c')"
  shows "entries con c' \<subseteq>\<^sub>m entries con c" and "x = Some v \<Longrightarrow> entries con c k = Some v"
  using assms by (auto simp: GetBytes_def entries_def commands_ok_def miss_def hit_def fail_def
      split: option.splits prod.splits sum.splits if_splits)

lemma Get_cache_law:
  assumes "commands_ok rd con" and "Get_cache rd dec k c = (x, c')"
  shows "entries con c' \<subseteq>\<^sub>m entries con c"
    and "x = Some v \<Longrightarrow> \<exists>d. entries con c k = Some d \<and> dec d = Some v"
proof -
  show "entries con c' \<subseteq>\<^sub>m entries con c"
  proof (cases "client c")
    case None
    then show ?thesis using assms(2) by (auto simp: Get_cache_def entries_def miss_def)
  next
    case (Some r)
    obtain y r1 where g: "r_Get rd k r = (y, r1)" by fastforce
    obtain e r2 where d: "r_Del rd [k] r1 = (e, r2)" by fastforce
    have "con r1 \<subseteq>\<^sub>m con r" "con r2 \<subseteq>\<^sub>m con r1" using assms(1) g d by (auto simp: commands_ok_def)
    then have "con r2 \<subseteq>\<^sub>m con r" "con r1 \<subseteq>\<^sub>m con r" by (auto intro: map_le_trans)
    then show ?thesis
      using assms(2) Some g d
      by (auto simp: Get_cache_def entries_def miss_def hit_def fail_def split: sum.splits option.splits if_splits)
  qed
  show "x = Some v \<Longrightarrow> \<exists>d. entries con c k = Some d \<and> dec d = Some v"
    using assms by (auto simp: Get_cache_def entries_def commands_ok_def split: option.splits prod.splits sum.splits)
qed

lemma Set_cache_law:
  assumes "commands_ok rd con" and "entries con (Set_cache rd k v ttl c) j = Some d"
  shows "entries con c j = Some d \<or> j = k \<and> v = Some d"
proof (cases "client c")
  case (Some r)
  show ?thesis
  proof (cases v)
    case (Some w)
    obtain e r1 where s: "r_Set rd k w ttl r = (e, r1)" by fastforce
    have "entries con (Set_cache rd k v ttl c) = con r1"
      using \<open>client c = Some r\<close> s Some by (cases e) (simp_all add: Set_cache_def entries_def fail_def)
    then have "con r1 j = Some d" using assms(2) by simp
    then have "con r j = Some d \<or> j = k \<and> d = w"
      using assms(1) s unfolding commands_ok_def by metis
    then show ?thesis using \<open>client c = Some r\<close> Some by (auto simp: entries_def)
  qed (use assms(2) Some in \<open>simp add: Set_cache_def entries_def\<close>)
qed (use assms(2) in \<open>simp add: Set_cache_def entries_def\<close>)

lemma Invalidate_law:
  assumes "redis_ok rd con glob"
  shows "\<exists>c'. InvalidateEvents rd c = Some c' \<and> entries con c' \<subseteq>\<^sub>m entries con c \<and> cache_errors c \<le> cache_errors c' \<and>
           (cache_errors c' = cache_errors c \<longrightarrow> (\<forall>k. prefix ''events:'' k \<longrightarrow> entries con c' k = None))"
    and "\<exists>c'. InvalidateStats rd c = Some c' \<and> entries con c' \<subseteq>\<^sub>m entries con c \<and> cache_errors c \<le> cache_errors c' \<and>
           (cache_errors c' = cache_errors c \<longrightarrow> (\<forall>k. prefix ''stats:'' k \<longrightarrow> entries con c' k = None))"
  using DeleteByPattern_law [OF assms, of "keyPrefixEvents @ '':*''" c]
    DeleteByPattern_law [OF assms, of "keyPrefixStats @ '':*''" c]
  unfolding InvalidateEvents_def InvalidateStats_def glob_prefix [OF assms] by blast+


section \<open>A server in memory\<close>

definition mem_glob :: "string \<Rightarrow> string \<Rightarrow> bool" where
  "mem_glob p k = (if p \<noteq> [] \<and> last p = CHR ''*'' then prefix (butlast p) k else p = k)"

definition mem_redis :: "((string \<times> string) list, string list) redis" where
  "mem_redis =
     \<lparr>Ping = (\<lambda>r. None),
      r_Get = (\<lambda>k r. (case map_of r k of None \<Rightarrow> Inl redis_Nil | Some v \<Rightarrow> Inr v, r)),
      r_Set = (\<lambda>k v ttl r. (None, (k, v) # r)),
      r_Del = (\<lambda>ks r. (None, filter (\<lambda>(k, v). k \<notin> set ks) r)),
      Scan = (\<lambda>p n r. (filter (mem_glob p) (map fst r), r)),
      iter_Next = (\<lambda>it r. case it of [] \<Rightarrow> (None, [], r) | k # ks \<Rightarrow> (Some k, ks, r)),
      iter_Err = (\<lambda>it. None),
      r_Close = (\<lambda>r. None)\<rparr>"

lemma map_of_filter_out: "map_of (filter (\<lambda>(k, v). k \<notin> set ks) r) = map_of r |` (- set ks)"
  by (induction r) (auto simp: restrict_map_def fun_eq_iff)

lemma mem_trace:
  assumes "scan_trace mem_redis as it r = (xs, it', rs)"
  shows "\<forall>k \<in> set it. None \<in> set xs \<longrightarrow> Some k \<in> set xs" and "length it < length xs \<longrightarrow> None \<in> set xs"
  using assms
proof (induction as arbitrary: it r xs rs)
  case (Cons a as)
  {
    case 1
    then show ?case
      using Cons.IH(1) by (cases a; cases it) (fastforce simp: mem_redis_def split: prod.splits)+
  next
    case 2
    then show ?case
      using Cons.IH(2) by (cases a; cases it) (fastforce simp: mem_redis_def split: prod.splits)+
  }
qed auto

lemma mem_redis_ok: "redis_ok mem_redis map_of mem_glob"
proof -
  have "commands_ok mem_redis map_of"
    unfolding commands_ok_def
    by (auto simp: mem_redis_def map_of_filter_out map_le_def restrict_map_def redis_Nil_def
        split: option.splits list.splits if_splits)
  moreover have "scan_complete mem_redis map_of mem_glob"
    unfolding scan_complete_def
  proof (intro allI impI)
    fix p n r0 it r as xs it' rs k
    assume s: "Scan mem_redis p n r0 = (it, r)" and t: "scan_trace mem_redis as it r = (xs, it', rs)"
      and n: "None \<in> set xs" and g: "mem_glob p k" and d: "\<forall>q \<in> set rs. k \<in> dom (map_of q)"
    have "r \<in> set rs" using t by (cases as; cases "hd as") (auto split: prod.splits)
    then have "k \<in> fst ` set r" using d by (auto simp: dom_map_of_conv_image_fst)
    moreover have "it = filter (mem_glob p) (map fst r)" using s by (auto simp: mem_redis_def)
    ultimately have "k \<in> set it" using g by simp
    then show "Some k \<in> set xs" using mem_trace(1) [OF t] n by blast
  qed
  moreover have "scan_ends mem_redis"
    unfolding scan_ends_def using mem_trace(2) by blast
  moreover have "glob_ok mem_glob" by (simp add: glob_ok_def mem_glob_def)
  ultimately show ?thesis by (simp add: redis_ok_def)
qed


section \<open>Properties\<close>

text \<open>
  C17. Invalidation is complete and ends: on a server with the documented behaviour the loop of
  \<open>DeleteByPattern\<close> terminates, entries only disappear, and if no error was counted no entry
  of an event list, or of the statistics, is left.
\<close>

theorem cache_invalidation:
  assumes "redis_ok rd con glob"
  shows "\<exists>c1 c2. InvalidateEvents rd c = Some c1 \<and> InvalidateStats rd c1 = Some c2 \<and>
           entries con c2 \<subseteq>\<^sub>m entries con c \<and> cache_errors c \<le> cache_errors c2 \<and>
           (cache_errors c2 = cache_errors c \<longrightarrow>
              (\<forall>p l u. entries con c2 (EventsKey p l u) = None) \<and> (\<forall>f t i. entries con c2 (StatsKey f t i) = None))"
proof -
  obtain c1 where 1: "InvalidateEvents rd c = Some c1" "entries con c1 \<subseteq>\<^sub>m entries con c" "cache_errors c \<le> cache_errors c1"
      "cache_errors c1 = cache_errors c \<longrightarrow> (\<forall>k. prefix ''events:'' k \<longrightarrow> entries con c1 k = None)"
    using Invalidate_law(1) [OF assms] by blast
  obtain c2 where 2: "InvalidateStats rd c1 = Some c2" "entries con c2 \<subseteq>\<^sub>m entries con c1" "cache_errors c1 \<le> cache_errors c2"
      "cache_errors c2 = cache_errors c1 \<longrightarrow> (\<forall>k. prefix ''stats:'' k \<longrightarrow> entries con c2 k = None)"
    using Invalidate_law(2) [OF assms] by blast
  have "entries con c2 (EventsKey p l u) = None \<and> entries con c2 (StatsKey f t i) = None"
    if "cache_errors c2 = cache_errors c" for p l u f t i
  proof -
    have "cache_errors c1 = cache_errors c" "cache_errors c2 = cache_errors c1" using that 1(3) 2(3) by simp_all
    then have "entries con c1 (EventsKey p l u) = None" "entries con c2 (StatsKey f t i) = None"
      using 1(4) 2(4) key_prefixes by blast+
    then show ?thesis using 2(2) by (metis domIff map_le_implies_dom_le subsetD)
  qed
  then show ?thesis using 1 2 by (intro exI [of _ c1] exI [of _ c2]) (auto intro: map_le_trans)
qed

definition demo_cache :: "(string \<times> string) list Cache" where
  "demo_cache = NewCache (Some [(EventsKey 1 20 None, ''page''), (EventTypeIdKey ''view'', ''1'')])"

lemma mem_del_loop_errors:
  assumes "del_loop mem_redis it ks n r = Some res"
  shows "fst (snd (snd res)) = n"
proof -
  have "rd = mem_redis \<longrightarrow> fst (snd (snd res)) = n" if "del_loop rd it ks n r = Some res"
    for rd :: "((string \<times> string) list, string list) redis" and it ks n r res
    by (rule del_loop.raw_induct [OF _ that])
      (auto simp: mem_redis_def del_batch_def split: prod.splits option.splits if_splits list.splits)
  then show ?thesis using assms by blast
qed

lemma mem_DeleteByPattern_errors:
  "DeleteByPattern mem_redis p c = Some c' \<Longrightarrow> cache_errors c' = cache_errors c"
  by (auto simp: DeleteByPattern_def del_batch_def split: option.splits prod.splits if_splits
      dest!: mem_del_loop_errors) (auto simp: mem_redis_def)

theorem cache_invalidation_witness:
  "\<exists>c1 c2. InvalidateEvents mem_redis demo_cache = Some c1 \<and> InvalidateStats mem_redis c1 = Some c2 \<and>
     entries map_of demo_cache (EventsKey 1 20 None) = Some ''page'' \<and> entries map_of c2 (EventsKey 1 20 None) = None"
proof -
  obtain c1 c2 where c: "InvalidateEvents mem_redis demo_cache = Some c1" "InvalidateStats mem_redis c1 = Some c2"
      "cache_errors c2 = cache_errors demo_cache \<longrightarrow> entries map_of c2 (EventsKey 1 20 None) = None"
    using cache_invalidation [OF mem_redis_ok, of demo_cache] by blast
  have "cache_errors c2 = cache_errors demo_cache"
    using c(1,2) mem_DeleteByPattern_errors by (simp add: InvalidateEvents_def InvalidateStats_def)
  then show ?thesis using c by (simp add: demo_cache_def NewCache_def entries_def)
qed

end
