(* ===== verification/Repositories.thy ===== *)
theory Repositories
  imports Stores Cache
begin

text \<open>
  The repository layer: \<open>src/internal/repositories/event_repository.go\<close> and
  \<open>src/internal/repositories/stats_repository.go\<close>. The two repositories share the event store
  and the cache; both are fields of one state. A call that goes through \<open>singleflight\<close> takes
  the result of the call in flight for the same key, if there is one, as an argument. A failed
  type assertion (a panic) and an operation that does not return are \<open>None\<close>.
\<close>


section \<open>State\<close>

record 'r repository =
  repo_store :: EventStore
  repo_cache :: "'r Cache option"

text \<open>The results that the closures given to \<open>singleflight\<close> return.\<close>

datatype flight_result =
    Flight_page PaginatedEvents
  | Flight_cached CachedPaginatedEvents

definition NewEventRepository :: "EventStore \<Rightarrow> 'r Cache option \<Rightarrow> 'r repository" where
  "NewEventRepository st c = \<lparr>repo_store = st, repo_cache = c\<rparr>"

text \<open>A read of the cache, if there is one, and a write.\<close>

definition from_cache :: "('r Cache \<Rightarrow> 'a option \<times> 'r Cache) \<Rightarrow> 'r repository \<Rightarrow> 'a option \<times> 'r repository" where
  "from_cache f s =
     (case repo_cache s of
        None \<Rightarrow> (None, s)
      | Some c \<Rightarrow> (case f c of (x, c') \<Rightarrow> (x, s\<lparr>repo_cache := Some c'\<rparr>)))"

definition to_cache :: "('r, 'it) redis \<Rightarrow> string \<Rightarrow> string option \<Rightarrow> int \<Rightarrow> 'r repository \<Rightarrow> 'r repository" where
  "to_cache rd key value ttl s = s\<lparr>repo_cache := map_option (Set_cache rd key value ttl) (repo_cache s)\<rparr>"

definition in_store :: "(EventStore \<Rightarrow> 'a \<times> EventStore) \<Rightarrow> 'r repository \<Rightarrow> 'a \<times> 'r repository" where
  "in_store f s = (case f (repo_store s) of (x, st) \<Rightarrow> (x, s\<lparr>repo_store := st\<rparr>))"


section \<open>Events\<close>

text \<open>The part of both closures that reads the page from the store.\<close>

definition fetch_page ::
  "uint \<Rightarrow> uint \<Rightarrow> int64 option \<Rightarrow> 'r repository \<Rightarrow> (go_error + PaginatedEvents) \<times> 'r repository" where
  "fetch_page page limit userID s =
     (case in_store (GetPaginated page limit userID) s of
        (Inl e, s1) \<Rightarrow> (Inl (Wrap ''failed to get paginated events: '' e ''''), s1)
      | (Inr evs, s1) \<Rightarrow>
          (case in_store (GetTotal userID) s1 of
             (Inl e, s2) \<Rightarrow> (Inl (Wrap ''failed to get total events: '' e ''''), s2)
           | (Inr n, s2) \<Rightarrow>
               (Inr \<lparr>Data = evs, Page = page, Limit = limit, Total = word_of_int n\<rparr>, s2)))"

definition page_flight ::
  "('r, 'it) redis \<Rightarrow> uint \<Rightarrow> uint \<Rightarrow> int64 option \<Rightarrow> 'r repository \<Rightarrow> (go_error + flight_result) \<times> 'r repository" where
  "page_flight rd page limit userID s =
     (let key = EventsKey page limit userID in
      case from_cache (Get_cache rd unmarshal_page key) s of
        (Some p, s1) \<Rightarrow> (Inr (Flight_page p), s1)
      | (None, s1) \<Rightarrow>
          (case fetch_page page limit userID s1 of
             (Inl e, s2) \<Rightarrow> (Inl e, s2)
           | (Inr p, s2) \<Rightarrow> (Inr (Flight_page p), to_cache rd key (page_text p) TTLEvents s2)))"

definition GetPaginated_repo ::
  "('r, 'it) redis \<Rightarrow> (go_error + flight_result) option \<Rightarrow> uint \<Rightarrow> uint \<Rightarrow> int64 option \<Rightarrow> 'r repository
   \<Rightarrow> ((go_error + PaginatedEvents) \<times> 'r repository) option" where
  "GetPaginated_repo rd inflight page limit userID s =
     (case from_cache (Get_cache rd unmarshal_page (EventsKey page limit userID)) s of
        (Some p, s1) \<Rightarrow> Some (Inr p, s1)
      | (None, s1) \<Rightarrow>
          (case (case inflight of Some res \<Rightarrow> (res, s1) | None \<Rightarrow> page_flight rd page limit userID s1) of
             (Inl e, s2) \<Rightarrow> Some (Inl e, s2)
           | (Inr (Flight_page p), s2) \<Rightarrow> Some (Inr p, s2)
           | (Inr (Flight_cached _), s2) \<Rightarrow> None))"

definition cached_flight ::
  "('r, 'it) redis \<Rightarrow> uint \<Rightarrow> uint \<Rightarrow> int64 option \<Rightarrow> 'r repository \<Rightarrow> (go_error + flight_result) \<times> 'r repository" where
  "cached_flight rd page limit userID s =
     (let key = EventsKey page limit userID in
      case from_cache (GetBytes rd key) s of
        (Some data, s1) \<Rightarrow> (Inr (Flight_cached \<lparr>RawJSON = Some data, cp_Data = None\<rparr>), s1)
      | (None, s1) \<Rightarrow>
          (case fetch_page page limit userID s1 of
             (Inl e, s2) \<Rightarrow> (Inl e, s2)
           | (Inr p, s2) \<Rightarrow>
               (Inr (Flight_cached \<lparr>RawJSON = None, cp_Data = Some p\<rparr>),
                to_cache rd key (page_text p) TTLEvents s2)))"

definition GetPaginatedCached ::
  "('r, 'it) redis \<Rightarrow> (go_error + flight_result) option \<Rightarrow> uint \<Rightarrow> uint \<Rightarrow> int64 option \<Rightarrow> 'r repository
   \<Rightarrow> ((go_error + CachedPaginatedEvents) \<times> 'r repository) option" where
  "GetPaginatedCached rd inflight page limit userID s =
     (case from_cache (GetBytes rd (EventsKey page limit userID)) s of
        (Some data, s1) \<Rightarrow> Some (Inr \<lparr>RawJSON = Some data, cp_Data = None\<rparr>, s1)
      | (None, s1) \<Rightarrow>
          (case (case inflight of Some res \<Rightarrow> (res, s1) | None \<Rightarrow> cached_flight rd page limit userID s1) of
             (Inl e, s2) \<Rightarrow> Some (Inl e, s2)
           | (Inr (Flight_cached r), s2) \<Rightarrow> Some (Inr r, s2)
           | (Inr (Flight_page _), s2) \<Rightarrow> None))"

definition invalidateCaches :: "('r, 'it) redis \<Rightarrow> 'r repository \<Rightarrow> 'r repository option" where
  "invalidateCaches rd s =
     (case repo_cache s of
        None \<Rightarrow> Some s
      | Some c \<Rightarrow>
          (case InvalidateEvents rd c of
             None \<Rightarrow> None
           | Some c1 \<Rightarrow>
               (case InvalidateStats rd c1 of
                  None \<Rightarrow> None
                | Some c2 \<Rightarrow> Some (s\<lparr>repo_cache := Some c2\<rparr>))))"

definition InvalidateCaches :: "('r, 'it) redis \<Rightarrow> 'r repository \<Rightarrow> 'r repository option" where
  "InvalidateCaches rd s = invalidateCaches rd s"

definition CreateEventWithType_repo ::
  "('r, 'it) redis \<Rightarrow> pg_env \<Rightarrow> clock \<Rightarrow> int64 \<Rightarrow> string \<Rightarrow> string option \<Rightarrow> nat \<Rightarrow> 'r repository
   \<Rightarrow> ((go_error + Event) \<times> 'r repository \<times> nat) option" where
  "CreateEventWithType_repo rd env clk userID eventType metadata k s =
     (case CreateEventWithType env clk userID eventType metadata k (repo_store s) of
        None \<Rightarrow> None
      | Some (Inl e, st, k') \<Rightarrow> Some (Inl e, s\<lparr>repo_store := st\<rparr>, k')
      | Some (Inr ev, st, k') \<Rightarrow>
          (case invalidateCaches rd (s\<lparr>repo_store := st\<rparr>) of
             None \<Rightarrow> None
           | Some s1 \<Rightarrow> Some (Inr (ev\<lparr>Type := eventType\<rparr>), s1, k')))"

definition CreateEvent_repo ::
  "('r, 'it) redis \<Rightarrow> pg_env \<Rightarrow> clock \<Rightarrow> CreateEventInput \<Rightarrow> nat \<Rightarrow> 'r repository
   \<Rightarrow> ((go_error + Event) \<times> 'r repository \<times> nat) option" where
  "CreateEvent_repo rd env clk input k s =
     CreateEventWithType_repo rd env clk (in_UserID input) (in_Type input) (in_Metadata input) k s"

definition GenerateEventID_repo ::
  "clock \<Rightarrow> nat \<Rightarrow> 'r repository \<Rightarrow> ((go_error + int64) \<times> 'r repository \<times> nat) option" where
  "GenerateEventID_repo clk k s =
     map_option (\<lambda>(r, st, k'). (r, s\<lparr>repo_store := st\<rparr>, k')) (GenerateEventID clk k (repo_store s))"

definition GetOrCreateTypeID_repo ::
  "('r, 'it) redis \<Rightarrow> string \<Rightarrow> 'r repository \<Rightarrow> (go_error + int64) \<times> 'r repository" where
  "GetOrCreateTypeID_repo rd eventType s =
     (let key = EventTypeIdKey eventType in
      case from_cache (Get_cache rd unmarshal_int64 key) s of
        (Some t, s1) \<Rightarrow> (Inr t, s1)
      | (None, s1) \<Rightarrow>
          (case in_store (GetOrCreateTypeID eventType) s1 of
             (Inl e, s2) \<Rightarrow> (Inl (Wrap ''failed to get or create type ID: '' e ''''), s2)
           | (Inr t, s2) \<Rightarrow> (Inr t, to_cache rd key (Some (fmt_d (sint t))) TTLEventTypeId s2)))"

definition InsertEventWithID_repo ::
  "('r, 'it) redis \<Rightarrow> pg_env \<Rightarrow> Event \<Rightarrow> 'r repository \<Rightarrow> (go_error option \<times> 'r repository) option" where
  "InsertEventWithID_repo rd env e s =
     (case in_store (InsertEventWithID env e) s of
        (Some err, s1) \<Rightarrow> Some (Some err, s1)
      | (None, s1) \<Rightarrow> map_option (Pair None) (invalidateCaches rd s1))"

definition BatchInsertEventsContext_repo :: "pg_env \<Rightarrow> Event list \<Rightarrow> 'r repository effect" where
  "BatchInsertEventsContext_repo env es = in_store (BatchInsertEventsContext env es)"


section \<open>Statistics\<close>

definition stats_key :: "GetStatsData \<Rightarrow> string" where
  "stats_key d = StatsKey (From d) (To d) (gs_TypeID d)"

definition GetStatsRaw :: "('r, 'it) redis \<Rightarrow> GetStatsData \<Rightarrow> 'r repository \<Rightarrow> string option \<times> 'r repository" where
  "GetStatsRaw rd d = from_cache (GetBytes rd (stats_key d))"

definition GetStats_repo ::
  "('r, 'it) redis \<Rightarrow> pg_env \<Rightarrow> GetStatsData \<Rightarrow> 'r repository \<Rightarrow> (go_error + Stats) \<times> 'r repository" where
  "GetStats_repo rd env d s =
     (case from_cache (GetBytes rd (stats_key d)) s of (x, s1) \<Rightarrow>
        (case Option.bind x unmarshal_stats of
           Some st \<Rightarrow> (Inr st, s1)
         | None \<Rightarrow>
             (case in_store (on_db (GetStats_store env d)) s1 of
                (Inl e, s2) \<Rightarrow> (Inl (Wrap ''failed to get stats: '' e ''''), s2)
              | (Inr st, s2) \<Rightarrow> (Inr st, to_cache rd (stats_key d) (stats_text st) TTLStats s2))))"

definition GetEventTypeId_repo :: "string \<Rightarrow> 'r repository \<Rightarrow> (go_error + int64) \<times> 'r repository" where
  "GetEventTypeId_repo eventType = in_store (GetEventTypeId eventType)"



section \<open>Coherence\<close>

text \<open>What the database holds, apart from the faults to come.\<close>

definition same_db :: "pg \<Rightarrow> pg \<Rightarrow> bool" where
  "same_db d d' \<longleftrightarrow> (\<exists>fs. d' = d\<lparr>faults := fs\<rparr>)"

lemma same_db_refl [simp]: "same_db d d"
  unfolding same_db_def by (rule exI [of _ "faults d"]) simp

lemma same_db_trans: "same_db a b \<Longrightarrow> same_db b c \<Longrightarrow> same_db a c"
  by (auto simp: same_db_def)

lemma same_db_select:
  assumes "same_db d d'"
  shows "select_page u l off d' = select_page u l off d" and "count_events u d' = count_events u d"
    and "select_stats env g d' = select_stats env g d" and "event_types d' = event_types d"
    and "events d' = events d"
proof -
  obtain fs where d': "d' = d\<lparr>faults := fs\<rparr>" using assms by (auto simp: same_db_def)
  have j: "join_type (d\<lparr>faults := fs\<rparr>) = join_type d" by (simp add: join_type_def fun_eq_iff)
  have p: "page_counts env g (d\<lparr>faults := fs\<rparr>) = page_counts env g d" by (simp add: page_counts_def)
  show "select_page u l off d' = select_page u l off d" "count_events u d' = count_events u d"
    "select_stats env g d' = select_stats env g d" "event_types d' = event_types d" "events d' = events d"
    by (simp_all add: d' select_page_def count_events_def select_stats_def top_pages_def j p)
qed

lemma query_frame:
  assumes "query f d = (r, d')"
  shows "same_db d d'" and "r = Inr x \<Longrightarrow> f d' = Inr x"
proof -
  have "same_db d d' \<and> (\<forall>x. r = Inr x \<longrightarrow> f d' = Inr x)"
  proof (cases "faults d")
    case Nil
    then show ?thesis using assms by (auto simp: query_def statement_def)
  next
    case (Cons a fs)
    have "same_db d (d\<lparr>faults := fs\<rparr>)" by (auto simp: same_db_def)
    then show ?thesis using assms Cons by (cases a) (auto simp: query_def statement_def)
  qed
  then show "same_db d d'" "r = Inr x \<Longrightarrow> f d' = Inr x" by auto
qed

lemma in_store_query_frame:
  assumes "in_store (on_db (query f)) s = (r, s')"
  shows "same_db (db (repo_store s)) (db (repo_store s'))" and "repo_cache s' = repo_cache s"
    and "r = Inr x \<Longrightarrow> f (db (repo_store s')) = Inr x"
proof -
  obtain r' d' where q: "query f (db (repo_store s)) = (r', d')" by fastforce
  have e: "r = r'" "s' = s\<lparr>repo_store := (repo_store s)\<lparr>db := d'\<rparr>\<rparr>"
    using assms q by (simp_all add: in_store_def on_db_def)
  show "same_db (db (repo_store s)) (db (repo_store s'))" "repo_cache s' = repo_cache s"
    "r = Inr x \<Longrightarrow> f (db (repo_store s')) = Inr x"
    using query_frame [OF q] by (simp_all add: e)
qed

text \<open>The page that the database holds now.\<close>

definition current_page :: "uint \<Rightarrow> uint \<Rightarrow> int64 option \<Rightarrow> pg \<Rightarrow> PaginatedEvents" where
  "current_page p l u d =
     \<lparr>Data = select_page u (unat l) (unat ((p - 1) * l)) d, Page = p, Limit = l,
      Total = word_of_int (int (count_events u d))\<rparr>"

lemma current_page_same: "same_db d d' \<Longrightarrow> current_page p l u d' = current_page p l u d"
  by (simp only: current_page_def same_db_select)

lemma fetch_page_law:
  assumes "fetch_page p l u s = (r, s')"
  shows "same_db (db (repo_store s)) (db (repo_store s'))" and "repo_cache s' = repo_cache s"
    and "r = Inr pg \<Longrightarrow> pg = current_page p l u (db (repo_store s))"
proof -
  obtain r1 s1 where 1: "in_store (GetPaginated p l u) s = (r1, s1)" by fastforce
  obtain r2 s2 where 2: "in_store (GetTotal u) s1 = (r2, s2)" by fastforce
  have a: "same_db (db (repo_store s)) (db (repo_store s1)) \<and> repo_cache s1 = repo_cache s \<and>
      (\<forall>x. r1 = Inr x \<longrightarrow> x = select_page u (unat l) (unat ((p - 1) * l)) (db (repo_store s)))"
  proof (cases "\<not> fits_int64 l \<or> \<not> fits_int64 ((p - 1) * l)")
    case True
    then have "r1 = Inl high_bit_error" "s1 = s" using 1 by (auto simp: in_store_def GetPaginated_def Let_def)
    then show ?thesis by simp
  next
    case False
    then have q: "in_store (on_db (query (\<lambda>d. Inr (select_page u (unat l) (unat ((p - 1) * l)) d)))) s = (r1, s1)"
      using 1 by (simp add: in_store_def GetPaginated_def Let_def)
    note qf = in_store_query_frame [OF q]
    show ?thesis using qf(1,2) qf(3) [unfolded same_db_select(1) [OF qf(1)]] by blast
  qed
  have b: "same_db (db (repo_store s1)) (db (repo_store s2))" "repo_cache s2 = repo_cache s1"
    using in_store_query_frame(1,2) [OF 2 [unfolded GetTotal_def]] by auto
  have ab: "same_db (db (repo_store s)) (db (repo_store s2))" using a b(1) same_db_trans by blast
  have n: "n = int (count_events u (db (repo_store s)))" if "r2 = Inr n" for n
  proof -
    have "n = int (count_events u (db (repo_store s2)))"
      using in_store_query_frame(3) [OF 2 [unfolded GetTotal_def] that] by simp
    then show ?thesis by (simp only: same_db_select(2) [OF ab])
  qed
  have c: "s' = (case r1 of Inl e \<Rightarrow> s1 | Inr _ \<Rightarrow> s2)"
      "r = (case r1 of Inl e \<Rightarrow> Inl (Wrap ''failed to get paginated events: '' e '''')
              | Inr x \<Rightarrow> (case r2 of Inl e \<Rightarrow> Inl (Wrap ''failed to get total events: '' e '''')
                           | Inr n \<Rightarrow> Inr \<lparr>Data = x, Page = p, Limit = l, Total = word_of_int n\<rparr>))"
    using assms 1 2 by (simp_all add: fetch_page_def split: sum.splits)
  show "same_db (db (repo_store s)) (db (repo_store s'))" "repo_cache s' = repo_cache s"
    using a b(2) ab by (cases r1; simp add: c)+
  assume rp: "r = Inr pg"
  obtain x m where x: "r1 = Inr x" "r2 = Inr m" "pg = \<lparr>Data = x, Page = p, Limit = l, Total = word_of_int m\<rparr>"
    using c(2) rp by (cases r1; cases r2) simp_all
  have "x = select_page u (unat l) (unat ((p - 1) * l)) (db (repo_store s))" using a x(1) by blast
  then show "pg = current_page p l u (db (repo_store s))" using n [OF x(2)] x(3) by (simp add: current_page_def)
qed

text \<open>A database of which no statement will fail.\<close>

definition healthy :: "pg \<Rightarrow> bool" where
  "healthy d \<longleftrightarrow> set (faults d) \<subseteq> {F_ok}"

lemma query_healthy:
  assumes "query f d = (r, d')" and "healthy d"
  shows "healthy d'" and "r = f d'"
proof -
  have "healthy d' \<and> r = f d'"
  proof (cases "faults d")
    case Nil
    then show ?thesis using assms by (auto simp: query_def statement_def)
  next
    case (Cons a fs)
    then have "a = F_ok" "healthy (d\<lparr>faults := fs\<rparr>)" using assms(2) by (simp_all add: healthy_def)
    then show ?thesis using assms(1) Cons by (auto simp: query_def statement_def)
  qed
  then show "healthy d'" "r = f d'" by blast+
qed

lemma in_store_healthy:
  assumes "in_store (on_db (query f)) s = (r, s')" and "healthy (db (repo_store s))"
  shows "healthy (db (repo_store s'))" and "r = f (db (repo_store s'))"
proof -
  obtain r' d' where q: "query f (db (repo_store s)) = (r', d')" by fastforce
  have e: "r = r'" "s' = s\<lparr>repo_store := (repo_store s)\<lparr>db := d'\<rparr>\<rparr>"
    using assms(1) q by (simp_all add: in_store_def on_db_def)
  show "healthy (db (repo_store s'))" "r = f (db (repo_store s'))"
    using query_healthy [OF q assms(2)] by (simp_all add: e)
qed

text \<open>When a read of a page can fail: a statement fails, or a number does not fit the protocol.\<close>

definition page_fails :: "uint \<Rightarrow> uint \<Rightarrow> pg \<Rightarrow> bool" where
  "page_fails p l d \<longleftrightarrow> \<not> healthy d \<or> \<not> fits_int64 l \<or> \<not> fits_int64 ((p - 1) * l)"

lemma fetch_page_fails:
  assumes "fetch_page p l u s = (Inl e, s')"
  shows "page_fails p l (db (repo_store s))"
proof (rule ccontr)
  assume "\<not> page_fails p l (db (repo_store s))"
  then have h: "healthy (db (repo_store s))" "fits_int64 l" "fits_int64 ((p - 1) * l)" by (simp_all add: page_fails_def)
  obtain r1 s1 where 1: "in_store (GetPaginated p l u) s = (r1, s1)" by fastforce
  obtain r2 s2 where 2: "in_store (GetTotal u) s1 = (r2, s2)" by fastforce
  have q: "in_store (on_db (query (\<lambda>d. Inr (select_page u (unat l) (unat ((p - 1) * l)) d)))) s = (r1, s1)"
    using 1 h by (simp add: in_store_def GetPaginated_def Let_def)
  note h1 = in_store_healthy [OF q h(1)]
  note h2 = in_store_healthy [OF 2 [unfolded GetTotal_def] h1(1)]
  show False using assms 1 2 h1(2) h2(2) by (simp add: fetch_page_def)
qed

definition repo_db :: "'r repository \<Rightarrow> pg" where
  "repo_db s = db (repo_store s)"

text \<open>The text that a repository can read under a key.\<close>

definition cached_text :: "('r \<Rightarrow> string \<rightharpoonup> string) \<Rightarrow> 'r repository \<Rightarrow> string \<rightharpoonup> string" where
  "cached_text con s k = (case repo_cache s of None \<Rightarrow> None | Some c \<Rightarrow> entries con c k)"

definition stats_now :: "pg_env \<Rightarrow> pg \<Rightarrow> go_time option \<Rightarrow> go_time option \<Rightarrow> int64 option \<Rightarrow> string \<Rightarrow> bool" where
  "stats_now env d f t i data \<longleftrightarrow>
     (\<exists>f' t'. opt_rfc f' \<and> opt_rfc t' \<and> same_second f f' \<and> same_second t t' \<and>
        stats_text (select_stats env \<lparr>From = f', To = t', gs_TypeID = i\<rparr> d) = Some data)"

text \<open>
  What a cache may hold when every page and every statistics text in it is the answer of one of
  the database states \<open>H\<close>, and its type identifiers are those of the database \<open>d\<close>. A page is the JSON
  text of the page in that state; a statistics text is that of a filter with the same key. A flush
  of the queue does not touch the cache, so the pages can lag behind: with the states of the run so
  far for \<open>H\<close> this is an invariant of the service, with the current state alone it is not.
\<close>

definition answer_of :: "pg_env \<Rightarrow> pg set \<Rightarrow> pg \<Rightarrow> string \<Rightarrow> string \<Rightarrow> bool" where
  "answer_of env H d k x \<longleftrightarrow>
     (\<forall>p l u. k = EventsKey p l u \<longrightarrow> (\<exists>e \<in> H. page_text (current_page p l u e) = Some x)) \<and>
     (\<forall>f t i. opt_rfc f \<longrightarrow> opt_rfc t \<longrightarrow> k = StatsKey f t i \<longrightarrow> (\<exists>e \<in> H. stats_now env e f t i x)) \<and>
     (\<forall>n. k = EventTypeIdKey n \<longrightarrow> (\<exists>i. x = fmt_d (sint i) \<and> (i, n) \<in> set (event_types d)))"

definition cached_from :: "pg_env \<Rightarrow> ('r \<Rightarrow> string \<rightharpoonup> string) \<Rightarrow> pg set \<Rightarrow> 'r repository \<Rightarrow> bool" where
  "cached_from env con H s \<longleftrightarrow> (\<forall>k x. cached_text con s k = Some x \<longrightarrow> answer_of env H (repo_db s) k x)"

text \<open>Nothing in the cache is stale.\<close>

definition coherent :: "pg_env \<Rightarrow> ('r \<Rightarrow> string \<rightharpoonup> string) \<Rightarrow> 'r repository \<Rightarrow> bool" where
  "coherent env con s \<longleftrightarrow> cached_from env con {repo_db s} s"

text \<open>The type identifiers in the cache are those of the table, whatever else the cache holds.\<close>

definition types_ok :: "('r \<Rightarrow> string \<rightharpoonup> string) \<Rightarrow> 'r repository \<Rightarrow> bool" where
  "types_ok con s \<longleftrightarrow>
     (\<forall>n x. cached_text con s (EventTypeIdKey n) = Some x \<longrightarrow>
        (\<exists>i. x = fmt_d (sint i) \<and> (i, n) \<in> set (event_types (repo_db s))))"

lemma cached_from_types: "cached_from env con H s \<Longrightarrow> types_ok con s"
  by (auto simp: cached_from_def types_ok_def answer_of_def)

lemma same_second_sym: "same_second a b \<Longrightarrow> same_second b a"
  by (simp add: same_second_def)

lemma answer_of_mono:
  "answer_of env H d k x \<Longrightarrow> H \<subseteq> H' \<Longrightarrow> set (event_types d) \<subseteq> set (event_types d') \<Longrightarrow> answer_of env H' d' k x"
  unfolding answer_of_def by blast

lemma answer_page: "e \<in> H \<Longrightarrow> page_text (current_page p l u e) = Some x \<Longrightarrow> answer_of env H d (EventsKey p l u) x"
  by (auto simp: answer_of_def EventsKey_inject)

lemma answer_type: "(i, n) \<in> set (event_types d) \<Longrightarrow> answer_of env H d (EventTypeIdKey n) (fmt_d (sint i))"
  by (auto simp: answer_of_def)

lemma answer_stats:
  assumes "e \<in> H" and "opt_rfc (From g)" "opt_rfc (To g)" and "stats_text (select_stats env g e) = Some x"
  shows "answer_of env H d (stats_key g) x"
proof -
  have "stats_now env e f t i x" if "opt_rfc f" "opt_rfc t" "stats_key g = StatsKey f t i" for f t i
  proof -
    have "same_second (From g) f \<and> same_second (To g) t \<and> gs_TypeID g = i"
      using StatsKey_inject [OF assms(2,3) that(1,2)] that(3) by (simp add: stats_key_def)
    then show ?thesis
      unfolding stats_now_def using assms(2-4) same_second_sym
      by (intro exI [of _ "From g"] exI [of _ "To g"]) (cases g, auto)
  qed
  then show ?thesis using assms(1) unfolding answer_of_def by (auto simp: stats_key_def)
qed

text \<open>A read through the cache loses entries at most; a write adds the one written.\<close>

lemma cached_read:
  assumes "from_cache f s = (x, s')" and "\<And>c y c'. f c = (y, c') \<Longrightarrow> entries con c' \<subseteq>\<^sub>m entries con c"
  shows "cached_text con s' k = Some t \<Longrightarrow> cached_text con s k = Some t" and "repo_store s' = repo_store s"
proof -
  show "repo_store s' = repo_store s" using assms(1) by (auto simp: from_cache_def split: option.splits prod.splits)
  show "cached_text con s k = Some t" if t: "cached_text con s' k = Some t"
  proof (cases "repo_cache s")
    case (Some c)
    obtain y c' where f: "f c = (y, c')" by fastforce
    then have "s' = s\<lparr>repo_cache := Some c'\<rparr>" using assms(1) Some by (simp add: from_cache_def)
    then show ?thesis using assms(2) [OF f] Some t by (auto simp: cached_text_def map_le_def dom_def)
  qed (use assms t in \<open>simp add: from_cache_def\<close>)
qed

lemma cached_write:
  assumes "commands_ok rd con" and "cached_text con (to_cache rd key v ttl s) k = Some t"
  shows "cached_text con s k = Some t \<or> k = key \<and> v = Some t"
  using assms(2) Set_cache_law [OF assms(1), of key v ttl _ k t]
  by (cases "repo_cache s") (auto simp: cached_text_def to_cache_def)

lemma to_cache_db [simp]: "repo_store (to_cache rd key v ttl s) = repo_store s" "repo_db (to_cache rd key v ttl s) = repo_db s"
  by (simp_all add: to_cache_def repo_db_def)

lemma bytes_from_cache:
  assumes "commands_ok rd con" and "from_cache (GetBytes rd k) s = (x, s')"
  shows "cached_text con s' j = Some t \<Longrightarrow> cached_text con s j = Some t" and "repo_store s' = repo_store s"
    and "x = Some d \<Longrightarrow> cached_text con s k = Some d"
proof -
  show "cached_text con s' j = Some t \<Longrightarrow> cached_text con s j = Some t" "repo_store s' = repo_store s"
    using cached_read [OF assms(2)] GetBytes_law(1) [OF assms(1)] by blast+
  show "x = Some d \<Longrightarrow> cached_text con s k = Some d"
    using assms(2) GetBytes_law(2) [OF assms(1)] by (auto simp: from_cache_def cached_text_def split: option.splits prod.splits)
qed


section \<open>Reads\<close>

text \<open>What a request adds to the cache: at most one text under its key.\<close>

definition adds_only :: "('r \<Rightarrow> string \<rightharpoonup> string) \<Rightarrow> 'r repository \<Rightarrow> 'r repository \<Rightarrow> string \<Rightarrow> string option \<Rightarrow> bool" where
  "adds_only con s s' key v \<longleftrightarrow>
     (\<forall>k t. cached_text con s' k = Some t \<longrightarrow> cached_text con s k = Some t \<or> k = key \<and> v = Some t)"

lemma adds_only_trans: "adds_only con s s1 key v \<Longrightarrow> adds_only con s1 s2 key v \<Longrightarrow> adds_only con s s2 key v"
  unfolding adds_only_def by blast

lemma adds_only_sub:
  "(\<And>k t. cached_text con s' k = Some t \<Longrightarrow> cached_text con s k = Some t) \<Longrightarrow> adds_only con s s' key v"
  by (simp add: adds_only_def)

lemma adds_only_cache: "repo_cache s' = repo_cache s \<Longrightarrow> adds_only con s s' key v"
  by (simp add: adds_only_def cached_text_def)

lemma adds_only_put: "commands_ok rd con \<Longrightarrow> adds_only con s (to_cache rd key v ttl s) key v"
  unfolding adds_only_def using cached_write by metis

lemma adds_only_from:
  assumes "adds_only con s s' key v" and "cached_from env con H s"
    and "set (event_types (repo_db s)) \<subseteq> set (event_types (repo_db s'))"
    and "\<And>t. v = Some t \<Longrightarrow> answer_of env H (repo_db s') key t"
  shows "cached_from env con H s'"
  unfolding cached_from_def
proof (intro allI impI)
  fix k x assume "cached_text con s' k = Some x"
  then consider "cached_text con s k = Some x" | "k = key" "v = Some x" using assms(1) unfolding adds_only_def by blast
  then show "answer_of env H (repo_db s') k x"
  proof cases
    case 1
    then have "answer_of env H (repo_db s) k x" using assms(2) by (simp add: cached_from_def)
    then show ?thesis by (rule answer_of_mono [OF _ order_refl assms(3)])
  qed (use assms(4) in simp)
qed

text \<open>
  The two kinds of result: the text found under the key, or the page read from the database.
\<close>

definition page_result ::
  "('r \<Rightarrow> string \<rightharpoonup> string) \<Rightarrow> uint \<Rightarrow> uint \<Rightarrow> int64 option \<Rightarrow> 'r repository \<Rightarrow> CachedPaginatedEvents \<Rightarrow> bool" where
  "page_result con p l u s q \<longleftrightarrow>
     (\<exists>t. q = \<lparr>RawJSON = Some t, cp_Data = None\<rparr> \<and> cached_text con s (EventsKey p l u) = Some t) \<or>
     q = \<lparr>RawJSON = None, cp_Data = Some (current_page p l u (repo_db s))\<rparr>"

lemma cached_flight_law:
  assumes "commands_ok rd con" and "cached_flight rd p l u s = (r, s')"
  shows "adds_only con s s' (EventsKey p l u) (page_text (current_page p l u (repo_db s))) \<and> same_db (repo_db s) (repo_db s') \<and>
     (\<forall>x. r = Inr x \<longrightarrow> (\<exists>q. x = Flight_cached q \<and> page_result con p l u s q)) \<and>
     (\<forall>e. r = Inl e \<longrightarrow> page_fails p l (repo_db s))"
proof -
  obtain x s1 where b: "from_cache (GetBytes rd (EventsKey p l u)) s = (x, s1)" by fastforce
  note c1 = bytes_from_cache [OF assms(1) b]
  have a1: "adds_only con s s1 key v" for key v by (rule adds_only_sub) (rule c1(1))
  show ?thesis
  proof (cases x)
    case (Some d)
    then show ?thesis
      using assms(2) b a1 c1(2) c1(3) [OF Some] by (auto simp: cached_flight_def Let_def page_result_def repo_db_def)
  next
    case None
    obtain y s2 where f: "fetch_page p l u s1 = (y, s2)" by fastforce
    note fl = fetch_page_law [OF f]
    have a2: "adds_only con s s2 key v" for key v using adds_only_trans [OF a1 adds_only_cache [OF fl(2)]] .
    have same: "same_db (repo_db s) (repo_db s2)" using fl(1) c1(2) by (simp add: repo_db_def)
    show ?thesis
    proof (cases y)
      case (Inl e)
      then show ?thesis
        using assms(2) b None f a2 same fetch_page_fails [of p l u s1 e s2] c1(2) Inl by (auto simp: cached_flight_def Let_def repo_db_def)
    next
      case (Inr pg)
      have pg: "pg = current_page p l u (repo_db s)" using fl(3) [OF Inr] c1(2) by (simp add: repo_db_def)
      have "adds_only con s (to_cache rd (EventsKey p l u) (page_text pg) TTLEvents s2) (EventsKey p l u) (page_text pg)"
        by (rule adds_only_trans [OF a2 adds_only_put [OF assms(1)]])
      then show ?thesis
        using assms(2) b None f Inr pg same by (auto simp: cached_flight_def Let_def page_result_def)
    qed
  qed
qed

lemma GetPaginatedCached_law:
  assumes "commands_ok rd con"
  shows "\<exists>r s'. GetPaginatedCached rd None p l u s = Some (r, s') \<and>
     adds_only con s s' (EventsKey p l u) (page_text (current_page p l u (repo_db s))) \<and> same_db (repo_db s) (repo_db s') \<and>
     (\<forall>q. r = Inr q \<longrightarrow> page_result con p l u s q) \<and> (\<forall>e. r = Inl e \<longrightarrow> page_fails p l (repo_db s))"
proof -
  obtain x s1 where b: "from_cache (GetBytes rd (EventsKey p l u)) s = (x, s1)" by fastforce
  note c1 = bytes_from_cache [OF assms b]
  have a1: "adds_only con s s1 key v" for key v by (rule adds_only_sub) (rule c1(1))
  show ?thesis
  proof (cases x)
    case (Some d)
    then show ?thesis
      using b a1 c1(2) c1(3) [OF Some] by (simp add: GetPaginatedCached_def page_result_def repo_db_def)
  next
    case None
    obtain r s2 where f: "cached_flight rd p l u s1 = (r, s2)" by fastforce
    have db: "repo_db s1 = repo_db s" using c1(2) by (simp add: repo_db_def)
    note fl = cached_flight_law [OF assms f, unfolded db]
    have pr: "page_result con p l u s q" if "page_result con p l u s1 q" for q
      using that c1(1) db by (auto simp: page_result_def)
    have a2: "adds_only con s s2 (EventsKey p l u) (page_text (current_page p l u (repo_db s)))"
      by (rule adds_only_trans [OF a1]) (use fl in blast)
    show ?thesis
    proof (cases r)
      case (Inl e)
      then show ?thesis using b None f fl a2 by (simp add: GetPaginatedCached_def)
    next
      case (Inr y)
      then obtain q where "y = Flight_cached q" "page_result con p l u s1 q" using fl by blast
      then show ?thesis using b None f fl a2 Inr pr by (simp add: GetPaginatedCached_def)
    qed
  qed
qed

definition demo_repo :: "(string \<times> string) list repository" where
  "demo_repo = NewEventRepository (demo_store []) (Some (NewCache (Some [])))"

lemma demo_repo_empty: "cached_text map_of demo_repo k = None"
  by (simp add: cached_text_def demo_repo_def NewEventRepository_def NewCache_def entries_def)

lemma demo_repo_coherent: "coherent env map_of demo_repo"
  by (simp add: coherent_def cached_from_def demo_repo_empty)

lemma mem_commands_ok: "commands_ok mem_redis map_of"
  using mem_redis_ok by (simp add: redis_ok_def)

text \<open>
  Statistics: the text found under the key, what it decodes to, or the statistics of the database.
\<close>

lemma GetStatsRaw_law:
  assumes "commands_ok rd con"
  shows "\<exists>x s'. GetStatsRaw rd g s = (x, s') \<and> adds_only con s s' key v \<and> repo_db s' = repo_db s \<and>
     (\<forall>t. x = Some t \<longrightarrow> cached_text con s (stats_key g) = Some t)"
proof -
  obtain x s1 where b: "from_cache (GetBytes rd (stats_key g)) s = (x, s1)" by fastforce
  note c1 = bytes_from_cache [OF assms b]
  have "adds_only con s s1 key v" by (rule adds_only_sub) (rule c1(1))
  then show ?thesis using b c1(2,3) by (simp add: GetStatsRaw_def repo_db_def)
qed

lemma GetStats_repo_law:
  assumes "commands_ok rd con"
  shows "\<exists>r s'. GetStats_repo rd env g s = (r, s') \<and>
     adds_only con s s' (stats_key g) (stats_text (select_stats env g (repo_db s))) \<and> same_db (repo_db s) (repo_db s') \<and>
     (\<forall>st. r = Inr st \<longrightarrow> st = select_stats env g (repo_db s) \<or>
        (\<exists>t. cached_text con s (stats_key g) = Some t \<and> unmarshal_stats t = Some st)) \<and>
     (\<forall>e. r = Inl e \<longrightarrow> \<not> healthy (repo_db s))"
proof -
  obtain x s1 where b: "from_cache (GetBytes rd (stats_key g)) s = (x, s1)" by fastforce
  note c1 = bytes_from_cache [OF assms b]
  have a1: "adds_only con s s1 key v" for key v by (rule adds_only_sub) (rule c1(1))
  have db1: "repo_db s1 = repo_db s" using c1(2) by (simp add: repo_db_def)
  show ?thesis
  proof (cases "Option.bind x unmarshal_stats")
    case (Some st)
    then obtain t where "x = Some t" "unmarshal_stats t = Some st" by (cases x) auto
    then show ?thesis using b Some a1 db1 c1(3) by (auto simp: GetStats_repo_def)
  next
    case None
    obtain y s2 where y: "in_store (on_db (GetStats_store env g)) s1 = (y, s2)" by fastforce
    obtain z d2 where q: "query (\<lambda>d'. Inr (select_stats env g d')) (db (repo_store s1)) = (z, d2)" by fastforce
    note qf = query_frame [OF q]
    have s2: "s2 = s1\<lparr>repo_store := (repo_store s1)\<lparr>db := d2\<rparr>\<rparr>"
        "y = (case z of Inl e \<Rightarrow> Inl (Wrap ''failed to get stats: '' e '''') | Inr st \<Rightarrow> Inr st)"
      using y q by (cases z; auto simp: in_store_def on_db_def GetStats_store_def)+
    have same: "same_db (repo_db s) (repo_db s2)" using qf(1) db1 by (simp add: repo_db_def s2)
    have a2: "adds_only con s s2 key v" for key v by (rule adds_only_trans [OF a1 adds_only_cache]) (simp add: s2)
    show ?thesis
    proof (cases z)
      case (Inl e)
      have "\<not> healthy (repo_db s)" using query_healthy [OF q] Inl db1 by (auto simp: repo_db_def)
      then show ?thesis using b None y s2 a2 same Inl by (simp add: GetStats_repo_def)
    next
      case (Inr st)
      have "st = select_stats env g d2" using qf(2) [OF Inr] by simp
      then have st: "st = select_stats env g (repo_db s)"
        using same_db_select(3) [OF qf(1)] db1 by (simp add: repo_db_def)
      have "adds_only con s (to_cache rd (stats_key g) (stats_text st) TTLStats s2) (stats_key g) (stats_text st)"
        by (rule adds_only_trans [OF a2 adds_only_put [OF assms]])
      then show ?thesis using b None y s2 Inr same st by (simp add: GetStats_repo_def)
    qed
  qed
qed

section \<open>Writes\<close>

lemma unmarshal_int64_fmt: "unmarshal_int64 (fmt_d (sint t)) = Some t"
proof -
  have "json_parse (print_json (enc_int64 t)) = Some (enc_int64 t)" by (rule json_parse_print) simp
  then show ?thesis by (simp add: unmarshal_int64_def enc_int64_def) (metis dec_enc_int64 enc_int64_def)
qed

lemma GetOrCreateTypeID_repo_law:
  assumes "commands_ok rd con" and "types_ok con s" and "store_ok (repo_store s)"
  shows "\<exists>r s'. GetOrCreateTypeID_repo rd n s = (r, s') \<and> keeps_store (repo_store s) (repo_store s') \<and>
           events (repo_db s') = events (repo_db s) \<and>
           (\<exists>i. adds_only con s s' (EventTypeIdKey n) (map_option (\<lambda>i. fmt_d (sint i)) i) \<and>
                (\<forall>t. i = Some t \<longrightarrow> (t, n) \<in> set (event_types (repo_db s')))) \<and>
           (\<forall>t. r = Inr t \<longrightarrow> (t, n) \<in> set (event_types (repo_db s')))"
proof -
  obtain x s1 where b: "from_cache (Get_cache rd unmarshal_int64 (EventTypeIdKey n)) s = (x, s1)" by fastforce
  have c1: "\<And>k t. cached_text con s1 k = Some t \<Longrightarrow> cached_text con s k = Some t" "repo_store s1 = repo_store s"
    using cached_read [OF b] Get_cache_law(1) [OF assms(1)] by blast+
  have a1: "adds_only con s s1 key v" for key v by (rule adds_only_sub) (rule c1(1))
  show ?thesis
  proof (cases x)
    case (Some t)
    obtain c c' where c: "repo_cache s = Some c" "Get_cache rd unmarshal_int64 (EventTypeIdKey n) c = (Some t, c')"
      using b Some by (auto simp: from_cache_def split: option.splits prod.splits)
    obtain d where d: "entries con c (EventTypeIdKey n) = Some d" "unmarshal_int64 d = Some t"
      using Get_cache_law(2) [OF assms(1) c(2) refl] by blast
    then obtain t' where "d = fmt_d (sint t')" "(t', n) \<in> set (event_types (repo_db s))"
      using assms(2) c(1) by (auto simp: types_ok_def cached_text_def)
    then have "(t, n) \<in> set (event_types (repo_db s))" using d(2) unmarshal_int64_fmt by simp
    then show ?thesis
      using b Some a1 c1(2) keeps_store_refl [OF assms(3)]
      by (auto simp: GetOrCreateTypeID_repo_def Let_def repo_db_def intro!: exI [of _ None])
  next
    case None
    obtain r st where g: "GetOrCreateTypeID n (repo_store s) = (r, st)" by fastforce
    have law: "store_ok st" "store_le (repo_store s) st" "\<forall>t. r = Inr t \<longrightarrow> (t, n) \<in> set (event_types (db st))"
      using GetOrCreateTypeID_law [OF assms(3) g] by auto
    note ev = GetOrCreateTypeID_events [OF g]
    let ?s2 = "s1\<lparr>repo_store := st\<rparr>"
    have in2: "in_store (GetOrCreateTypeID n) s1 = (r, ?s2)" using g c1(2) by (simp add: in_store_def)
    have a2: "adds_only con s ?s2 key v" for key v by (rule adds_only_trans [OF a1 adds_only_cache]) simp
    have keeps: "keeps_store (repo_store s) st" using law by (simp add: keeps_store_def)
    show ?thesis
    proof (cases r)
      case (Inl e)
      then show ?thesis
        using b None in2 a2 keeps ev
        by (auto simp: GetOrCreateTypeID_repo_def Let_def repo_db_def intro!: exI [of _ None])
    next
      case (Inr t)
      have t: "(t, n) \<in> set (event_types (db st))" using law(3) Inr by blast
      have "adds_only con s (to_cache rd (EventTypeIdKey n) (Some (fmt_d (sint t))) TTLEventTypeId ?s2) (EventTypeIdKey n) (Some (fmt_d (sint t)))"
        by (rule adds_only_trans [OF a2 adds_only_put [OF assms(1)]])
      then show ?thesis
        using b None in2 keeps ev Inr t
        by (auto simp: GetOrCreateTypeID_repo_def Let_def repo_db_def intro!: exI [of _ "Some t"])
    qed
  qed
qed

definition counted_errors :: "'r repository \<Rightarrow> int" where
  "counted_errors s = (case repo_cache s of None \<Rightarrow> 0 | Some c \<Rightarrow> cache_errors c)"

text \<open>After an invalidation without an error no page and no statistics are left.\<close>

definition emptied :: "('r \<Rightarrow> string \<rightharpoonup> string) \<Rightarrow> 'r repository \<Rightarrow> bool" where
  "emptied con s \<longleftrightarrow>
     (\<forall>p l u. cached_text con s (EventsKey p l u) = None) \<and> (\<forall>f t i. cached_text con s (StatsKey f t i) = None)"

lemma emptied_coherent: "types_ok con s \<Longrightarrow> emptied con s \<Longrightarrow> coherent env con s"
  unfolding coherent_def cached_from_def answer_of_def types_ok_def emptied_def by auto

lemma invalidateCaches_law:
  assumes "redis_ok rd con glob"
  shows "\<exists>s'. invalidateCaches rd s = Some s' \<and> repo_store s' = repo_store s \<and> counted_errors s \<le> counted_errors s' \<and>
     adds_only con s s' key v \<and>
     (counted_errors s' = counted_errors s \<longrightarrow> emptied con s')"
proof (cases "repo_cache s")
  case None
  then show ?thesis by (simp add: invalidateCaches_def adds_only_def emptied_def cached_text_def)
next
  case (Some c)
  obtain c1 where 1: "InvalidateEvents rd c = Some c1" "entries con c1 \<subseteq>\<^sub>m entries con c" "cache_errors c \<le> cache_errors c1"
      "cache_errors c1 = cache_errors c \<longrightarrow> (\<forall>k. prefix ''events:'' k \<longrightarrow> entries con c1 k = None)"
    using Invalidate_law(1) [OF assms] by blast
  obtain c2 where 2: "InvalidateStats rd c1 = Some c2" "entries con c2 \<subseteq>\<^sub>m entries con c1" "cache_errors c1 \<le> cache_errors c2"
      "cache_errors c2 = cache_errors c1 \<longrightarrow> (\<forall>k. prefix ''stats:'' k \<longrightarrow> entries con c2 k = None)"
    using Invalidate_law(2) [OF assms] by blast
  have sub: "entries con c k = Some x" if "entries con c2 k = Some x" for k x
    using that 1(2) 2(2) by (metis domI map_le_def)
  have none: "entries con c2 (EventsKey p l u) = None \<and> entries con c2 (StatsKey f t i) = None"
    if e: "cache_errors c2 = cache_errors c" for p l u f t i
  proof -
    have "cache_errors c1 = cache_errors c" "cache_errors c2 = cache_errors c1" using e 1(3) 2(3) by simp_all
    then have "entries con c1 (EventsKey p l u) = None" "entries con c2 (StatsKey f t i) = None"
      using 1(4) 2(4) key_prefixes by blast+
    then show ?thesis using 2(2) by (metis domIff map_le_implies_dom_le subsetD)
  qed
  show ?thesis
    using Some 1(1,3) 2(1,3) none sub
    by (simp add: invalidateCaches_def counted_errors_def adds_only_def emptied_def cached_text_def)
qed

lemma types_ok_sub:
  assumes "types_ok con s" and "adds_only con s s' key None"
    and "set (event_types (repo_db s)) \<subseteq> set (event_types (repo_db s'))"
  shows "types_ok con s'"
  using assms unfolding types_ok_def adds_only_def by blast

lemma InsertEventWithID_keeps: "store_ok s \<Longrightarrow> InsertEventWithID env e s = (r, s') \<Longrightarrow> keeps_store s s'"
  by (auto simp: InsertEventWithID_def split: prod.splits sum.splits dest: insert_statement_keeps)

lemma write_invalidates:
  assumes "redis_ok rd con glob" and "types_ok con s" and "keeps_store (repo_store s) st"
  shows "\<exists>s'. invalidateCaches rd (s\<lparr>repo_store := st\<rparr>) = Some s' \<and> repo_store s' = st \<and> types_ok con s' \<and>
     (counted_errors s' = counted_errors s \<longrightarrow> coherent env con s' \<and> emptied con s')"
proof -
  let ?s = "s\<lparr>repo_store := st\<rparr>"
  obtain s' where s': "invalidateCaches rd ?s = Some s'" "repo_store s' = st" "adds_only con ?s s' [] None"
      "counted_errors s' = counted_errors ?s \<longrightarrow> emptied con s'"
    using invalidateCaches_law [OF assms(1), of ?s "[]" None] by auto
  have "pg_le (db (repo_store s)) (db st)" using assms(3) by (simp add: keeps_store_def store_le_def)
  then have le: "set (event_types (repo_db s)) \<subseteq> set (event_types (repo_db s'))"
    using s'(2) by (simp add: pg_le_def repo_db_def)
  have "adds_only con s s' [] None" using s'(3) by (simp add: adds_only_def cached_text_def)
  then have t: "types_ok con s'" by (rule types_ok_sub [OF assms(2) _ le])
  then have "counted_errors s' = counted_errors s \<longrightarrow> coherent env con s' \<and> emptied con s'"
    using s'(4) emptied_coherent by (auto simp: counted_errors_def)
  then show ?thesis using s'(1,2) t by blast
qed


text \<open>A cache with a stale page: it shows no events although the write adds one.\<close>

definition stale_repo :: "(string \<times> string) list repository" where
  "stale_repo = NewEventRepository ((demo_store [])\<lparr>db := two_users\<lparr>event_types := [(0, ''view'')]\<rparr>\<rparr>)
     (Some (NewCache (Some [(EventsKey 1 20 None, ''{\"data\":null}'')])))"

lemma stale_repo_insert:
  "\<exists>st. InsertEventWithID plain_env (demo_ev 7 1) (repo_store stale_repo) = (None, st) \<and> length (events (db st)) = 1"
  by (simp add: InsertEventWithID_def stale_repo_def NewEventRepository_def store_eval)

lemma mem_invalidate_errors: "invalidateCaches mem_redis s = Some s' \<Longrightarrow> counted_errors s' = counted_errors s"
  by (auto simp: invalidateCaches_def counted_errors_def InvalidateEvents_def InvalidateStats_def
      split: option.splits dest!: mem_DeleteByPattern_errors)


end
