(* ===== verification/Config.thy ===== *)
theory Config
  imports Stores
begin

text \<open>
  The configuration of \<open>src/internal/config/config.go\<close>. The environment is a function from
  names to values; \<open>os.Getenv\<close> gives the empty string for a name that is not set.
\<close>

record Config =
  DatabaseURL :: string
  ServerPort :: string
  AppEnv :: string
  CacheURL :: string
  CachePoolSize :: int
  SnowflakeNodeID :: int64

definition Load :: "(string \<Rightarrow> string) \<Rightarrow> go_error + Config" where
  "Load getenv =
     (let databaseURL = getenv ''DATABASE_URL'';
          serverPort = (if getenv ''SERVER_PORT'' = [] then ''8080'' else getenv ''SERVER_PORT'');
          cachePoolSize =
            (if getenv ''CACHE_POOL_SIZE'' \<noteq> [] then
               (case ParseInt64 (getenv ''CACHE_POOL_SIZE'') of
                  Some n \<Rightarrow> if n > 0 then n else 10
                | None \<Rightarrow> 10)
             else 10);
          snowflakeNodeID =
            (if getenv ''SNOWFLAKE_NODE_ID'' \<noteq> [] then
               (case ParseInt64 (getenv ''SNOWFLAKE_NODE_ID'') of
                  Some i \<Rightarrow> if i \<ge> 0 \<and> i \<le> 1023 then word_of_int i else 1
                | None \<Rightarrow> 1)
             else 1)
      in if databaseURL = [] then Inl (Errorf ''DATABASE_URL is required'')
         else Inr \<lparr>DatabaseURL = databaseURL, ServerPort = serverPort, AppEnv = getenv ''APP_ENV'',
                   CacheURL = getenv ''CACHE_URL'', CachePoolSize = cachePoolSize,
                   SnowflakeNodeID = snowflakeNodeID\<rparr>)"

lemma Load_store:
  assumes "Load getenv = Inr cfg"
  shows "0 \<le> sint (SnowflakeNodeID cfg) \<and> sint (SnowflakeNodeID cfg) \<le> 1023"
    and "\<exists>st. NewEventStore d (SnowflakeNodeID cfg) = Some st \<and> db st = d \<and> typeCache st = Map.empty"
proof -
  show node: "0 \<le> sint (SnowflakeNodeID cfg) \<and> sint (SnowflakeNodeID cfg) \<le> 1023"
    using assms by (auto simp: Load_def Let_def sint_word_of_int64 split: if_splits option.splits)
  then obtain sf where "New_sf (SnowflakeNodeID cfg) = Inr sf"
    by (auto simp: New_sf_def NewWithEpoch_def word_sless_alt max_eqs)
  then show "\<exists>st. NewEventStore d (SnowflakeNodeID cfg) = Some st \<and> db st = d \<and> typeCache st = Map.empty"
    by (simp add: NewEventStore_def)
qed

text \<open>
  C38. A configuration that loads is well-formed: it has a database URL and a port, a positive pool
  size, and a node number in the range of the identifier generator, so that building the event
  store from it does not panic, whatever the environment holds.
\<close>

theorem config_well_formed:
  assumes "Load getenv = Inr cfg"
  shows "DatabaseURL cfg \<noteq> [] \<and> ServerPort cfg \<noteq> [] \<and> 0 < CachePoolSize cfg \<and>
         0 \<le> sint (SnowflakeNodeID cfg) \<and> sint (SnowflakeNodeID cfg) \<le> 1023 \<and>
         (\<exists>st. NewEventStore d (SnowflakeNodeID cfg) = Some st \<and> db st = d \<and> typeCache st = Map.empty)"
  using assms Load_store [OF assms] by (auto simp: Load_def Let_def split: if_splits option.splits)

theorem config_well_formed_witness:
  "\<exists>cfg st. Load (\<lambda>v. if v = ''DATABASE_URL'' then ''postgres://db'' else if v = ''SNOWFLAKE_NODE_ID'' then ''4096'' else []) = Inr cfg \<and>
     NewEventStore two_users (SnowflakeNodeID cfg) = Some st"
proof -
  let ?env = "\<lambda>v. if v = ''DATABASE_URL'' then ''postgres://db'' else if v = ''SNOWFLAKE_NODE_ID'' then ''4096'' else []"
  obtain cfg where cfg: "Load ?env = Inr cfg" by (simp add: Load_def Let_def)
  show ?thesis using config_well_formed [OF cfg, of two_users] cfg by blast
qed

end
