(* ===== verification/Pagination.thy ===== *)
theory Pagination
  imports Models
begin

text \<open>
  The HTTP request as the handlers see it, the query parameters of \<open>net/url\<close>, and the
  pagination parameters of \<open>src/pkg/pagination/pagination.go\<close>. The limit that \<open>net/url\<close>
  puts on the number of parameters is not modelled.
\<close>


section \<open>Requests\<close>

text \<open>The path, decoded and as \<open>URL.EscapedPath\<close> gives it.\<close>

record request =
  Method :: string
  URL_Path :: string
  EscapedPath :: string
  RawQuery :: string
  Body :: string


section \<open>Query parameters\<close>

text \<open>\<open>strings.Cut\<close>: the text before and after the first separator.\<close>

definition cut :: "char \<Rightarrow> string \<Rightarrow> string \<times> string" where
  "cut c s = (takeWhile (\<lambda>x. x \<noteq> c) s, drop 1 (dropWhile (\<lambda>x. x \<noteq> c) s))"

fun split_on :: "char \<Rightarrow> string \<Rightarrow> string list" where
  "split_on c [] = [[]]"
| "split_on c (x # xs) =
     (if x = c then [] # split_on c xs
      else case split_on c xs of [] \<Rightarrow> [[x]] | y # ys \<Rightarrow> (x # y) # ys)"

definition hex_nibble :: "char \<Rightarrow> nat option" where
  "hex_nibble c =
     (let b = (of_char c :: nat) in
      if 48 \<le> b \<and> b \<le> 57 then Some (b - 48)
      else if 97 \<le> b \<and> b \<le> 102 then Some (b - 87)
      else if 65 \<le> b \<and> b \<le> 70 then Some (b - 55) else None)"

text \<open>\<open>url.QueryUnescape\<close>; \<open>None\<close> is the error of a malformed escape.\<close>

fun QueryUnescape :: "string \<Rightarrow> string option" where
  "QueryUnescape [] = Some []"
| "QueryUnescape (c # cs) =
     (if c = CHR ''%'' then
        (case cs of
           a # b # ds \<Rightarrow>
             (case (hex_nibble a, hex_nibble b) of
                (Some x, Some y) \<Rightarrow> map_option ((#) (char_of (16 * x + y))) (QueryUnescape ds)
              | _ \<Rightarrow> None)
         | _ \<Rightarrow> None)
      else map_option ((#) (if c = CHR ''+'' then CHR '' '' else c)) (QueryUnescape cs))"

definition query_pair :: "string \<Rightarrow> (string \<times> string) option" where
  "query_pair seg =
     (if seg = [] \<or> CHR '';'' \<in> set seg then None
      else case cut (CHR ''='') seg of (k, v) \<Rightarrow>
        (case (QueryUnescape k, QueryUnescape v) of
           (Some k', Some v') \<Rightarrow> Some (k', v')
         | _ \<Rightarrow> None))"

text \<open>\<open>r.URL.Query().Get(key)\<close>: the first value, the empty string when there is none.\<close>

definition query_get :: "request \<Rightarrow> string \<Rightarrow> string" where
  "query_get r key =
     (case map_of (List.map_filter query_pair (split_on (CHR ''&'') (RawQuery r))) key of
        None \<Rightarrow> []
      | Some v \<Rightarrow> v)"


section \<open>Pagination\<close>

definition DefaultPage :: int where "DefaultPage = 1"
definition DefaultLimit :: int where "DefaultLimit = 20"
definition MaxLimit :: int where "MaxLimit = 100"

record Params =
  p_Page :: uint
  p_Limit :: uint

definition ParseFromRequest :: "request \<Rightarrow> Params" where
  "ParseFromRequest r =
     (let page = (case ParseInt64 (query_get r ''page'') of
                    Some p \<Rightarrow> if p \<ge> 1 then p else DefaultPage
                  | None \<Rightarrow> DefaultPage);
          limit = (case ParseInt64 (query_get r ''limit'') of
                     Some l \<Rightarrow> if l \<ge> 1 then (if l > MaxLimit then MaxLimit else l) else DefaultLimit
                   | None \<Rightarrow> DefaultLimit)
      in \<lparr>p_Page = word_of_int page, p_Limit = word_of_int limit\<rparr>)"

lemma unat_of_small: "1 \<le> i \<Longrightarrow> i < 2 ^ 63 \<Longrightarrow> unat (word_of_int i :: uint) = nat i"
  by (simp add: unat_eq_nat_uint uint_word_of_int)

lemma ParseFromRequest_bounds:
  "1 \<le> unat (p_Page (ParseFromRequest r)) \<and> unat (p_Page (ParseFromRequest r)) < 2 ^ 63 \<and>
   1 \<le> unat (p_Limit (ParseFromRequest r)) \<and> unat (p_Limit (ParseFromRequest r)) \<le> 100"
proof -
  define page where "page = (case ParseInt64 (query_get r ''page'') of
      Some p \<Rightarrow> if p \<ge> 1 then p else DefaultPage | None \<Rightarrow> DefaultPage)"
  define limit where "limit = (case ParseInt64 (query_get r ''limit'') of
      Some l \<Rightarrow> if l \<ge> 1 then (if l > MaxLimit then MaxLimit else l) else DefaultLimit | None \<Rightarrow> DefaultLimit)"
  have "1 \<le> page" "page < 2 ^ 63"
    using ParseInt64_range [of "query_get r ''page''"]
    by (auto simp: page_def DefaultPage_def split: option.splits)
  moreover have "1 \<le> limit" "limit \<le> 100"
    by (auto simp: limit_def DefaultLimit_def MaxLimit_def split: option.splits)
  ultimately show ?thesis
    unfolding ParseFromRequest_def Let_def page_def [symmetric] limit_def [symmetric]
    by (simp add: unat_of_small nat_less_iff Suc_le_eq nat_le_iff)
qed

text \<open>
  C37. The pagination parameters are always usable: whatever the query string holds, the page is
  between 1 and \<open>2\<^sup>6\<^sup>3 - 1\<close> and the limit between 1 and 100; a page number and a limit in range
  that the request states are taken as they are.
\<close>

theorem pagination_bounds:
  "1 \<le> unat (p_Page (ParseFromRequest r)) \<and> unat (p_Page (ParseFromRequest r)) < 2 ^ 63 \<and>
   1 \<le> unat (p_Limit (ParseFromRequest r)) \<and> unat (p_Limit (ParseFromRequest r)) \<le> 100 \<and>
   (query_get r ''page'' = fmt_nat (Suc n) \<and> Suc n < 2 ^ 63 \<longrightarrow> unat (p_Page (ParseFromRequest r)) = Suc n) \<and>
   (query_get r ''limit'' = fmt_nat (Suc k) \<and> Suc k \<le> 100 \<longrightarrow> unat (p_Limit (ParseFromRequest r)) = Suc k)"
proof -
  have f: "ParseInt64 (fmt_nat m) = Some (int m)" if "m < 2 ^ 63" for m
    using ParseInt64_fmt_d [of "int m"] that by (simp add: fmt_d_def nat_less_iff)
  have "unat (p_Page (ParseFromRequest r)) = Suc n"
    if "query_get r ''page'' = fmt_nat (Suc n)" "Suc n < 2 ^ 63"
    using that f [of "Suc n"] unat_of_small [of "1 + int n"] by (simp add: ParseFromRequest_def Let_def)
  moreover have "unat (p_Limit (ParseFromRequest r)) = Suc k"
    if "query_get r ''limit'' = fmt_nat (Suc k)" "Suc k \<le> 100"
    using that f [of "Suc k"] unat_of_small [of "1 + int k"] by (simp add: ParseFromRequest_def Let_def MaxLimit_def)
  ultimately show ?thesis using ParseFromRequest_bounds [of r] by blast
qed

definition demo_request :: request where
  "demo_request = \<lparr>Method = ''GET'', URL_Path = ''/events'', EscapedPath = ''/events'', RawQuery = ''page=3'', Body = []\<rparr>"

theorem pagination_bounds_witness:
  "unat (p_Page (ParseFromRequest demo_request)) = 3 \<and> unat (p_Limit (ParseFromRequest demo_request)) \<le> 100"
proof -
  have "fmt_nat 3 = ''3''" by code_simp
  then have "query_get demo_request ''page'' = fmt_nat (Suc 2)"
    by (simp add: query_get_def demo_request_def query_pair_def cut_def map_filter_simps)
  then show ?thesis using pagination_bounds [of demo_request 2 0] by simp
qed

end
