(* ===== verification/Handlers.thy ===== *)
theory Handlers
  imports Repositories Pagination
begin

text \<open>
  The HTTP handlers: \<open>src/internal/handlers/handlers.go\<close>, \<open>events.go\<close> and \<open>stats.go\<close>
  there. A handler maps a request and the state of the service to a response and the new state;
  \<open>None\<close> means that it panics or does not return. The response is its status and its body; the
  content type is always JSON.
\<close>


section \<open>Responses\<close>

record response =
  resp_status :: nat
  resp_body :: string

definition StatusOK :: nat where "StatusOK = 200"
definition StatusCreated :: nat where "StatusCreated = 201"
definition StatusAccepted :: nat where "StatusAccepted = 202"
definition StatusBadRequest :: nat where "StatusBadRequest = 400"
definition StatusInternalServerError :: nat where "StatusInternalServerError = 500"

lemmas status_defs = StatusOK_def StatusCreated_def StatusAccepted_def StatusBadRequest_def
  StatusInternalServerError_def

definition newline :: string where "newline = [char_of (10 :: nat)]"

text \<open>
  \<open>json.NewEncoder(w).Encode(payload)\<close> writes the text and a line feed; when the payload
  cannot be marshalled it writes nothing, and the status has been sent already.
\<close>

definition respondWithJson :: "nat \<Rightarrow> string option \<Rightarrow> response" where
  "respondWithJson code payload =
     \<lparr>resp_status = code, resp_body = (case payload of None \<Rightarrow> [] | Some t \<Rightarrow> t @ newline)\<rparr>"

definition respondWithJsonBytes :: "nat \<Rightarrow> string \<Rightarrow> response" where
  "respondWithJsonBytes code payload = \<lparr>resp_status = code, resp_body = payload\<rparr>"

definition respondWithError :: "nat \<Rightarrow> go_error \<Rightarrow> response" where
  "respondWithError code err = respondWithJson code (Some (error_body (error_text err)))"


section \<open>State\<close>

text \<open>
  The repositories share the store; the queue writes to the same store from its own goroutine, so
  the store that counts is the one of the repository.
\<close>

record ('r, 'db) Handlers =
  repo :: "'r repository"
  eventQueue :: "(EventStore, 'db) EventQueue option"

definition NewHandlers :: "'r repository \<Rightarrow> ('r, 'db) Handlers" where
  "NewHandlers rp = \<lparr>repo = rp, eventQueue = None\<rparr>"

definition SetEventQueue :: "(EventStore, 'db) EventQueue \<Rightarrow> ('r, 'db) Handlers \<Rightarrow> ('r, 'db) Handlers" where
  "SetEventQueue eq h = h\<lparr>eventQueue := Some eq\<rparr>"

text \<open>
  What a call sees of its surroundings: the database server, the clock of the identifier
  generator, the readings of the wall clock in \<open>Enqueue\<close> and in the handler, the offset of the
  local time zone, and the result of a call in flight for the same page.
\<close>

record call_env =
  ce_pg :: pg_env
  ce_clock :: clock
  ce_enqueued :: int64
  ce_now :: int
  ce_zone :: int
  ce_inflight :: "(go_error + flight_result) option"


section \<open>Lists of events\<close>

definition page_response :: "go_error + CachedPaginatedEvents \<Rightarrow> response" where
  "page_response r =
     (case r of
        Inl e \<Rightarrow> respondWithError StatusInternalServerError e
      | Inr p \<Rightarrow>
          if IsCached p then respondWithJsonBytes StatusOK (the (RawJSON p))
          else respondWithJson StatusOK
            (case cp_Data p of None \<Rightarrow> Some ''null'' | Some d \<Rightarrow> page_text d))"

definition GetEventsPaginated ::
  "('r, 'it) redis \<Rightarrow> call_env \<Rightarrow> request \<Rightarrow> ('r, 'db) Handlers \<Rightarrow> (response \<times> ('r, 'db) Handlers) option" where
  "GetEventsPaginated rd ce req h =
     (let params = ParseFromRequest req in
      case GetPaginatedCached rd (ce_inflight ce) (p_Page params) (p_Limit params) None (repo h) of
        None \<Rightarrow> None
      | Some (r, rp) \<Rightarrow> Some (page_response r, h\<lparr>repo := rp\<rparr>))"

text \<open>The match of the regular expression \<open>^/users/([^/]+)/events$\<close>.\<close>

definition match_user_events :: "string \<Rightarrow> string option" where
  "match_user_events pth =
     (let mid = take (length pth - 14) (drop 7 pth) in
      if length pth > 14 \<and> take 7 pth = ''/users/'' \<and> drop (length pth - 7) pth = ''/events'' \<and>
         CHR ''/'' \<notin> set mid
      then Some mid else None)"

definition GetUserEventsPaginated ::
  "('r, 'it) redis \<Rightarrow> call_env \<Rightarrow> request \<Rightarrow> ('r, 'db) Handlers \<Rightarrow> (response \<times> ('r, 'db) Handlers) option" where
  "GetUserEventsPaginated rd ce req h =
     (let params = ParseFromRequest req in
      case match_user_events (URL_Path req) of
        None \<Rightarrow> Some (respondWithError StatusBadRequest (New ''invalid URL format''), h)
      | Some userIDStr \<Rightarrow>
          (case ParseInt64 userIDStr of
             None \<Rightarrow> Some (respondWithError StatusBadRequest (New ''invalid user id''), h)
           | Some userID \<Rightarrow>
               if userID \<le> 0 then Some (respondWithError StatusBadRequest (New ''invalid user id''), h)
               else case GetPaginatedCached rd (ce_inflight ce) (p_Page params) (p_Limit params)
                           (Some (word_of_int userID)) (repo h) of
                 None \<Rightarrow> None
               | Some (r, rp) \<Rightarrow> Some (page_response r, h\<lparr>repo := rp\<rparr>)))"


section \<open>Creating an event\<close>

text \<open>
  A call of \<open>Enqueue\<close> that no other goroutine interrupts: the call enters and takes its six
  steps.
\<close>

definition Enqueue_alone ::
  "int64 \<Rightarrow> string \<Rightarrow> string option \<Rightarrow> int64 \<Rightarrow> int64 \<Rightarrow> ('s, 'db) EventQueue
   \<Rightarrow> (EnqueueResult \<times> ('s, 'db) EventQueue) option" where
  "Enqueue_alone u t m i now eq =
     (let k = length (enq_calls eq) in
      case ((\<lambda>x. Option.bind x (Enqueue_step k now)) ^^ 6)
             (Some (eq\<lparr>enq_calls := enq_calls eq @ [E_check u t m i]\<rparr>)) of
        None \<Rightarrow> None
      | Some eq' \<Rightarrow>
          (case enq_calls eq' ! k of
             E_return r \<Rightarrow> Some (r, eq')
           | _ \<Rightarrow> None))"

text \<open>\<open>errors.As(err, &pqErr)\<close>: the code of the first server error in the chain.\<close>

fun pq_code :: "go_error \<Rightarrow> string option" where
  "pq_code (Ext c m) = Some c"
| "pq_code (Wrap p e s) = pq_code e"
| "pq_code _ = None"

definition insert_error_response :: "go_error \<Rightarrow> response" where
  "insert_error_response err =
     (if pq_code err = Some ''23503'' then respondWithError StatusBadRequest (New ''invalid user_id'')
      else respondWithError StatusInternalServerError err)"

definition insertEventSyncAndRespond ::
  "('r, 'it) redis \<Rightarrow> call_env \<Rightarrow> CreateEventInput \<Rightarrow> int64 \<Rightarrow> string \<Rightarrow> ('r, 'db) Handlers
   \<Rightarrow> (response \<times> ('r, 'db) Handlers) option" where
  "insertEventSyncAndRespond rd ce input eventID metadata h =
     (case GetOrCreateTypeID_repo rd (in_Type input) (repo h) of
        (Inl e, rp) \<Rightarrow>
          Some (respondWithError StatusInternalServerError (Wrap ''failed to get type ID: '' e ''''), h\<lparr>repo := rp\<rparr>)
      | (Inr typeID, rp) \<Rightarrow>
          let ev = \<lparr>ID = eventID, ev_UserID = in_UserID input, TypeID = typeID, ev_Timestamp = ce_now ce,
                    ev_Metadata = Some metadata, Type = in_Type input\<rparr>
          in case InsertEventWithID_repo rd (ce_pg ce) ev rp of
               None \<Rightarrow> None
             | Some (Some err, rp') \<Rightarrow> Some (insert_error_response err, h\<lparr>repo := rp'\<rparr>)
             | Some (None, rp') \<Rightarrow>
                 Some (respondWithJson StatusAccepted (event_data_text (ce_zone ce) ev), h\<lparr>repo := rp'\<rparr>))"

definition createEventAsync ::
  "('r, 'it) redis \<Rightarrow> call_env \<Rightarrow> CreateEventInput \<Rightarrow> nat \<Rightarrow> (EventStore, 'db) EventQueue \<Rightarrow> ('r, 'db) Handlers
   \<Rightarrow> (response \<times> ('r, 'db) Handlers \<times> nat) option" where
  "createEventAsync rd ce input k eq h =
     (case GenerateEventID_repo (ce_clock ce) k (repo h) of
        None \<Rightarrow> None
      | Some (Inl e, rp, k') \<Rightarrow>
          Some (respondWithError StatusInternalServerError (Wrap ''failed to generate event ID: '' e ''''),
                h\<lparr>repo := rp\<rparr>, k')
      | Some (Inr eventID, rp, k') \<Rightarrow>
          let metadata = or_empty_object (in_Metadata input); h1 = h\<lparr>repo := rp\<rparr> in
          case Enqueue_alone (in_UserID input) (in_Type input) (Some metadata) eventID (ce_enqueued ce) eq of
            None \<Rightarrow> None
          | Some (result, eq') \<Rightarrow>
              let h2 = h1\<lparr>eventQueue := Some eq'\<rparr> in
              (case er_Error result of
                 Some err \<Rightarrow>
                   if errors_Is err ErrQueueFull \<or> errors_Is err ErrQueueChannelFull
                   then map_option (\<lambda>(r, h3). (r, h3, k'))
                          (insertEventSyncAndRespond rd ce input eventID metadata h2)
                   else Some (respondWithError StatusInternalServerError err, h2, k')
               | None \<Rightarrow>
                   (case InvalidateCaches rd rp of
                      None \<Rightarrow> None
                    | Some rp' \<Rightarrow>
                        Some (respondWithJson StatusAccepted (event_data_text (ce_zone ce)
                                \<lparr>ID = er_EventID result, ev_UserID = in_UserID input, TypeID = 0,
                                 ev_Timestamp = QueuedAt result, ev_Metadata = Some metadata,
                                 Type = in_Type input\<rparr>),
                              h2\<lparr>repo := rp'\<rparr>, k'))))"

definition createEventSync ::
  "('r, 'it) redis \<Rightarrow> call_env \<Rightarrow> CreateEventInput \<Rightarrow> nat \<Rightarrow> ('r, 'db) Handlers
   \<Rightarrow> (response \<times> ('r, 'db) Handlers \<times> nat) option" where
  "createEventSync rd ce input k h =
     (case CreateEventWithType_repo rd (ce_pg ce) (ce_clock ce) (in_UserID input) (in_Type input)
             (in_Metadata input) k (repo h) of
        None \<Rightarrow> None
      | Some (Inl err, rp, k') \<Rightarrow> Some (insert_error_response err, h\<lparr>repo := rp\<rparr>, k')
      | Some (Inr ev, rp, k') \<Rightarrow> Some (respondWithJson StatusCreated (event_text 0 ev), h\<lparr>repo := rp\<rparr>, k'))"

definition CreateEvent ::
  "('r, 'it) redis \<Rightarrow> call_env \<Rightarrow> request \<Rightarrow> nat \<Rightarrow> ('r, 'db) Handlers
   \<Rightarrow> (response \<times> ('r, 'db) Handlers \<times> nat) option" where
  "CreateEvent rd ce req k h =
     (case decode_input (Body req) of
        None \<Rightarrow> Some (respondWithError StatusBadRequest (New ''invalid request body''), h, k)
      | Some input \<Rightarrow>
          if in_Type input = [] then Some (respondWithError StatusBadRequest (New ''event_type is required''), h, k)
          else if sint (in_UserID input) \<le> 0
          then Some (respondWithError StatusBadRequest (New ''invalid user id''), h, k)
          else case eventQueue h of
            Some eq \<Rightarrow> createEventAsync rd ce input k eq h
          | None \<Rightarrow> createEventSync rd ce input k h)"


section \<open>Statistics\<close>

definition parseTimestamp :: "string \<Rightarrow> go_error + go_time option" where
  "parseTimestamp s =
     (if s = [] then Inr None
      else case parse_RFC3339 s of
        Some t \<Rightarrow> Inr (Some t)
      | None \<Rightarrow>
          (case parse_literal_Z s of
             Some t \<Rightarrow> Inr (Some t)
           | None \<Rightarrow> Inl (New ''invalid date format'')))"

definition type_not_found :: "string \<Rightarrow> go_error \<Rightarrow> go_error" where
  "type_not_found t e = Wrap (''event type '' @ [CHR 0x27] @ t @ [CHR 0x27] @ '' not found: '') e ''''"

text \<open>The lookup of the type, when the request names one.\<close>

definition lookup_type :: "string \<Rightarrow> 'r repository \<Rightarrow> (go_error + int64 option) \<times> 'r repository" where
  "lookup_type t rp =
     (if t = [] then (Inr None, rp)
      else case GetEventTypeId_repo t rp of
        (Inl e, rp') \<Rightarrow> (Inl (type_not_found t e), rp')
      | (Inr i, rp') \<Rightarrow> (Inr (Some i), rp'))"

definition GetStats_handler ::
  "('r, 'it) redis \<Rightarrow> call_env \<Rightarrow> request \<Rightarrow> ('r, 'db) Handlers \<Rightarrow> response \<times> ('r, 'db) Handlers" where
  "GetStats_handler rd ce req h =
     (case parseTimestamp (query_get req ''from'') of
        Inl e \<Rightarrow> (respondWithError StatusBadRequest e, h)
      | Inr fromTime \<Rightarrow>
          (case parseTimestamp (query_get req ''to'') of
             Inl e \<Rightarrow> (respondWithError StatusBadRequest e, h)
           | Inr toTime \<Rightarrow>
               (case lookup_type (query_get req ''type'') (repo h) of
                  (Inl e, rp) \<Rightarrow> (respondWithError StatusBadRequest e, h\<lparr>repo := rp\<rparr>)
                | (Inr typeID, rp) \<Rightarrow>
                    let d = \<lparr>From = fromTime, To = toTime, gs_TypeID = typeID\<rparr> in
                    (case GetStatsRaw rd d rp of
                       (Some cachedBytes, rp1) \<Rightarrow> (respondWithJsonBytes StatusOK cachedBytes, h\<lparr>repo := rp1\<rparr>)
                     | (None, rp1) \<Rightarrow>
                         (case GetStats_repo rd (ce_pg ce) d rp1 of
                            (Inl e, rp2) \<Rightarrow> (respondWithError StatusInternalServerError e, h\<lparr>repo := rp2\<rparr>)
                          | (Inr st, rp2) \<Rightarrow> (respondWithJson StatusOK (stats_text st), h\<lparr>repo := rp2\<rparr>))))))"



section \<open>The undisturbed Enqueue\<close>

definition pending_of :: "int64 \<Rightarrow> string \<Rightarrow> string option \<Rightarrow> int64 \<Rightarrow> int64 \<Rightarrow> PendingEvent" where
  "pending_of u t m i now = \<lparr>EventID = i, UserID = u, EventType = t, Metadata = m, EnqueuedAt = now\<rparr>"

lemma pending_of_sel [simp]:
  "EventID (pending_of u t m i now) = i" "UserID (pending_of u t m i now) = u"
  "EventType (pending_of u t m i now) = t" "Metadata (pending_of u t m i now) = m"
  "EnqueuedAt (pending_of u t m i now) = now"
  by (simp_all add: pending_of_def)

text \<open>Neither the counter nor the channel is at the capacity.\<close>

definition has_room :: "('s, 'db) EventQueue \<Rightarrow> bool" where
  "has_room eq \<longleftrightarrow> currentDepth eq < MaxSize (config eq) \<and> int (length (eventCh eq)) < MaxSize (config eq)"

lemma Enqueue_alone_law:
  assumes "q_inv eq" and "lock_free eq"
  obtains (halted) eq' where "stopped eq" "Enqueue_alone u t m i now eq = Some (enqueue_error ErrQueueStopped, eq')" "eventCh eq' = eventCh eq"
    | (full) e eq' where "\<not> stopped eq" "\<not> has_room eq" "Enqueue_alone u t m i now eq = Some (enqueue_error e, eq')"
      "eventCh eq' = eventCh eq" "errors_Is e ErrQueueFull \<or> errors_Is e ErrQueueChannelFull"
    | (accepted) d eq' where "\<not> stopped eq" "has_room eq"
      "Enqueue_alone u t m i now eq = Some (\<lparr>er_EventID = i, QueuedAt = sint now, QueueDepth = d, er_Error = None\<rparr>, eq')"
      "eventCh eq' = eventCh eq @ [pending_of u t m i now]"
proof -
  have lf: "list_all (\<lambda>c. \<not> locked c) (enq_calls eq)"
    using assms(2) by (simp add: lock_free_def)
  have pe: "\<exists>p' n. EnqueueAsync (pending_of u t m i now) p = Some (p', n)" if "persistence eq = Some p" for p
    using assms(1) that enqueue_inv [of p "pending_of u t m i now"] by (auto simp: q_inv_def call_inv_def)
  note ev = Enqueue_alone_def Enqueue_step_def set_call_def lock_free_def lf eval_nat_numeral Let_def
    pending_of_def [symmetric]
  consider "stopped eq" | "\<not> stopped eq" "MaxSize (config eq) \<le> currentDepth eq"
    | "\<not> stopped eq" "\<not> MaxSize (config eq) \<le> currentDepth eq" "MaxSize (config eq) \<le> int (length (eventCh eq))"
    | "\<not> stopped eq" "\<not> MaxSize (config eq) \<le> currentDepth eq" "\<not> MaxSize (config eq) \<le> int (length (eventCh eq))"
    by blast
  then show ?thesis
  proof cases
    case 1
    then have "Enqueue_alone u t m i now eq = Some (enqueue_error ErrQueueStopped,
        eq\<lparr>enq_calls := enq_calls eq @ [E_return (enqueue_error ErrQueueStopped)]\<rparr>)"
      by (simp add: ev)
    then show ?thesis by (rule halted [OF 1]) simp
  next
    case 2
    let ?e = "full_error (currentDepth eq) (MaxSize (config eq))"
    have "Enqueue_alone u t m i now eq = Some (enqueue_error ?e, eq\<lparr>enq_calls := enq_calls eq @ [E_return (enqueue_error ?e)]\<rparr>)"
      using 2 by (simp add: ev)
    moreover have "errors_Is ?e ErrQueueFull" by (simp add: full_error_def)
    moreover have "\<not> has_room eq" using 2(2) by (simp add: has_room_def)
    ultimately show ?thesis by (elim full [OF 2(1), rotated]) simp_all
  next
    case 3
    obtain eq' where "Enqueue_alone u t m i now eq = Some (enqueue_error ErrQueueChannelFull, eq')" "eventCh eq' = eventCh eq"
    proof (cases "persistence eq")
      case None
      then show ?thesis using 3 that by (simp add: ev)
    next
      case (Some p)
      then obtain p' n where "EnqueueAsync (pending_of u t m i now) p = Some (p', n)" using pe by blast
      then show ?thesis using 3 Some that by (simp add: ev)
    qed
    moreover have "\<not> has_room eq" using 3(3) by (simp add: has_room_def)
    ultimately show ?thesis by (elim full [OF 3(1), rotated]) simp_all
  next
    case 4
    obtain d eq' where
      "Enqueue_alone u t m i now eq = Some (\<lparr>er_EventID = i, QueuedAt = sint now, QueueDepth = d, er_Error = None\<rparr>, eq')"
      "eventCh eq' = eventCh eq @ [pending_of u t m i now]"
    proof (cases "persistence eq")
      case None
      then show ?thesis using 4 that by (simp add: ev)
    next
      case (Some p)
      then obtain p' n where "EnqueueAsync (pending_of u t m i now) p = Some (p', n)" using pe by blast
      then show ?thesis using 4 Some that by (simp add: ev)
    qed
    moreover have "has_room eq" using 4(2,3) by (simp add: has_room_def)
    ultimately show ?thesis by (elim accepted [OF 4(1), rotated])
  qed
qed


section \<open>Creating an event\<close>

lemma invalidateCaches_store: "invalidateCaches rd s = Some s' \<Longrightarrow> repo_store s' = repo_store s"
  by (auto simp: invalidateCaches_def split: option.splits)

lemma insert_stored:
  assumes "InsertEventWithID env e s = (None, s')" and "(TypeID e, Type e) \<in> set (event_types (db s))"
  shows "stored env s' e"
proof -
  obtain x where x: "on_db (statement (insert_events env [(ID e, ev_UserID e, TypeID e, or_empty_object (ev_Metadata e))])) s = (Inr x, s')"
    using assms(1) by (auto simp: InsertEventWithID_def split: prod.splits sum.splits)
  obtain rows where rows: "map (new_row env (db s)) [(ID e, ev_UserID e, TypeID e, or_empty_object (ev_Metadata e))] = map Some rows"
      "events (db s') = events (db s) @ rows"
    using insert_statement_cases [OF x] by blast
  then obtain row where row: "rows = [row]" "new_row env (db s) (ID e, ev_UserID e, TypeID e, or_empty_object (ev_Metadata e)) = Some row"
    by (cases rows) auto
  have "stored_row env s' e row"
    using row(2) assms(2) insert_statement_types [OF x] by (auto simp: stored_row_def new_row_def)
  then show ?thesis using rows(2) row(1) by (auto simp: stored_def)
qed

lemma insert_error_status: "resp_status (insert_error_response e) \<in> {400, 500}"
  by (simp add: insert_error_response_def respondWithError_def respondWithJson_def status_defs)

text \<open>The event that a request asks for, under an identifier.\<close>

definition requested :: "CreateEventInput \<Rightarrow> int64 \<Rightarrow> Event" where
  "requested input i =
     \<lparr>ID = i, ev_UserID = in_UserID input, TypeID = 0, ev_Timestamp = 0,
      ev_Metadata = Some (or_empty_object (in_Metadata input)), Type = in_Type input\<rparr>"

lemma insertEventSync_law:
  assumes "commands_ok rd con" and "types_ok con (repo h)" and "store_ok (repo_store (repo h))"
    and "insertEventSyncAndRespond rd ce input i (or_empty_object (in_Metadata input)) h = Some (r, h')"
  shows "eventQueue h' = eventQueue h \<and> resp_status r \<in> {202, 400, 500} \<and>
    (resp_status r = 202 \<longrightarrow> stored (ce_pg ce) (repo_store (repo h')) (requested input i))"
proof -
  obtain g rp where g: "GetOrCreateTypeID_repo rd (in_Type input) (repo h) = (g, rp)"
      "\<forall>t. g = Inr t \<longrightarrow> (t, in_Type input) \<in> set (event_types (repo_db rp))"
    using GetOrCreateTypeID_repo_law [OF assms(1-3)] by blast
  show ?thesis
  proof (cases g)
    case (Inl e)
    then show ?thesis
      using assms(4) g(1)
      by (auto simp: insertEventSyncAndRespond_def respondWithError_def respondWithJson_def status_defs)
  next
    case (Inr t)
    let ?ev = "\<lparr>ID = i, ev_UserID = in_UserID input, TypeID = t, ev_Timestamp = ce_now ce,
        ev_Metadata = Some (or_empty_object (in_Metadata input)), Type = in_Type input\<rparr>"
    obtain q rp' where q: "InsertEventWithID_repo rd (ce_pg ce) ?ev rp = Some (q, rp')"
      using assms(4) g(1) Inr by (auto simp: insertEventSyncAndRespond_def Let_def split: option.splits)
    show ?thesis
    proof (cases q)
      case (Some err)
      then show ?thesis
        using assms(4) g(1) Inr q insert_error_status [of err] by (auto simp: insertEventSyncAndRespond_def Let_def)
    next
      case None
      obtain st where st: "InsertEventWithID (ce_pg ce) ?ev (repo_store rp) = (None, st)" "repo_store rp' = st"
        using q None by (auto simp: InsertEventWithID_repo_def in_store_def split: prod.splits option.splits
            dest: invalidateCaches_store)
      have "(TypeID ?ev, Type ?ev) \<in> set (event_types (db (repo_store rp)))"
        using g(2) Inr by (simp add: repo_db_def)
      then have "stored (ce_pg ce) st ?ev" by (rule insert_stored [OF st(1)])
      then have "stored (ce_pg ce) (repo_store rp') (requested input i)"
        using st(2) by (simp add: stored_def stored_row_def requested_def)
      then show ?thesis
        using assms(4) g(1) Inr q None
        by (auto simp: insertEventSyncAndRespond_def Let_def respondWithJson_def status_defs)
    qed
  qed
qed

lemma GenerateEventID_repo_frame:
  assumes "GenerateEventID_repo clk k s = Some (r, s', k')"
  shows "repo_cache s' = repo_cache s" and "db (repo_store s') = db (repo_store s)"
    and "typeCache (repo_store s') = typeCache (repo_store s)"
  using assms by (auto simp: GenerateEventID_repo_def GenerateEventID_def split: option.splits prod.splits)

text \<open>What an accepted request leaves in the channel.\<close>

definition queued :: "call_env \<Rightarrow> CreateEventInput \<Rightarrow> int64 \<Rightarrow> PendingEvent" where
  "queued ce input i =
     pending_of (in_UserID input) (in_Type input) (Some (or_empty_object (in_Metadata input))) i (ce_enqueued ce)"

text \<open>
  The outcome of a valid request, by the state of the queue: with room it is queued; when the queue
  has been stopped it is refused; when the queue is full it is written to the database at once.
\<close>

definition create_outcome ::
  "call_env \<Rightarrow> CreateEventInput \<Rightarrow> int64 \<Rightarrow> (EventStore, 'db) EventQueue \<Rightarrow> (EventStore, 'db) EventQueue
   \<Rightarrow> response \<Rightarrow> ('r, 'db) Handlers \<Rightarrow> bool" where
  "create_outcome ce input i eq eq' r h' \<longleftrightarrow>
     (if stopped eq then resp_status r = 500 \<and> eventCh eq' = eventCh eq
      else if has_room eq then resp_status r = 202 \<and> eventCh eq' = eventCh eq @ [queued ce input i]
      else resp_status r \<in> {202, 400, 500} \<and> eventCh eq' = eventCh eq \<and>
        (resp_status r = 202 \<longrightarrow> stored (ce_pg ce) (repo_store (repo h')) (requested input i)))"

lemma createEventAsync_law:
  assumes "commands_ok rd con" and "types_ok con (repo h)" and "store_ok (repo_store (repo h))"
    and "q_inv eq" and "lock_free eq" and "GenerateEventID_repo (ce_clock ce) k (repo h) = Some (g, rp, k1)"
    and "createEventAsync rd ce input k eq h = Some (r, h', k')" and "eventQueue h = Some eq"
  shows "\<exists>eq'. eventQueue h' = Some eq' \<and>
    (case g of
       Inl e \<Rightarrow> resp_status r = 500 \<and> eventCh eq' = eventCh eq
     | Inr i \<Rightarrow> create_outcome ce input i eq eq' r h')"
proof -
  note eval = createEventAsync_def Let_def enqueue_error_def respondWithError_def respondWithJson_def status_defs
  note fr = GenerateEventID_repo_frame [OF assms(6)]
  have c: "types_ok con rp" using assms(2) fr by (simp add: types_ok_def cached_text_def repo_db_def)
  have s: "store_ok (repo_store rp)" using assms(3) fr by (simp add: store_ok_def)
  show ?thesis
  proof (cases g)
    case (Inl e)
    then show ?thesis using assms(6-8) by (auto simp: eval)
  next
    case (Inr i)
    let ?md = "or_empty_object (in_Metadata input)"
    show ?thesis
    proof (cases rule: Enqueue_alone_law [OF assms(4,5), of "in_UserID input" "in_Type input" "Some ?md" i "ce_enqueued ce",
          case_names halted full accepted])
      case (halted eq')
      then show ?thesis
        using assms(6,7) Inr
        by (auto simp: eval create_outcome_def ErrQueueStopped_def ErrQueueFull_def ErrQueueChannelFull_def)
    next
      case (full e eq')
      let ?h2 = "h\<lparr>repo := rp, eventQueue := Some eq'\<rparr>"
      have "insertEventSyncAndRespond rd ce input i ?md ?h2 = Some (r, h')"
        using assms(6,7) Inr full(3,5) by (auto simp: createEventAsync_def Let_def enqueue_error_def)
      then have "eventQueue h' = eventQueue ?h2 \<and> resp_status r \<in> {202, 400, 500} \<and>
          (resp_status r = 202 \<longrightarrow> stored (ce_pg ce) (repo_store (repo h')) (requested input i))"
        by (intro insertEventSync_law [OF assms(1)]) (use c s in simp_all)
      then show ?thesis using full(1,2,4) Inr by (simp add: create_outcome_def)
    next
      case (accepted d eq')
      then have "eventQueue h' = Some eq'" "resp_status r = 202"
        using assms(6,7) Inr by (auto simp: eval split: option.splits)
      then show ?thesis using accepted(1,2,4) Inr by (simp add: create_outcome_def queued_def)
    qed
  qed
qed

lemma insertEventSync_returns:
  assumes "redis_ok rd con glob"
  shows "\<exists>r h'. insertEventSyncAndRespond rd ce input i md h = Some (r, h')"
proof -
  have inv: "invalidateCaches rd s \<noteq> None" for s using invalidateCaches_law [OF assms, of s "[]" None] by auto
  have ins: "(InsertEventWithID_repo rd (ce_pg ce) e rp = None) = False" for e rp
    using inv by (auto simp: InsertEventWithID_repo_def split: prod.splits option.splits)
  show ?thesis
    by (auto simp: insertEventSyncAndRespond_def Let_def ins simp del: not_None_eq split: prod.splits sum.splits option.splits)
qed

lemma createEventAsync_returns:
  assumes "redis_ok rd con glob" and "q_inv eq" and "lock_free eq"
    and "GenerateEventID_repo (ce_clock ce) k (repo h) \<noteq> None"
  shows "createEventAsync rd ce input k eq h \<noteq> None"
proof -
  have inv: "(InvalidateCaches rd s = None) = False" for s
    using invalidateCaches_law [OF assms(1), of s "[]" None] by (auto simp: InvalidateCaches_def)
  have enq: "(Enqueue_alone u t m i now eq = None) = False" for u t m i now
    by (rule Enqueue_alone_law [OF assms(2,3), of u t m i now]) auto
  obtain g rp k1 where g: "GenerateEventID_repo (ce_clock ce) k (repo h) = Some (g, rp, k1)"
    using assms(4) by auto
  show ?thesis
    using insertEventSync_returns [OF assms(1)]
    by (auto simp: createEventAsync_def g Let_def inv enq simp del: not_None_eq split: sum.splits option.splits)
qed

lemma CreateEvent_returns:
  assumes "redis_ok rd con glob" and "eventQueue h = Some eq" and "q_inv eq" and "lock_free eq"
    and "GenerateEventID_repo (ce_clock ce) k (repo h) \<noteq> None"
  shows "CreateEvent rd ce req k h \<noteq> None"
  using createEventAsync_returns [OF assms(1,3-5)] assms(2)
  by (auto simp: CreateEvent_def split: option.splits)


definition demo_call :: call_env where
  "demo_call = \<lparr>ce_pg = plain_env, ce_clock = demo_clock, ce_enqueued = 0, ce_now = 0, ce_zone = 0, ce_inflight = None\<rparr>"

definition idle_queue :: "(EventStore, mem_db) EventQueue" where
  "idle_queue =
     \<lparr>config = demo_cfg\<lparr>PersistencePath := []\<rparr>, store = demo_store [], persistence = None, eventCh = [],
      signalled = False, ctx_cancelled = False, currentDepth = 0, maxDepth = 0, totalEnqueued = 0,
      totalFlushed = 0, totalFailed = 0, lastFlushAt = 0, dlq = \<lparr>dlq_events = [], dlq_maxSize = 1\<rparr>,
      started = False, stopped = False, enq_calls = [], flush_at = F_none, shutdown_at = S_none\<rparr>"

lemma idle_queue_new:
  "NewEventQueue mem_bolt None (Inr []) (demo_store []) (demo_cfg\<lparr>PersistencePath := []\<rparr>) = Some (Inr idle_queue)"
  by (simp add: NewEventQueue_def demo_cfg_def idle_queue_def NewDeadLetterQueue_def Let_def ms_def)

definition post_request :: request where
  "post_request = \<lparr>Method = ''POST'', URL_Path = ''/events'', EscapedPath = ''/events'', RawQuery = [], Body = request_body 1 ''click'' (JObj [])\<rparr>"

lemma decode_post: "decode_input (Body post_request) = Some \<lparr>in_UserID = 1, in_Type = ''click'', in_Metadata = Some ''{}''\<rparr>"
proof -
  have "valid_utf8 ''click''" by (rule valid_utf8_ascii) simp
  then show ?thesis using decode_request_body [of "''click''" "JObj []" 1 "[]"] by (simp add: post_request_def)
qed

definition demo_service :: "((string \<times> string) list, mem_db) Handlers" where
  "demo_service = SetEventQueue idle_queue (NewHandlers demo_repo)"

lemma demo_generates: "\<exists>rp. GenerateEventID_repo (ce_clock demo_call) 0 (repo demo_service) = Some (Inr 20975616, rp, 1)"
  using demo_Generate
  by (simp add: GenerateEventID_repo_def GenerateEventID_def demo_service_def SetEventQueue_def NewHandlers_def
      demo_repo_def NewEventRepository_def demo_store_def demo_call_def)

lemma demo_service_ok:
  "types_ok map_of (repo demo_service)" "store_ok (repo_store (repo demo_service))"
  "eventQueue demo_service = Some idle_queue" "q_inv idle_queue" "lock_free idle_queue"
  using cached_from_types [OF demo_repo_coherent [unfolded coherent_def]] demo_store_ok NewEventQueue_inv [OF idle_queue_new]
  by (simp_all add: demo_service_def SetEventQueue_def NewHandlers_def demo_repo_def NewEventRepository_def
      lock_free_def idle_queue_def)



section \<open>Reading pages\<close>

text \<open>
  The response with a page that was read from the database, and the response with the text that was
  found in the cache, which is sent as it is. (An empty text, which the code never writes, would be
  answered like a missing page.)
\<close>

definition shows_page :: "response \<Rightarrow> PaginatedEvents \<Rightarrow> bool" where
  "shows_page r pg \<longleftrightarrow> resp_status r = 200 \<and>
     resp_body r = (case page_text pg of None \<Rightarrow> [] | Some t \<Rightarrow> t @ newline)"

definition shows_cached :: "response \<Rightarrow> string option \<Rightarrow> bool" where
  "shows_cached r x \<longleftrightarrow> resp_status r = 200 \<and>
     (\<exists>t. x = Some t \<and> resp_body r = (if t = [] then ''null'' @ newline else t))"

lemma page_response_law:
  assumes "\<And>q. r = Inr q \<Longrightarrow> page_result con p l u s q" and "\<And>e. r = Inl e \<Longrightarrow> page_fails p l (repo_db s)"
  shows "shows_page (page_response r) (current_page p l u (repo_db s)) \<or>
     shows_cached (page_response r) (cached_text con s (EventsKey p l u)) \<or>
     resp_status (page_response r) = 500 \<and> page_fails p l (repo_db s)"
proof (cases r)
  case (Inl e)
  then show ?thesis
    using assms(2) by (simp add: page_response_def respondWithError_def respondWithJson_def status_defs)
next
  case (Inr q)
  note eval = page_response_def IsCached_def slice_len_def respondWithJson_def respondWithJsonBytes_def status_defs
  consider (cached) d where "q = \<lparr>RawJSON = Some d, cp_Data = None\<rparr>" "cached_text con s (EventsKey p l u) = Some d"
    | (read) "q = \<lparr>RawJSON = None, cp_Data = Some (current_page p l u (repo_db s))\<rparr>"
    using assms(1) [OF Inr] unfolding page_result_def by blast
  then show ?thesis
  proof cases
    case cached
    then have "shows_cached (page_response r) (cached_text con s (EventsKey p l u))"
      using Inr by (simp add: eval shows_cached_def)
    then show ?thesis by blast
  next
    case read
    then have "shows_page (page_response r) (current_page p l u (repo_db s))"
      using Inr by (simp add: eval shows_page_def)
    then show ?thesis by blast
  qed
qed

lemma page_of_user:
  assumes "e \<in> set (Data (current_page p l (Some u) d))"
  shows "ev_UserID e = u"
proof -
  let ?rs = "newest_first (filter (of_user (Some u)) (events d))"
  have "e \<in> set (List.map_filter (join_type d) ?rs)"
    using assms by (auto simp: current_page_def select_page_def dest: in_set_takeD in_set_dropD)
  then show ?thesis
    by (auto simp: List.map_filter_def join_type_def newest_first_def of_user_def)
qed

lemma page_length: "length (Data (current_page p l u d)) \<le> unat l"
  by (simp add: current_page_def select_page_def)

text \<open>
  The answer to a request for a page, from the cache or from the database: with an entry under its
  key it may be the text of that entry, otherwise it is the page that the database holds now; it
  can be 500 only when a statement fails or the offset does not fit the database protocol.
\<close>

definition page_answer ::
  "('r \<Rightarrow> string \<rightharpoonup> string) \<Rightarrow> uint \<Rightarrow> uint \<Rightarrow> int64 option \<Rightarrow> 'r repository \<Rightarrow> response \<Rightarrow> bool" where
  "page_answer con p l u s r \<longleftrightarrow>
     shows_page r (current_page p l u (repo_db s)) \<or> shows_cached r (cached_text con s (EventsKey p l u)) \<or>
     resp_status r = 500 \<and> (\<not> healthy (repo_db s) \<or> \<not> fits_int64 ((p - 1) * l))"

lemma paged_answer:
  assumes "commands_ok rd con" and "p = p_Page (ParseFromRequest req)" "l = p_Limit (ParseFromRequest req)"
  shows "\<exists>x s'. GetPaginatedCached rd None p l u s = Some (x, s') \<and> page_answer con p l u s (page_response x) \<and>
     same_db (repo_db s) (repo_db s') \<and>
     adds_only con s s' (EventsKey p l u) (page_text (current_page p l u (repo_db s))) \<and>
     length (Data (current_page p l u (repo_db s))) \<le> 100"
proof -
  obtain x s' where x: "GetPaginatedCached rd None p l u s = Some (x, s')"
      "adds_only con s s' (EventsKey p l u) (page_text (current_page p l u (repo_db s)))" "same_db (repo_db s) (repo_db s')"
      "\<And>q. x = Inr q \<Longrightarrow> page_result con p l u s q" "\<And>e. x = Inl e \<Longrightarrow> page_fails p l (repo_db s)"
    using GetPaginatedCached_law [OF assms(1), of p l u s] by blast
  have l: "unat l \<le> 100" using ParseFromRequest_bounds [of req] assms(3) by simp
  then have "fits_int64 l" by (simp add: fits_int64_def)
  then have "page_answer con p l u s (page_response x)"
    using page_response_law [OF x(4,5)] by (auto simp: page_answer_def page_fails_def)
  moreover have "length (Data (current_page p l u (repo_db s))) \<le> 100"
    using page_length [of p l u "repo_db s"] l by simp
  ultimately show ?thesis using x(1-3) by blast
qed


definition list_request :: request where
  "list_request = \<lparr>Method = ''GET'', URL_Path = ''/events'', EscapedPath = ''/events'', RawQuery = [], Body = []\<rparr>"

lemma ParseInt64_Nil: "ParseInt64 [] = None"
  by (simp add: ParseInt64_def parse_digits_def)

lemma first_page:
  assumes "RawQuery req = []"
  shows "p_Page (ParseFromRequest req) = 1"
  using assms by (simp add: ParseFromRequest_def query_get_def query_pair_def cut_def map_filter_simps Let_def
      ParseInt64_Nil DefaultPage_def)

lemma demo_healthy: "healthy (repo_db demo_repo)"
  by (simp add: healthy_def repo_db_def demo_repo_def NewEventRepository_def demo_store_def two_users_def)


lemma match_user_events_path: "CHR ''/'' \<notin> set s \<Longrightarrow> s \<noteq> [] \<Longrightarrow> match_user_events (''/users/'' @ s @ ''/events'') = Some s"
  by (simp add: match_user_events_def)

lemma fmt_nat_no_slash: "CHR ''/'' \<notin> set (fmt_nat n)"
  by (rule digits_no) (simp add: is_digit_def)


definition user_request :: request where
  "user_request = \<lparr>Method = ''GET'', URL_Path = ''/users/'' @ fmt_nat 1 @ ''/events'',
     EscapedPath = ''/users/1/events'', RawQuery = [], Body = []\<rparr>"



section \<open>Time stamps of the statistics\<close>

text \<open>
  The two layouts of \<open>parseTimestamp\<close> are equivalent to the first alone: the empty text is
  no bound, any other text is a bound when it is an RFC 3339 time and an error otherwise.
\<close>

theorem parseTimestamp_reference:
  "parseTimestamp s =
     (if s = [] then Inr None
      else case parse_RFC3339 s of None \<Rightarrow> Inl (New ''invalid date format'') | Some t \<Rightarrow> Inr (Some t))"
  using parse_literal_Z_redundant [of s] by (auto simp: parseTimestamp_def split: option.splits)


section \<open>Reading statistics\<close>

lemma parseTimestamp_rfc: "parseTimestamp s = Inr t \<Longrightarrow> opt_rfc t"
  using parse_literal_Z_redundant [of s] parse_RFC3339_rfc_time [of s]
  by (auto simp: parseTimestamp_def opt_rfc_def split: if_splits option.splits)

lemma type_of_name_in: "type_of_name t d = Some i \<Longrightarrow> (i, t) \<in> set (event_types d)"
  by (auto simp: type_of_name_def find_Some_iff) (metis nth_mem snd_conv)

lemma type_of_name_none: "type_of_name t d = None \<Longrightarrow> (i, t) \<notin> set (event_types d)"
  by (auto simp: type_of_name_def find_None_iff)

text \<open>The type filter that a request names.\<close>

definition names_type :: "string \<Rightarrow> pg \<Rightarrow> int64 option \<Rightarrow> bool" where
  "names_type t d i \<longleftrightarrow> (if t = [] then i = None else \<exists>j. i = Some j \<and> (j, t) \<in> set (event_types d))"

lemma lookup_type_law:
  assumes "lookup_type t s = (r, s')"
  shows "repo_cache s' = repo_cache s" and "same_db (repo_db s) (repo_db s')"
    and "r = Inr i \<Longrightarrow> names_type t (repo_db s) i"
    and "r = Inl e \<Longrightarrow> t \<noteq> [] \<and> (\<not> healthy (repo_db s) \<or> (\<forall>j. (j, t) \<notin> set (event_types (repo_db s))))"
    and "healthy (repo_db s) \<Longrightarrow> healthy (repo_db s')"
proof -
  have "repo_cache s' = repo_cache s \<and> same_db (repo_db s) (repo_db s') \<and> (\<forall>i. r = Inr i \<longrightarrow> names_type t (repo_db s) i) \<and>
    (\<forall>e. r = Inl e \<longrightarrow> t \<noteq> [] \<and> (\<not> healthy (repo_db s) \<or> (\<forall>j. (j, t) \<notin> set (event_types (repo_db s))))) \<and>
    (healthy (repo_db s) \<longrightarrow> healthy (repo_db s'))"
  proof (cases "t = []")
    case True
    then show ?thesis using assms by (auto simp: lookup_type_def names_type_def)
  next
    case False
    obtain q s1 where q: "GetEventTypeId_repo t s = (q, s1)" by fastforce
    note f = in_store_query_frame [OF q [unfolded GetEventTypeId_repo_def GetEventTypeId_def]]
      and h = in_store_healthy [OF q [unfolded GetEventTypeId_repo_def GetEventTypeId_def]]
    have e: "s' = s1" "r = (case q of Inl e \<Rightarrow> Inl (type_not_found t e) | Inr i \<Rightarrow> Inr (Some i))"
      using assms False q by (auto simp: lookup_type_def split: sum.splits)
    have ty: "event_types (repo_db s1) = event_types (repo_db s)"
      using same_db_select(4) [OF f(1)] by (simp add: repo_db_def)
    have "(i, t) \<in> set (event_types (repo_db s))" if "q = Inr i" for i
      using f(3) [OF that] ty type_of_name_in [of t "repo_db s1" i] by (auto simp: repo_db_def split: option.splits)
    moreover have "(j, t) \<notin> set (event_types (repo_db s))" if "q = Inl e" "healthy (repo_db s)" for j e
      using h(2) that ty type_of_name_none [of t "repo_db s1" j] by (auto simp: repo_db_def split: option.splits)
    moreover have "healthy (repo_db s) \<longrightarrow> healthy (repo_db s1)" using h(1) by (simp add: repo_db_def)
    ultimately show ?thesis
      using f(1,2) e False by (cases q) (auto simp: repo_db_def names_type_def)
  qed
  then show "repo_cache s' = repo_cache s" "same_db (repo_db s) (repo_db s')"
    "r = Inr i \<Longrightarrow> names_type t (repo_db s) i"
    "r = Inl e \<Longrightarrow> t \<noteq> [] \<and> (\<not> healthy (repo_db s) \<or> (\<forall>j. (j, t) \<notin> set (event_types (repo_db s))))"
    "healthy (repo_db s) \<Longrightarrow> healthy (repo_db s')" by blast+
qed

text \<open>
  The statistics that a response may carry: the text found in the cache, the answer of the database,
  or, when the cache could be read at the second attempt only, what the cached text decodes to.
\<close>

definition stats_answer :: "pg_env \<Rightarrow> pg \<Rightarrow> GetStatsData \<Rightarrow> string option \<Rightarrow> response \<Rightarrow> bool" where
  "stats_answer env d g x r \<longleftrightarrow>
     resp_status r = 200 \<and>
       (x = Some (resp_body r) \<or>
        (\<exists>st. resp_body r = (case stats_text st of None \<Rightarrow> [] | Some t \<Rightarrow> t @ newline) \<and>
           (st = select_stats env g d \<or> Option.bind x unmarshal_stats = Some st))) \<or>
     resp_status r = 500 \<and> \<not> healthy d"

lemma stats_answer_same: "same_db d d' \<Longrightarrow> (healthy d \<Longrightarrow> healthy d') \<Longrightarrow> stats_answer env d' g x r \<Longrightarrow> stats_answer env d g x r"
  by (auto simp: stats_answer_def same_db_select(3))

text \<open>The part of the handler after the arguments have been understood.\<close>

lemma stats_tail:
  assumes "commands_ok rd con"
  shows "\<exists>r s'. (case GetStatsRaw rd g s of
        (Some b, s1) \<Rightarrow> (respondWithJsonBytes StatusOK b, h\<lparr>repo := s1\<rparr>)
      | (None, s1) \<Rightarrow>
          (case GetStats_repo rd env g s1 of
             (Inl e, s2) \<Rightarrow> (respondWithError StatusInternalServerError e, h\<lparr>repo := s2\<rparr>)
           | (Inr st, s2) \<Rightarrow> (respondWithJson StatusOK (stats_text st), h\<lparr>repo := s2\<rparr>))) = (r, h\<lparr>repo := s'\<rparr>) \<and>
     same_db (repo_db s) (repo_db s') \<and> stats_answer env (repo_db s) g (cached_text con s (stats_key g)) r \<and>
     adds_only con s s' (stats_key g) (stats_text (select_stats env g (repo_db s)))"
proof -
  note eval = respondWithError_def respondWithJson_def respondWithJsonBytes_def status_defs
  let ?v = "stats_text (select_stats env g (repo_db s))"
  obtain x s1 where x: "GetStatsRaw rd g s = (x, s1)" "adds_only con s s1 (stats_key g) ?v" "repo_db s1 = repo_db s"
      "\<And>b. x = Some b \<Longrightarrow> cached_text con s (stats_key g) = Some b"
      "\<And>k t. cached_text con s1 k = Some t \<Longrightarrow> cached_text con s k = Some t"
    using GetStatsRaw_law [OF assms, of g s "stats_key g" ?v] GetStatsRaw_law [OF assms, of g s "[]" None]
    unfolding adds_only_def by auto
  obtain y s2 where y: "GetStats_repo rd env g s1 = (y, s2)" "adds_only con s1 s2 (stats_key g) ?v"
      "same_db (repo_db s) (repo_db s2)"
      "\<And>st. y = Inr st \<Longrightarrow> st = select_stats env g (repo_db s) \<or>
         (\<exists>t. cached_text con s1 (stats_key g) = Some t \<and> unmarshal_stats t = Some st)"
      "\<And>e. y = Inl e \<Longrightarrow> \<not> healthy (repo_db s)"
    using GetStats_repo_law [OF assms, of env g s1] x(3) by auto
  note a2 = adds_only_trans [OF x(2) y(2)]
  show ?thesis
  proof (cases x)
    case (Some b)
    then show ?thesis
      using x(1-3) x(4) [OF Some] by (intro exI [of _ s1] exI) (auto simp: eval stats_answer_def)
  next
    case None
    show ?thesis
    proof (cases y)
      case (Inl e)
      then show ?thesis
        using x(1) None y(1,3) y(5) [OF Inl] a2 by (intro exI [of _ s2] exI) (auto simp: eval stats_answer_def)
    next
      case (Inr st)
      have "st = select_stats env g (repo_db s) \<or> Option.bind (cached_text con s (stats_key g)) unmarshal_stats = Some st"
        using y(4) [OF Inr] x(5) by auto
      then have "stats_answer env (repo_db s) g (cached_text con s (stats_key g)) (respondWithJson StatusOK (stats_text st))"
        unfolding stats_answer_def eval by auto
      then show ?thesis
        using x(1) None y(1,3) Inr a2
        by (intro exI [of _ "respondWithJson StatusOK (stats_text st)"] exI [of _ s2]) simp
    qed
  qed
qed

lemma GetStats_handler_law:
  assumes "commands_ok rd con"
  shows "\<exists>r h'. GetStats_handler rd ce req h = (r, h') \<and>
    eventQueue h' = eventQueue h \<and> same_db (repo_db (repo h)) (repo_db (repo h')) \<and>
    (case (parseTimestamp (query_get req ''from''), parseTimestamp (query_get req ''to'')) of
       (Inr f, Inr t) \<Rightarrow>
         resp_status r = 400 \<and> query_get req ''type'' \<noteq> [] \<and> repo_cache (repo h') = repo_cache (repo h) \<and>
           (\<not> healthy (repo_db (repo h)) \<or> (\<forall>j. (j, query_get req ''type'') \<notin> set (event_types (repo_db (repo h))))) \<or>
         (\<exists>i g. names_type (query_get req ''type'') (repo_db (repo h)) i \<and> g = \<lparr>From = f, To = t, gs_TypeID = i\<rparr> \<and>
            stats_answer (ce_pg ce) (repo_db (repo h)) g (cached_text con (repo h) (stats_key g)) r \<and>
            adds_only con (repo h) (repo h') (stats_key g) (stats_text (select_stats (ce_pg ce) g (repo_db (repo h)))))
     | _ \<Rightarrow> resp_status r = 400 \<and> h' = h)"
proof -
  let ?from = "parseTimestamp (query_get req ''from'')" and ?to = "parseTimestamp (query_get req ''to'')"
  note eval = GetStats_handler_def respondWithError_def respondWithJson_def status_defs
  show ?thesis
  proof (cases "isl ?from \<or> isl ?to")
    case True
    then show ?thesis by (cases ?from; cases ?to) (simp_all add: eval)
  next
    case False
    then obtain f t where ft: "?from = Inr f" "?to = Inr t" by (cases ?from; cases ?to) auto
    obtain q s1 where l: "lookup_type (query_get req ''type'') (repo h) = (q, s1)" by fastforce
    note law = lookup_type_law [OF l]
    show ?thesis
    proof (cases q)
      case (Inl e)
      then show ?thesis using ft l law(1,2) law(4) [OF Inl] by (simp add: eval)
    next
      case (Inr i)
      let ?g = "\<lparr>From = f, To = t, gs_TypeID = i\<rparr>"
      obtain r s2 where r: "GetStats_handler rd ce req h = (r, h\<lparr>repo := s2\<rparr>)" "same_db (repo_db s1) (repo_db s2)"
          "stats_answer (ce_pg ce) (repo_db s1) ?g (cached_text con s1 (stats_key ?g)) r"
          "adds_only con s1 s2 (stats_key ?g) (stats_text (select_stats (ce_pg ce) ?g (repo_db s1)))"
        using stats_tail [OF assms, where g = ?g and s = s1 and h = h and env = "ce_pg ce"] ft l Inr unfolding GetStats_handler_def Let_def by auto
      have c: "cached_text con s1 k = cached_text con (repo h) k" for k using law(1) by (simp add: cached_text_def)
      have "stats_answer (ce_pg ce) (repo_db (repo h)) ?g (cached_text con (repo h) (stats_key ?g)) r"
        using stats_answer_same [OF law(2,5) r(3)] c by simp
      moreover have "adds_only con (repo h) s2 (stats_key ?g) (stats_text (select_stats (ce_pg ce) ?g (repo_db (repo h))))"
        using r(4) same_db_select(3) [OF law(2)] c by (simp add: adds_only_def)
      ultimately show ?thesis
        using r(1) law(3) [OF Inr] same_db_trans [OF law(2) r(2)] ft by auto
    qed
  qed
qed



end
