(* ===== verification/Router.thy ===== *)
theory Router
  imports Handlers
begin

text \<open>
  The routes: \<open>src/internal/router/router.go\<close> and \<open>src/internal/middleware/logging.go\<close>, with
  the part of \<open>http.ServeMux\<close> that they use: the canonical form of a path, the match of the
  patterns \<open>/events\<close>, \<open>/users/\<close> and \<open>/stats\<close>, the redirects and the answer 404. The text
  of a redirect and the log lines are not modelled.
\<close>


section \<open>http.ServeMux\<close>

text \<open>\<open>path.Clean\<close> of a rooted path, on the list of its elements.\<close>

fun clean_elems :: "string list \<Rightarrow> string list \<Rightarrow> string list" where
  "clean_elems acc [] = rev acc"
| "clean_elems acc (e # es) =
     (if e = [] \<or> e = ''.'' then clean_elems acc es
      else if e = ''..'' then clean_elems (drop 1 acc) es
      else clean_elems (e # acc) es)"

definition path_Clean :: "string \<Rightarrow> string" where
  "path_Clean p = CHR ''/'' # join ''/'' (clean_elems [] (split_on (CHR ''/'') p))"

definition ends_slash :: "string \<Rightarrow> bool" where
  "ends_slash p \<longleftrightarrow> p \<noteq> [] \<and> last p = CHR ''/''"

definition cleanPath :: "string \<Rightarrow> string" where
  "cleanPath p =
     (if p = [] then ''/''
      else let p1 = (if hd p \<noteq> CHR ''/'' then CHR ''/'' # p else p); np = path_Clean p1 in
        if ends_slash p1 \<and> np \<noteq> ''/'' then np @ ''/'' else np)"

text \<open>\<open>pathUnescape\<close> keeps a text with a malformed escape; a plus sign stands for itself.\<close>

fun PathUnescape :: "string \<Rightarrow> string option" where
  "PathUnescape [] = Some []"
| "PathUnescape (c # cs) =
     (if c = CHR ''%'' then
        (case cs of
           a # b # ds \<Rightarrow>
             (case (hex_nibble a, hex_nibble b) of
                (Some x, Some y) \<Rightarrow> map_option ((#) (char_of (16 * x + y))) (PathUnescape ds)
              | _ \<Rightarrow> None)
         | _ \<Rightarrow> None)
      else map_option ((#) c) (PathUnescape cs))"

definition firstSegment :: "string \<Rightarrow> string \<times> string" where
  "firstSegment p =
     (if p = ''/'' then (''/'', [])
      else let seg = takeWhile (\<lambda>c. c \<noteq> CHR ''/'') (tl p) in
        ((case PathUnescape seg of None \<Rightarrow> seg | Some s \<Rightarrow> s), dropWhile (\<lambda>c. c \<noteq> CHR ''/'') (tl p)))"

datatype pattern = P_events | P_users | P_stats

fun segments :: "pattern \<Rightarrow> nat" where
  "segments P_events = 1"
| "segments P_users = 2"
| "segments P_stats = 1"

definition match_path :: "string \<Rightarrow> pattern option" where
  "match_path p =
     (if p = [] then None
      else case firstSegment p of (seg, rest) \<Rightarrow>
        if seg = ''events'' \<and> rest = [] then Some P_events
        else if seg = ''stats'' \<and> rest = [] then Some P_stats
        else if seg = ''users'' \<and> rest \<noteq> [] then Some P_users
        else None)"

definition exactMatch :: "pattern option \<Rightarrow> string \<Rightarrow> bool" where
  "exactMatch n p =
     (case n of
        None \<Rightarrow> False
      | Some pat \<Rightarrow> p \<noteq> [] \<and> \<not> ends_slash p \<or> segments pat = length (filter (\<lambda>c. c = CHR ''/'') p))"

datatype route = R_pattern pattern | R_redirect string | R_not_found

definition matchOrRedirect :: "string \<Rightarrow> string \<Rightarrow> pattern option + string" where
  "matchOrRedirect p url_path =
     (let n = match_path p in
      if \<not> exactMatch n p \<and> \<not> ends_slash p \<and> exactMatch (match_path (p @ ''/'')) (p @ ''/'')
      then Inr (cleanPath url_path @ ''/'')
      else Inl n)"

definition findHandler :: "request \<Rightarrow> route" where
  "findHandler req =
     (let p = (if Method req = ''CONNECT'' then EscapedPath req else cleanPath (EscapedPath req)) in
      case matchOrRedirect p (URL_Path req) of
        Inr u \<Rightarrow> R_redirect u
      | Inl n \<Rightarrow>
          if p \<noteq> EscapedPath req then R_redirect p
          else (case n of None \<Rightarrow> R_not_found | Some pat \<Rightarrow> R_pattern pat))"


section \<open>The routes\<close>

datatype 's outcome = Answered response 's | Redirected string | Panicked

type_synonym ('r, 'db) service = "('r, 'db) Handlers \<times> nat"
type_synonym ('r, 'db) handler = "request \<Rightarrow> ('r, 'db) service \<Rightarrow> ('r, 'db) service outcome"

definition StatusMethodNotAllowed :: nat where "StatusMethodNotAllowed = 405"
definition StatusNotFound :: nat where "StatusNotFound = 404"

definition methodNotAllowed :: "('r, 'db) handler" where
  "methodNotAllowed req s =
     Answered \<lparr>resp_status = StatusMethodNotAllowed,
       resp_body = CHR ''{'' # dquote # ''error'' @ [dquote, CHR '':'', dquote] @ ''method not allowed'' @ [dquote, CHR ''}'']\<rparr> s"

definition NotFound :: "('r, 'db) handler" where
  "NotFound req s = Answered \<lparr>resp_status = StatusNotFound, resp_body = ''404 page not found'' @ newline\<rparr> s"

definition methodHandler :: "(string \<times> ('r, 'db) handler) list \<Rightarrow> ('r, 'db) handler" where
  "methodHandler hs req s = (case map_of hs (Method req) of Some h \<Rightarrow> h req s | None \<Rightarrow> methodNotAllowed req s)"

definition answer :: "(response \<times> 's) option \<Rightarrow> 's outcome" where
  "answer x = (case x of None \<Rightarrow> Panicked | Some (r, s) \<Rightarrow> Answered r s)"

definition events_route :: "('r, 'it) redis \<Rightarrow> call_env \<Rightarrow> ('r, 'db) handler" where
  "events_route rd ce = methodHandler
     [(''GET'', \<lambda>req (h, k). answer (map_option (\<lambda>(r, h'). (r, h', k)) (GetEventsPaginated rd ce req h))),
      (''POST'', \<lambda>req (h, k). answer (CreateEvent rd ce req k h))]"

definition has_suffix :: "string \<Rightarrow> string \<Rightarrow> bool" where
  "has_suffix p s \<longleftrightarrow> length s \<le> length p \<and> drop (length p - length s) p = s"

definition users_route :: "('r, 'it) redis \<Rightarrow> call_env \<Rightarrow> ('r, 'db) handler" where
  "users_route rd ce req s =
     (if take 7 (URL_Path req) \<noteq> ''/users/'' \<or> \<not> has_suffix (URL_Path req) ''/events'' then NotFound req s
      else if Method req = ''GET''
      then (case s of (h, k) \<Rightarrow> answer (map_option (\<lambda>(r, h'). (r, h', k)) (GetUserEventsPaginated rd ce req h)))
      else methodNotAllowed req s)"

definition stats_route :: "('r, 'it) redis \<Rightarrow> call_env \<Rightarrow> ('r, 'db) handler" where
  "stats_route rd ce = methodHandler
     [(''GET'', \<lambda>req (h, k). case GetStats_handler rd ce req h of (r, h') \<Rightarrow> Answered r (h', k))]"

definition router_New :: "('r, 'it) redis \<Rightarrow> call_env \<Rightarrow> ('r, 'db) handler" where
  "router_New rd ce req s =
     (case findHandler req of
        R_redirect u \<Rightarrow> Redirected u
      | R_not_found \<Rightarrow> NotFound req s
      | R_pattern P_events \<Rightarrow> events_route rd ce req s
      | R_pattern P_users \<Rightarrow> users_route rd ce req s
      | R_pattern P_stats \<Rightarrow> stats_route rd ce req s)"

text \<open>\<open>middleware.Logging\<close>, whose log line is not part of the model.\<close>

definition Logging :: "('r, 'db) handler \<Rightarrow> ('r, 'db) handler" where
  "Logging nxt req s = nxt req s"


section \<open>Canonical paths\<close>

definition clean_elem :: "string \<Rightarrow> bool" where
  "clean_elem e \<longleftrightarrow> e \<noteq> [] \<and> e \<noteq> ''.'' \<and> e \<noteq> ''..'' \<and> CHR ''/'' \<notin> set e"

lemma split_on_no_sep: "e \<in> set (split_on c s) \<Longrightarrow> c \<notin> set e"
  by (induction s arbitrary: e) (auto split: list.splits if_splits)

lemma split_on_append: "c \<notin> set e \<Longrightarrow> split_on c (e @ c # s) = e # split_on c s"
  by (induction e) auto

lemma split_on_single: "c \<notin> set e \<Longrightarrow> split_on c e = [e]"
  by (induction e) auto

lemma split_on_join: "es \<noteq> [] \<Longrightarrow> \<forall>e \<in> set es. c \<notin> set e \<Longrightarrow> split_on c (join [c] es) = es"
  by (induction es rule: induct_list012) (auto simp: split_on_append split_on_single)

lemma clean_elems_clean:
  assumes "\<forall>e \<in> set acc. clean_elem e" and "\<forall>e \<in> set es. CHR ''/'' \<notin> set e"
  shows "\<forall>e \<in> set (clean_elems acc es). clean_elem e"
  using assms
proof (induction acc es rule: clean_elems.induct)
  case (2 acc e es)
  have d: "\<forall>x \<in> set (drop 1 acc). clean_elem x" using "2.prems"(1) by (meson in_set_dropD)
  have es: "\<forall>x \<in> set es. CHR ''/'' \<notin> set x" using "2.prems"(2) by simp
  consider "e = [] \<or> e = ''.''" | "\<not> (e = [] \<or> e = ''.'')" "e = ''..''" | "\<not> (e = [] \<or> e = ''.'')" "e \<noteq> ''..''" by blast
  then show ?case
  proof cases
    case 1
    from "2.IH"(1) [OF 1 "2.prems"(1) es] show ?thesis unfolding clean_elems.simps if_P [OF 1] .
  next
    case 2
    from "2.IH"(2) [OF 2 d es] show ?thesis unfolding clean_elems.simps if_not_P [OF 2(1)] if_P [OF 2(2)] .
  next
    case 3
    then have "clean_elem e" using "2.prems"(2) by (simp add: clean_elem_def)
    then have "\<forall>x \<in> set (e # acc). clean_elem x" using "2.prems"(1) by simp
    from "2.IH"(3) [OF 3 this es] show ?thesis unfolding clean_elems.simps if_not_P [OF 3(1)] if_not_P [OF 3(2)] .
  qed
qed simp

lemma clean_elems_id: "\<forall>e \<in> set es. clean_elem e \<Longrightarrow> clean_elems acc es = rev acc @ es"
  by (induction es arbitrary: acc) (auto simp: clean_elem_def)

lemma clean_elems_Nil: "clean_elems acc ([] # es) = clean_elems acc es"
  by simp

lemma clean_elems_snoc_Nil: "clean_elems acc (es @ [[]]) = clean_elems acc es"
  by (induction acc es rule: clean_elems.induct) auto

lemma split_on_neq [simp]: "split_on c s \<noteq> []"
  by (induction s) (auto split: list.splits)

lemma split_on_snoc: "split_on c (s @ [c]) = split_on c s @ [[]]"
proof (induction s)
  case (Cons x s)
  then show ?case by (cases "split_on c s") auto
qed simp

lemma path_Clean_join:
  assumes "\<forall>e \<in> set es. clean_elem e"
  shows "path_Clean (CHR ''/'' # join ''/'' es) = CHR ''/'' # join ''/'' es"
    and "path_Clean (CHR ''/'' # join ''/'' es @ ''/'') = CHR ''/'' # join ''/'' es"
proof -
  have s: "clean_elems [] (split_on (CHR ''/'') (join ''/'' es)) = es"
  proof (cases "es = []")
    case False
    then show ?thesis using assms split_on_join [OF False, of "CHR ''/''"] clean_elems_id [OF assms, of "[]"]
      by (simp add: clean_elem_def)
  qed simp
  then show "path_Clean (CHR ''/'' # join ''/'' es) = CHR ''/'' # join ''/'' es" by (simp add: path_Clean_def)
  show "path_Clean (CHR ''/'' # join ''/'' es @ ''/'') = CHR ''/'' # join ''/'' es"
    using s clean_elems_snoc_Nil by (simp add: path_Clean_def split_on_snoc)
qed

lemma join_last:
  assumes "es \<noteq> []" and "\<forall>e \<in> set es. clean_elem e"
  shows "join ''/'' es \<noteq> [] \<and> last (join ''/'' es) \<noteq> CHR ''/''"
  using assms
proof (induction es rule: induct_list012)
  case (2 x)
  then have "x \<noteq> []" "CHR ''/'' \<notin> set x" by (simp_all add: clean_elem_def)
  then show ?case by (metis join.simps(2) last_in_set)
next
  case (3 x y zs)
  then have "join ''/'' (y # zs) \<noteq> [] \<and> last (join ''/'' (y # zs)) \<noteq> CHR ''/''" by simp
  then show ?case by (simp add: last_append)
qed simp

text \<open>The canonical paths: clean elements, with or without a slash at the end.\<close>

definition canonical :: "string \<Rightarrow> bool" where
  "canonical p \<longleftrightarrow> (\<exists>es. (\<forall>e \<in> set es. clean_elem e) \<and>
     (p = CHR ''/'' # join ''/'' es \<or> es \<noteq> [] \<and> p = CHR ''/'' # join ''/'' es @ ''/''))"

lemma cleanPath_canonical: "canonical (cleanPath p)"
proof -
  let ?p1 = "if hd p \<noteq> CHR ''/'' then CHR ''/'' # p else p"
  let ?es = "clean_elems [] (split_on (CHR ''/'') ?p1)"
  have c: "\<forall>e \<in> set ?es. clean_elem e"
    by (rule clean_elems_clean) (auto dest: split_on_no_sep)
  have "path_Clean ?p1 = CHR ''/'' # join ''/'' ?es" by (simp add: path_Clean_def)
  then have "p = [] \<or> cleanPath p = CHR ''/'' # join ''/'' ?es \<or> ?es \<noteq> [] \<and> cleanPath p = CHR ''/'' # join ''/'' ?es @ ''/''"
    unfolding cleanPath_def Let_def by (cases "?es = []") auto
  then show ?thesis
  proof
    assume "p = []"
    then show ?thesis by (auto simp: cleanPath_def canonical_def intro: exI [of _ "[]"])
  qed (use c in \<open>auto simp: canonical_def\<close>)
qed

lemma cleanPath_id: "canonical p \<Longrightarrow> cleanPath p = p"
proof -
  assume "canonical p"
  then obtain es where es: "\<forall>e \<in> set es. clean_elem e"
      "p = CHR ''/'' # join ''/'' es \<or> es \<noteq> [] \<and> p = CHR ''/'' # join ''/'' es @ ''/''"
    by (auto simp: canonical_def)
  note pc = path_Clean_join [OF es(1)]
  show ?thesis
  proof (cases "es = []")
    case True
    then show ?thesis using es(2) pc by (auto simp: cleanPath_def)
  next
    case False
    note j = join_last [OF False es(1)]
    show ?thesis using es(2) pc j by (auto simp: cleanPath_def Let_def ends_slash_def)
  qed
qed



section \<open>Dispatch\<close>

lemma PathUnescape_plain: "CHR ''%'' \<notin> set s \<Longrightarrow> PathUnescape s = Some s"
  by (induction s) auto

lemma segment_iff:
  assumes "CHR ''/'' \<notin> set w"
  shows "takeWhile (\<lambda>c. c \<noteq> CHR ''/'') s = w \<and> dropWhile (\<lambda>c. c \<noteq> CHR ''/'') s = [] \<longleftrightarrow> s = w"
    and "takeWhile (\<lambda>c. c \<noteq> CHR ''/'') s = w \<and> dropWhile (\<lambda>c. c \<noteq> CHR ''/'') s \<noteq> [] \<longleftrightarrow> take (Suc (length w)) s = w @ ''/''"
proof -
  let ?P = "\<lambda>c. c \<noteq> CHR ''/''"
  have sw: "takeWhile ?P s @ dropWhile ?P s = s" by (rule takeWhile_dropWhile_id)
  have all: "takeWhile ?P w = w" using assms by (induction w) auto
  show "takeWhile ?P s = w \<and> dropWhile ?P s = [] \<longleftrightarrow> s = w"
  proof
    assume "takeWhile ?P s = w \<and> dropWhile ?P s = []"
    then show "s = w" using sw by (metis append.right_neutral)
  next
    assume "s = w"
    then show "takeWhile ?P s = w \<and> dropWhile ?P s = []" using all sw by simp
  qed
  show "takeWhile ?P s = w \<and> dropWhile ?P s \<noteq> [] \<longleftrightarrow> take (Suc (length w)) s = w @ ''/''"
  proof
    assume a: "takeWhile ?P s = w \<and> dropWhile ?P s \<noteq> []"
    then obtain r where "dropWhile ?P s = CHR ''/'' # r" using hd_dropWhile [of ?P s] by (cases "dropWhile ?P s") auto
    then have "s = w @ CHR ''/'' # r" using a sw by simp
    then show "take (Suc (length w)) s = w @ ''/''" by simp
  next
    assume "take (Suc (length w)) s = w @ ''/''"
    then obtain r where "s = w @ CHR ''/'' # r" using append_take_drop_id [of "Suc (length w)" s] by (metis append_Cons append_Nil append_assoc)
    then show "takeWhile ?P s = w \<and> dropWhile ?P s \<noteq> []" using all by (simp add: takeWhile_append takeWhile_eq_all_conv)
  qed
qed

lemma match_plain:
  assumes "CHR ''%'' \<notin> set s"
  shows "match_path (CHR ''/'' # s) =
    (if s = ''events'' then Some P_events else if s = ''stats'' then Some P_stats
     else if take 6 s = ''users/'' then Some P_users else None)"
proof (cases "s = []")
  case True
  then show ?thesis by (simp add: match_path_def firstSegment_def)
next
  case False
  let ?seg = "takeWhile (\<lambda>c. c \<noteq> CHR ''/'') s" and ?rest = "dropWhile (\<lambda>c. c \<noteq> CHR ''/'') s"
  have "CHR ''%'' \<notin> set ?seg" using assms by (meson set_takeWhileD)
  then have f: "firstSegment (CHR ''/'' # s) = (?seg, ?rest)"
    using False by (simp add: firstSegment_def Let_def PathUnescape_plain)
  have e: "?seg = ''events'' \<and> ?rest = [] \<longleftrightarrow> s = ''events''" "?seg = ''stats'' \<and> ?rest = [] \<longleftrightarrow> s = ''stats''"
    "?seg = ''users'' \<and> ?rest \<noteq> [] \<longleftrightarrow> take 6 s = ''users/''"
    using segment_iff(1) [of "''events''" s] segment_iff(1) [of "''stats''" s] segment_iff(2) [of "''users''" s]
    by (simp_all add: eval_nat_numeral)
  show ?thesis unfolding match_path_def f prod.case e by simp
qed

lemma exact_slash:
  assumes "CHR ''%'' \<notin> set s" and "\<not> ends_slash (CHR ''/'' # s)"
  shows "exactMatch (match_path (CHR ''/'' # s @ ''/'')) (CHR ''/'' # s @ ''/'') \<longleftrightarrow> s = ''users''"
proof -
  have ne: "s @ ''/'' \<noteq> ''events''" "s @ ''/'' \<noteq> ''stats''"
    using arg_cong [of "s @ ''/''" _ last] by auto
  have m: "match_path (CHR ''/'' # s @ ''/'') = (if take 6 (s @ ''/'') = ''users/'' then Some P_users else None)"
    using match_plain [of "s @ ''/''"] assms(1) ne by simp
  have "take 6 (s @ ''/'') = ''users/'' \<and> 2 = length (filter (\<lambda>c. c = CHR ''/'') (CHR ''/'' # s @ ''/'')) \<longleftrightarrow> s = ''users''"
  proof
    assume a: "take 6 (s @ ''/'') = ''users/'' \<and> 2 = length (filter (\<lambda>c. c = CHR ''/'') (CHR ''/'' # s @ ''/''))"
    then have n: "CHR ''/'' \<notin> set s" by (auto simp: filter_empty_conv)
    obtain r where r: "s @ ''/'' = ''users/'' @ r" using a append_take_drop_id [of 6 "s @ ''/''"] by metis
    have "r = []"
    proof (rule ccontr)
      assume "r \<noteq> []"
      then have "s = ''users/'' @ butlast r" using r by (metis append_butlast_last_id append_assoc append_same_eq butlast_append butlast_snoc)
      then show False using n by simp
    qed
    then show "s = ''users''" using r by simp
  qed simp
  then show ?thesis unfolding m by (auto simp: exactMatch_def ends_slash_def)
qed

text \<open>The routes as the API documents them, on the method and the path.\<close>

definition dispatch :: "('r, 'it) redis \<Rightarrow> call_env \<Rightarrow> ('r, 'db) handler" where
  "dispatch rd ce req s =
     (case s of (h, k) \<Rightarrow>
      let p = URL_Path req; m = Method req in
      if p = ''/events'' \<and> m = ''GET'' then answer (map_option (\<lambda>(r, h'). (r, h', k)) (GetEventsPaginated rd ce req h))
      else if p = ''/events'' \<and> m = ''POST'' then answer (CreateEvent rd ce req k h)
      else if p = ''/stats'' \<and> m = ''GET'' then (case GetStats_handler rd ce req h of (r, h') \<Rightarrow> Answered r (h', k))
      else if take 7 p = ''/users/'' \<and> has_suffix p ''/events'' \<and> m = ''GET''
        then answer (map_option (\<lambda>(r, h'). (r, h', k)) (GetUserEventsPaginated rd ce req h))
      else if p = ''/events'' \<or> p = ''/stats'' \<or> take 7 p = ''/users/'' \<and> has_suffix p ''/events''
        then methodNotAllowed req s
      else if p = ''/users'' then Redirected ''/users/''
      else NotFound req s)"

lemma canonical_Cons: "canonical p \<Longrightarrow> \<exists>s. p = CHR ''/'' # s"
  by (auto simp: canonical_def)

lemma matchOrRedirect_plain:
  assumes "CHR ''%'' \<notin> set s"
  shows "matchOrRedirect (CHR ''/'' # s) url =
    (if s = ''users'' then Inr (cleanPath url @ ''/'') else Inl (match_path (CHR ''/'' # s)))"
proof (cases "ends_slash (CHR ''/'' # s)")
  case True
  then have "s \<noteq> ''users''" by (auto simp: ends_slash_def)
  then show ?thesis using True by (simp add: matchOrRedirect_def)
next
  case False
  note x = exact_slash [OF assms False]
  have "s = ''users'' \<Longrightarrow> \<not> exactMatch (match_path (CHR ''/'' # s)) (CHR ''/'' # s)"
    using match_plain [OF assms] by (simp add: exactMatch_def)
  then show ?thesis using False x by (auto simp: matchOrRedirect_def Let_def)
qed

lemma findHandler_plain:
  assumes "EscapedPath req = CHR ''/'' # s" and "URL_Path req = CHR ''/'' # s" and "CHR ''%'' \<notin> set s"
    and "canonical (CHR ''/'' # s)"
  shows "findHandler req =
    (if s = ''events'' then R_pattern P_events else if s = ''stats'' then R_pattern P_stats
     else if take 6 s = ''users/'' then R_pattern P_users
     else if s = ''users'' then R_redirect ''/users/'' else R_not_found)"
  unfolding findHandler_def Let_def assms(1,2) cleanPath_id [OF assms(4)]
  using match_plain [OF assms(3)] matchOrRedirect_plain [OF assms(3), of "CHR ''/'' # s"] cleanPath_id [OF assms(4)]
  by auto

text \<open>
  C11. The mux and the method tables together are the dispatch on method and path that the API
  promises: for every request with a canonical path without escapes the four routes reach their
  handlers, another method on a known path is answered with 405, every other path with 404, and
  \<open>/users\<close> is redirected.
\<close>

theorem router_dispatch:
  assumes "EscapedPath req = URL_Path req" and "CHR ''%'' \<notin> set (URL_Path req)" and "canonical (URL_Path req)"
  shows "Logging (router_New rd ce) req s = dispatch rd ce req s"
proof -
  obtain w where w: "URL_Path req = CHR ''/'' # w" using canonical_Cons [OF assms(3)] by blast
  note f = findHandler_plain [OF _ w, unfolded assms(1) w, OF refl] assms(2,3) [unfolded w]
  obtain h k where s: "s = (h, k)" by fastforce
  have t: "take 7 (CHR ''/'' # w) = CHR ''/'' # take 6 w" by simp
  consider "w = ''events''" | "w = ''stats''" | "take 6 w = ''users/''"
    | "w \<noteq> ''events''" "w \<noteq> ''stats''" "take 6 w \<noteq> ''users/''" by blast
  then show ?thesis
  proof cases
    case 1
    then show ?thesis using f
      by (simp add: Logging_def router_New_def events_route_def methodHandler_def dispatch_def s w)
  next
    case 2
    then show ?thesis using f
      by (simp add: Logging_def router_New_def stats_route_def methodHandler_def dispatch_def s w)
  next
    case 3
    then have n: "w \<noteq> ''events''" "w \<noteq> ''stats''" "w \<noteq> ''users''" by auto
    then show ?thesis using f 3
      by (auto simp: Logging_def router_New_def users_route_def dispatch_def s w t Let_def)
  next
    case 4
    then show ?thesis using f
      by (auto simp: Logging_def router_New_def dispatch_def s w t Let_def)
  qed
qed

theorem router_dispatch_witness:
  "Logging (router_New mem_redis demo_call) demo_request (demo_service, 0) = dispatch mem_redis demo_call demo_request (demo_service, 0)"
proof -
  have "canonical ''/events''"
    unfolding canonical_def by (rule exI [of _ "[''events'']"]) (simp add: clean_elem_def)
  then show ?thesis by (intro router_dispatch) (simp_all add: demo_request_def)
qed

lemma split_on_set: "e \<in> set (split_on c s) \<Longrightarrow> set e \<subseteq> set s"
proof (induction s arbitrary: e)
  case (Cons x s)
  then show ?case by (cases "split_on c s") (fastforce split: if_splits)+
qed simp

lemma clean_elems_set: "set (clean_elems acc es) \<subseteq> set acc \<union> set es"
proof (induction acc es rule: clean_elems.induct)
  case (2 acc e es)
  then show ?case using set_drop_subset [of 1 acc] by (auto split: if_splits)
qed simp

lemma join_set: "set (join sep es) \<subseteq> set sep \<union> \<Union> (set ` set es)"
  by (induction es rule: induct_list012) auto

lemma cleanPath_chars:
  assumes "c \<in> set (cleanPath p)"
  shows "c \<in> set p \<or> c = CHR ''/''"
proof -
  let ?p1 = "if hd p \<noteq> CHR ''/'' then CHR ''/'' # p else p"
  have "set (path_Clean ?p1) \<subseteq> set ''/'' \<union> set ?p1"
    using join_set [of "''/''" "clean_elems [] (split_on (CHR ''/'') ?p1)"]
      clean_elems_set [of "[]" "split_on (CHR ''/'') ?p1"] split_on_set [of _ "CHR ''/''" ?p1]
    unfolding path_Clean_def by fastforce
  moreover have "p = [] \<or> set (cleanPath p) \<subseteq> set ''/'' \<union> set (path_Clean ?p1)"
    by (auto simp: cleanPath_def Let_def)
  ultimately show ?thesis using assms by (cases "p = []") (auto simp: cleanPath_def split: if_splits)
qed

text \<open>
  Redirects end: the target of a redirect is a canonical path, and a request for it with the
  same method is not redirected again.
\<close>

theorem router_redirect_once:
  assumes "EscapedPath req = URL_Path req" and "CHR ''%'' \<notin> set (URL_Path req)" and "Method req \<noteq> ''CONNECT''"
    and "findHandler req = R_redirect u"
  shows "canonical u \<and> (\<forall>v. findHandler (req\<lparr>URL_Path := u, EscapedPath := u\<rparr>) \<noteq> R_redirect v)"
proof -
  obtain w where w: "cleanPath (URL_Path req) = CHR ''/'' # w" using canonical_Cons [OF cleanPath_canonical] by blast
  have c: "canonical (CHR ''/'' # w)" using cleanPath_canonical [of "URL_Path req"] w by simp
  have p: "CHR ''%'' \<notin> set w" using cleanPath_chars [of "CHR ''%''" "URL_Path req"] assms(2) w by auto
  have id: "cleanPath (CHR ''/'' # w) = CHR ''/'' # w" by (rule cleanPath_id [OF c])
  show ?thesis
  proof (cases "w = ''users''")
    case True
    have u: "u = ''/users/''"
      using assms(1,3,4) matchOrRedirect_plain [OF p, of "URL_Path req"] True w by (simp add: findHandler_def Let_def)
    have "canonical ''/users/''" unfolding canonical_def by (rule exI [of _ "[''users'']"]) (simp add: clean_elem_def)
    then show ?thesis using findHandler_plain [of "req\<lparr>URL_Path := u, EscapedPath := u\<rparr>" "''users/''"] u by simp
  next
    case False
    have u: "u = CHR ''/'' # w"
      using assms(1,3,4) matchOrRedirect_plain [OF p, of "URL_Path req"] False w
      by (auto simp: findHandler_def Let_def split: if_splits option.splits)
    then show ?thesis
      using findHandler_plain [of "req\<lparr>URL_Path := u, EscapedPath := u\<rparr>" w] p c False by simp
  qed
qed

definition twisted_request :: request where
  "twisted_request = \<lparr>Method = ''GET'', URL_Path = ''/x/..//users'', EscapedPath = ''/x/..//users'', RawQuery = [], Body = []\<rparr>"

theorem router_redirect_once_witness:
  "findHandler twisted_request = R_redirect ''/users/'' \<and> canonical ''/users/''"
proof -
  have "cleanPath ''/x/..//users'' = ''/users''" by (simp add: cleanPath_def path_Clean_def ends_slash_def Let_def)
  then have "findHandler twisted_request = R_redirect ''/users/''"
    using matchOrRedirect_plain [of "''users''" "''/x/..//users''"] by (simp add: findHandler_def twisted_request_def)
  then show ?thesis using router_redirect_once [of twisted_request "''/users/''"] by (simp add: twisted_request_def)
qed

end
