(* ===== verification/Api.thy ===== *)
theory Api
  imports Config Router
begin

text \<open>
  The start of the service: \<open>src/cmd/api/main.go\<close> up to the point where the server listens.
  The outside world is an argument: the environment variables, what the database and the cache
  answer to a connection, the number of processors, what the file system reports for the file of
  the pending events.
\<close>

record ('r, 'it, 'db) world =
  w_getenv :: "string \<Rightarrow> string"
  w_dial_pg :: "string \<Rightarrow> go_error + pg"
  w_redis :: "('r, 'it) redis"
  w_dial_redis :: "string \<Rightarrow> int \<Rightarrow> 'r"
  w_numCPU :: int
  w_bolt :: "'db bolt"
  w_mkdir :: "go_error option"
  w_open :: "go_error + 'db"

text \<open>The settings of the connection pool and of the HTTP server; times in nanoseconds.\<close>

record ('r, 'db) server =
  pool :: pool_settings
  connMaxLifetime :: int
  connMaxIdleTime :: int
  srv_handlers :: "('r, 'db) Handlers"
  Addr :: string
  ReadTimeout :: int
  WriteTimeout :: int
  IdleTimeout :: int

text \<open>\<open>log.Fatal\<close> ends the process with a message; a panic has none of the service's own.\<close>

datatype ('r, 'db) startup = Fatal string | Crashed | Listening "('r, 'db) server"

definition second :: int where "second = 1000000000"

definition open_cache :: "('r, 'it, 'db) world \<Rightarrow> Config \<Rightarrow> 'r Cache option" where
  "open_cache w cfg =
     (if CacheURL cfg \<noteq> [] then Some (NewFromURL (w_redis w) (w_dial_redis w) (CacheURL cfg) (CachePoolSize cfg))
      else None)"

definition api_main :: "('r, 'it, 'db) world \<Rightarrow> ('r, 'db) startup" where
  "api_main w =
     (case Load (w_getenv w) of
        Inl e \<Rightarrow> Fatal (error_text e)
      | Inr cfg \<Rightarrow>
          (case Connect (w_dial_pg w) (DatabaseURL cfg) of
             Inl e \<Rightarrow> Fatal (error_text e)
           | Inr (d, _) \<Rightarrow>
               (case NewEventStore d (SnowflakeNodeID cfg) of
                  None \<Rightarrow> Crashed
                | Some eventStore \<Rightarrow>
                    let repository = NewEventRepository eventStore (open_cache w cfg) in
                    (case NewEventQueue (w_bolt w) (w_mkdir w) (w_open w) eventStore DefaultQueueConfig of
                       None \<Rightarrow> Crashed
                     | Some (Inl e) \<Rightarrow> Fatal (''Failed to create event queue: '' @ error_text e)
                     | Some (Inr q) \<Rightarrow>
                         (case Start q of
                            (Some e, _) \<Rightarrow> Fatal (''Failed to start event queue: '' @ error_text e)
                          | (None, eq) \<Rightarrow>
                              Listening
                                \<lparr>pool = \<lparr>maxOpen = w_numCPU w * 4, maxIdle = w_numCPU w * 2\<rparr>,
                                 connMaxLifetime = 3600 * second, connMaxIdleTime = 15 * 60 * second,
                                 srv_handlers = SetEventQueue eq (NewHandlers repository),
                                 Addr = CHR '':'' # ServerPort cfg, ReadTimeout = 10 * second,
                                 WriteTimeout = 10 * second, IdleTimeout = 60 * second\<rparr>)))))"


section \<open>The state in which the service starts\<close>

lemma NewEventQueue_default:
  "NewEventQueue b mkdir open_res s DefaultQueueConfig \<noteq> None"
  "NewEventQueue b mkdir open_res s DefaultQueueConfig = Some (Inr q) \<Longrightarrow>
     q_inv q \<and> enq_calls q = [] \<and> \<not> started q \<and> eventCh q = [] \<and> config q = DefaultQueueConfig \<and>
     \<not> stopped q \<and> dlq q = \<lparr>dlq_events = [], dlq_maxSize = 1000\<rparr>"
  using NewEventQueue_inv [of b mkdir open_res s DefaultQueueConfig q]
  by (auto simp: NewEventQueue_def DefaultQueueConfig_def NewDeadLetterQueue_def Let_def
      split: if_splits sum.splits)

lemma Start_new:
  assumes "q_inv q" and "enq_calls q = []" and "\<not> started q" and "eventCh q = []" and "Start q = (None, eq)"
  shows "q_inv eq" and "enq_calls eq = []" and "started eq" and "eventCh eq = recovered q"
    and "config eq = config q" and "flush_at eq = F_select []" and "stopped eq = stopped q" and "dlq eq = dlq q"
proof -
  show "q_inv eq" using Start_inv [OF assms(1)] assms(5) by simp
  have l: "int (length (eventCh q)) \<le> MaxSize (config q)" using assms(1) by (simp add: q_inv_def loop_inv_def)
  show "enq_calls eq = []" "started eq" "eventCh eq = recovered q" "config eq = config q" "flush_at eq = F_select []"
      "stopped eq = stopped q" "dlq eq = dlq q"
    by (rule Start_cases [OF l]; use assms(2-5) in auto)+
qed

text \<open>
  What the server behind the cache holds at the start: answers of the database states that \<open>G\<close> gives
  for the database found at the start. The cache matches when these are the answers of that database;
  after an earlier run of the service they can be older.
\<close>

definition cache_left :: "('r, 'it, 'db) world \<Rightarrow> pg_env \<Rightarrow> ('r \<Rightarrow> string \<rightharpoonup> string) \<Rightarrow> (pg \<Rightarrow> pg set) \<Rightarrow> bool" where
  "cache_left w env con G \<longleftrightarrow>
     (\<forall>u d v n k x. w_dial_pg w u = Inr d \<longrightarrow> con (w_dial_redis w v n) k = Some x \<longrightarrow> answer_of env (G d) d k x)"

definition cache_matches :: "('r, 'it, 'db) world \<Rightarrow> pg_env \<Rightarrow> ('r \<Rightarrow> string \<rightharpoonup> string) \<Rightarrow> bool" where
  "cache_matches w env con \<longleftrightarrow> cache_left w env con (\<lambda>d. {d})"

lemma open_cache_from:
  assumes "cache_left w env con G" and "w_dial_pg w u = Inr d" and "db st = d"
  shows "cached_from env con (G d) (NewEventRepository st (open_cache w cfg))"
proof -
  have "con (w_dial_redis w v n) k = Some x \<Longrightarrow> answer_of env (G d) d k x" for v n k x
    using assms(1,2) unfolding cache_left_def by blast
  then show ?thesis
    using assms(3)
    by (auto simp: cached_from_def cached_text_def repo_db_def NewEventRepository_def open_cache_def NewFromURL_def
        NewCache_def entries_def Let_def split: option.splits if_splits)
qed

lemma api_main_law:
  "api_main w \<noteq> Crashed \<and>
   (\<forall>srv. api_main w = Listening srv \<longrightarrow>
      (\<exists>eq q. eventQueue (srv_handlers srv) = Some eq \<and> q_inv eq \<and> enq_calls eq = [] \<and> started eq \<and> flush_at eq = F_select [] \<and> config eq = DefaultQueueConfig \<and>
         \<not> stopped eq \<and> dlq eq = \<lparr>dlq_events = [], dlq_maxSize = 1000\<rparr> \<and>
         NewEventQueue (w_bolt w) (w_mkdir w) (w_open w) (repo_store (repo (srv_handlers srv))) DefaultQueueConfig = Some (Inr q) \<and>
         eventCh eq = recovered q) \<and>
      (1 \<le> w_numCPU w \<longrightarrow> 0 < maxIdle (pool srv) \<and> maxIdle (pool srv) \<le> maxOpen (pool srv)) \<and>
      ((\<forall>u d. w_dial_pg w u = Inr d \<longrightarrow> pg_ok d) \<longrightarrow> store_ok (repo_store (repo (srv_handlers srv)))) \<and>
      (cache_left w env con G \<longrightarrow> cached_from env con (G (repo_db (repo (srv_handlers srv)))) (repo (srv_handlers srv))))"
proof (cases "Load (w_getenv w)")
  case (Inl e)
  then show ?thesis by (simp add: api_main_def)
next
  case cfg: (Inr cfg)
  show ?thesis
  proof (cases "Connect (w_dial_pg w) (DatabaseURL cfg)")
    case (Inl e)
    then show ?thesis using cfg by (simp add: api_main_def)
  next
    case (Inr dp)
    then obtain d ps where d: "Connect (w_dial_pg w) (DatabaseURL cfg) = Inr (d, ps)" by (cases dp) auto
    then have dial: "w_dial_pg w (DatabaseURL cfg) = Inr d"
      by (auto simp: Connect_def ConnectWithPool_def split: if_splits sum.splits)
    obtain st where st: "NewEventStore d (SnowflakeNodeID cfg) = Some st" "db st = d" "typeCache st = Map.empty"
      using Load_store(2) [OF cfg] by blast
    let ?nq = "NewEventQueue (w_bolt w) (w_mkdir w) (w_open w) st DefaultQueueConfig"
    note ev = api_main_def cfg d st(1) Let_def
    obtain r where r: "?nq = Some r" using NewEventQueue_default(1) by fastforce
    show ?thesis
    proof (cases r)
      case (Inl e)
      then show ?thesis using r by (simp add: ev)
    next
      case (Inr q)
      note q = NewEventQueue_default(2) [OF r [unfolded Inr]]
      obtain x eq where s: "Start q = (x, eq)" by fastforce
      show ?thesis
      proof (cases x)
        case (Some e)
        then show ?thesis using r Inr s by (simp add: ev)
      next
        case None
        have "q_inv eq \<and> enq_calls eq = [] \<and> started eq \<and> flush_at eq = F_select [] \<and>
            config eq = DefaultQueueConfig \<and> \<not> stopped eq \<and> dlq eq = \<lparr>dlq_events = [], dlq_maxSize = 1000\<rparr> \<and>
            eventCh eq = recovered q"
          using Start_new [of q eq] q s None by simp
        moreover have "store_ok st" if "\<forall>u d. w_dial_pg w u = Inr d \<longrightarrow> pg_ok d"
          using that dial st(2,3) by (simp add: store_ok_def)
        moreover have "cache_left w env con G \<Longrightarrow>
            cached_from env con (G (repo_db (NewEventRepository st (open_cache w cfg)))) (NewEventRepository st (open_cache w cfg))"
          using open_cache_from [OF _ dial st(2)] st(2) by (simp add: repo_db_def NewEventRepository_def)
        ultimately show ?thesis
          using r Inr s None by (simp add: ev SetEventQueue_def NewHandlers_def) (simp add: NewEventRepository_def)
      qed
    qed
  qed
qed

text \<open>
  C18. The start of the service: whatever the environment, the database and the file system report,
  it does not crash but listens or ends with a message; and when it listens, the state satisfies
  what the guarantees of the endpoints ask for: the queue runs with its default configuration, no
  calls and no dead letters, holds the events recovered from the file, in order and up to its
  capacity, and keeps its invariant, the store agrees with the database, and the cache is as coherent
  as the one it connected to.
\<close>

theorem startup_ready:
  "api_main w \<noteq> Crashed \<and>
   (\<forall>srv. api_main w = Listening srv \<longrightarrow>
      (\<exists>eq q. eventQueue (srv_handlers srv) = Some eq \<and> q_inv eq \<and> enq_calls eq = [] \<and> started eq \<and> flush_at eq = F_select [] \<and> config eq = DefaultQueueConfig \<and>
         \<not> stopped eq \<and> dlq eq = \<lparr>dlq_events = [], dlq_maxSize = 1000\<rparr> \<and>
         NewEventQueue (w_bolt w) (w_mkdir w) (w_open w) (repo_store (repo (srv_handlers srv))) DefaultQueueConfig = Some (Inr q) \<and>
         eventCh eq = recovered q) \<and>
      (1 \<le> w_numCPU w \<longrightarrow> 0 < maxIdle (pool srv) \<and> maxIdle (pool srv) \<le> maxOpen (pool srv)) \<and>
      ((\<forall>u d. w_dial_pg w u = Inr d \<longrightarrow> pg_ok d) \<longrightarrow> store_ok (repo_store (repo (srv_handlers srv)))) \<and>
      (cache_matches w env con \<longrightarrow> coherent env con (repo (srv_handlers srv))))"
  using api_main_law [of w env con "\<lambda>d. {d}"] unfolding cache_matches_def coherent_def .

definition demo_world :: "((string \<times> string) list, string list, mem_db) world" where
  "demo_world =
     \<lparr>w_getenv = (\<lambda>v. if v = ''DATABASE_URL'' then ''postgres://db'' else if v = ''CACHE_URL'' then ''cache:6379'' else []),
      w_dial_pg = (\<lambda>_. Inr two_users), w_redis = mem_redis, w_dial_redis = (\<lambda>_ _. []), w_numCPU = 8,
      w_bolt = mem_bolt, w_mkdir = None, w_open = Inr []\<rparr>"

lemma demo_log: "NewPersistence mem_bolt None (Inr []) ''/data/pending_events.db'' = Inr (mem_p\<lparr>path := ''/data/pending_events.db''\<rparr>)"
    "Recover (mem_p\<lparr>path := ''/data/pending_events.db''\<rparr>) = Inr []"
  by (simp_all add: NewPersistence_def Recover_def mem_p_def mem_bolt_def no_bucket_def map_filter_simps bucketName_def)

lemma demo_world_recovered:
  "NewEventQueue (w_bolt demo_world) (w_mkdir demo_world) (w_open demo_world) st DefaultQueueConfig = Some (Inr q) \<Longrightarrow> recovered q = []"
  using demo_log
  by (auto simp: demo_world_def NewEventQueue_def DefaultQueueConfig_def NewDeadLetterQueue_def Let_def ms_def recovered_def)

lemma demo_world_listens: "\<exists>srv. api_main demo_world = Listening srv"
proof -
  obtain cfg where cfg: "Load (w_getenv demo_world) = Inr cfg" by (simp add: Load_def Let_def demo_world_def)
  obtain st where st: "NewEventStore two_users (SnowflakeNodeID cfg) = Some st" using Load_store(2) [OF cfg] by blast
  obtain q where q: "NewEventQueue mem_bolt None (Inr []) st DefaultQueueConfig = Some (Inr q)" "\<not> started q"
      "persistence q = Some (mem_p\<lparr>path := ''/data/pending_events.db''\<rparr>)"
    using demo_log(1) by (simp add: NewEventQueue_def DefaultQueueConfig_def NewDeadLetterQueue_def Let_def ms_def)
  then obtain eq where "Start q = (None, eq)" using demo_log(2) by (simp add: Start_def Let_def)
  then show ?thesis
    using cfg st q by (simp add: api_main_def Connect_def ConnectWithPool_def Let_def) (simp add: demo_world_def)
qed

theorem startup_ready_witness:
  "\<exists>srv eq. api_main demo_world = Listening srv \<and> eventQueue (srv_handlers srv) = Some eq \<and> q_inv eq \<and>
     store_ok (repo_store (repo (srv_handlers srv))) \<and> coherent plain_env map_of (repo (srv_handlers srv)) \<and>
     0 < maxIdle (pool srv)"
proof -
  have "pg_ok two_users" using demo_store_ok [of "[]"] by (simp add: store_ok_def demo_store_def pg_ok_def)
  then have d: "\<forall>u d. w_dial_pg demo_world u = Inr d \<longrightarrow> pg_ok d" by (simp add: demo_world_def)
  have c: "cache_matches demo_world plain_env map_of"
    by (simp add: cache_matches_def cache_left_def demo_world_def)
  have n: "1 \<le> w_numCPU demo_world" by (simp add: demo_world_def)
  show ?thesis using startup_ready [of demo_world plain_env map_of] demo_world_listens d c n by blast
qed

end
