(* ===== verification/Service.thy ===== *)
theory Service
  imports Api
begin

text \<open>
  The running service: requests that go through the router, interleaved with the steps of the
  flush goroutine, of the goroutines behind the persistent log and of the shutdown. The store is
  the one that the repositories and the queue share. A request is one step of the relation; the
  interleavings inside \<open>Enqueue\<close> are the subject of the theory of the queue. The second half is the
  graceful stop at the end of \<open>src/cmd/api/main.go\<close>.
\<close>


section \<open>Retries keep what the store keeps\<close>

lemma attempt_state: "attempt cfg ctx fn a d s = (oc, s') \<Longrightarrow> s' = snd (fn s)"
  by (auto simp: attempt_def split: prod.splits option.splits if_splits)

lemma retry_loop_keeps:
  assumes "\<forall>s. P s \<longrightarrow> P (snd (fn s))" and "P s" and "retry_loop cfg ctx fn a d le s = (r, ds, s')"
  shows "P s'"
  using assms
proof (induction cfg ctx fn a d le s arbitrary: r ds s' rule: retry_loop.induct)
  case (1 cfg ctx fn a d le s)
  obtain oc t where at: "attempt cfg ctx fn a d s = (oc, t)" by fastforce
  have t: "P t" using "1.prems"(1,2) attempt_state [OF at] by simp
  show ?case
  proof (cases "a < MaxAttempts cfg")
    case False
    then show ?thesis using "1.prems"(2,3) by (simp add: retry_loop.simps [of cfg ctx fn a])
  next
    case True
    show ?thesis
    proof (cases oc)
      case (Return x)
      then show ?thesis using "1.prems"(3) True at t by (simp add: retry_loop.simps [of cfg ctx fn a])
    next
      case (Continue e d' sl)
      obtain r2 ds2 s2 where rl: "retry_loop cfg ctx fn (a + 1) d' (Some e) t = (r2, ds2, s2)" by (metis prod_cases3)
      have "P s2" by (rule "1.IH" [OF True at [symmetric] Continue "1.prems"(1) t rl])
      then show ?thesis using "1.prems"(3) True at Continue rl by (simp add: retry_loop.simps [of cfg ctx fn a])
    qed
  qed
qed

lemma BatchRetry_keeps:
  assumes "\<And>xs s. P s \<Longrightarrow> P (snd (fn xs s))" and "\<And>x s. P s \<Longrightarrow> P (snd (itemFn x s))" and "P s"
    and "BatchRetry env cfg items fn itemFn s q = Some (s', q')"
  shows "P s'"
proof (cases "items = []")
  case True
  then show ?thesis using assms(3,4) by (simp add: BatchRetry_def)
next
  case False
  obtain r ds t where w: "WithRetry (env_batch env) cfg (fn items) s = (r, ds, t)" by (metis prod_cases3)
  have t: "P t" using retry_loop_keeps [of P "fn items"] assms(1,3) w unfolding WithRetry_def by blast
  show ?thesis
  proof (cases "Success r")
    case True
    then show ?thesis using assms(4) False w t by (simp add: BatchRetry_def)
  next
    case fails: False
    have "P (bstore (run_sched cfg env itemFn items (env_sched env) (spawn items t q)))"
    proof (rule run_sched_invariant [where I = "\<lambda>b. P (bstore b)"])
      fix b b' assume "batch_move cfg env itemFn items b b'" and "P (bstore b)"
      then show "P (bstore b')"
        by (induction rule: batch_move.induct) (auto dest!: attempt_state simp: assms(2))
    qed (simp add: spawn_def t)
    then show ?thesis using assms(4) False fails w by (auto simp: BatchRetry_def Let_def split: if_splits)
  qed
qed

lemma loop_step_keeps:
  assumes "\<And>xs s. P s \<Longrightarrow> P (snd (ins xs s))" and "P (store eq)"
  shows "P (store (loop_step ins env now eq))"
proof (cases "flush_at eq")
  case (F_insert ending batch)
  show ?thesis
  proof (cases "flush_insert ins env batch eq")
    case None
    then show ?thesis using F_insert assms(2) by (simp add: loop_step_def)
  next
    case (Some x)
    have "P (store (snd x))"
      using Some BatchRetry_keeps [of P "batchInsertWrapper ins" "insertSingleWrapper ins" "store eq"] assms
      by (auto simp: flush_insert_def batchInsertWrapper_def insertSingleWrapper_def Let_def split: option.splits prod.splits)
    then show ?thesis using F_insert Some by (auto simp: loop_step_def split: prod.splits)
  qed
qed (auto simp: loop_step_def Let_def flush_remove_def flush_account_def assms(2) split: option.splits)

lemma requeue_store: "store (requeue es eq) = store eq" "enq_calls (requeue es eq) = enq_calls eq"
  by (induction es arbitrary: eq) auto

text \<open>The steps that are not part of a call of \<open>Enqueue\<close>.\<close>

fun background :: "q_action \<Rightarrow> bool" where
  "background (Q_enqueue u t m i) = False"
| "background (Q_call k now) = False"
| "background _ = True"

lemma Shutdown_step_frame:
  "Shutdown_step b eq = Some eq' \<Longrightarrow> store eq' = store eq \<and> enq_calls eq' = enq_calls eq"
  by (auto simp: Shutdown_step_def split: shutdown_call.splits option.splits if_splits prod.splits)

lemma loop_calls: "enq_calls (loop_step ins env now eq) = enq_calls eq"
proof (cases "flush_at eq")
  case (F_insert ending batch)
  then show ?thesis
    by (auto simp: loop_step_def flush_insert_def Let_def split: option.splits prod.splits)
qed (auto simp: loop_step_def Let_def flush_remove_def flush_account_def split: option.splits)

lemma background_keeps:
  assumes "background a" and "q_step ins a eq = Some eq'"
    and "\<And>xs s. P s \<Longrightarrow> P (snd (ins xs s))" and "P (store eq)"
  shows "P (store eq') \<and> enq_calls eq' = enq_calls eq"
proof (cases a)
  case Q_start
  then show ?thesis
    using assms(2,4) by (auto simp: q_step_def Start_def Let_def requeue_store split: option.splits sum.splits)
next
  case (Q_loop env now)
  then show ?thesis using assms(2) loop_step_keeps [OF assms(3,4)] by (auto simp: q_step_def loop_calls)
next
  case (Q_shut b)
  then show ?thesis using assms(2,4) Shutdown_step_frame [of b eq eq'] by (auto simp: q_step_def)
qed (use assms in \<open>auto simp: q_step_def loop_recv_def loop_tick_def loop_signal_def Shutdown_def
    split: option.splits flusher.splits list.splits if_splits prod.splits\<close>)


text \<open>The queue has been started with the configuration of the service.\<close>

definition running :: "('s, 'db) EventQueue \<Rightarrow> bool" where
  "running eq \<longleftrightarrow> started eq \<and> flush_at eq \<noteq> F_none \<and> config eq = DefaultQueueConfig"

lemma loop_running: "running eq \<Longrightarrow> running (loop_step ins env now eq)"
  by (cases "flush_at eq")
    (auto simp: running_def loop_step_def flush_insert_def flush_remove_def flush_account_def Let_def
      split: option.splits prod.splits)

lemma q_step_running:
  assumes "q_step ins a eq = Some eq'" and "running eq"
  shows "running eq'"
proof (cases a)
  case (Q_loop env now)
  then show ?thesis using assms by (auto simp: q_step_def loop_running)
next
  case Q_start
  then show ?thesis using assms by (auto simp: q_step_def Start_def running_def)
next
  case (Q_call k now)
  then show ?thesis
    using assms
    by (auto simp: q_step_def running_def Enqueue_step_def set_call_def split: if_splits enqueue_call.splits option.splits)
next
  case (Q_shut b)
  then show ?thesis
    using assms by (auto simp: q_step_def running_def Shutdown_step_def split: shutdown_call.splits option.splits if_splits)
qed (use assms in \<open>auto simp: q_step_def running_def loop_recv_def loop_tick_def loop_signal_def Shutdown_def
    split: option.splits flusher.splits list.splits if_splits prod.splits\<close>)


section \<open>Requests keep the store\<close>

definition repo_keeps :: "'r repository \<Rightarrow> 'r repository \<Rightarrow> bool" where
  "repo_keeps s s' \<longleftrightarrow> store_ok (repo_store s) \<longrightarrow> keeps_store (repo_store s) (repo_store s')"

lemma repo_keeps_refl [simp]: "repo_keeps s s"
  by (simp add: repo_keeps_def keeps_store_refl)

lemma repo_keeps_same: "repo_store s' = repo_store s \<Longrightarrow> repo_keeps s s'"
  by (simp add: repo_keeps_def keeps_store_refl)

lemma repo_keeps_trans: "repo_keeps a b \<Longrightarrow> repo_keeps b c \<Longrightarrow> repo_keeps a c"
  using keeps_store_trans by (auto simp: repo_keeps_def keeps_store_def)

lemma from_cache_keeps: "from_cache f s = (x, s') \<Longrightarrow> repo_keeps s s'"
  by (rule repo_keeps_same) (auto simp: from_cache_def split: option.splits prod.splits)

lemma to_cache_keeps: "repo_keeps s (to_cache rd k v ttl s)"
  by (rule repo_keeps_same) (simp add: to_cache_def)

lemma in_store_keeps:
  assumes "in_store f s = (x, s')" and "\<And>st. store_ok st \<Longrightarrow> keeps_store st (snd (f st))"
  shows "repo_keeps s s'"
  using assms(1) assms(2) [of "repo_store s"] by (auto simp: repo_keeps_def in_store_def split: prod.splits)

lemma fetch_page_keeps:
  assumes "fetch_page p l u s = (x, s')"
  shows "repo_keeps s s'"
proof -
  obtain y s1 where y: "in_store (GetPaginated p l u) s = (y, s1)" by fastforce
  have 1: "repo_keeps s s1" by (rule in_store_keeps [OF y]) (use store_ops_keep in blast)
  obtain z s2 where z: "in_store (GetTotal u) s1 = (z, s2)" by fastforce
  have 2: "repo_keeps s1 s2" by (rule in_store_keeps [OF z]) (use store_ops_keep in blast)
  show ?thesis
    using assms y z 1 repo_keeps_trans [OF 1 2] by (auto simp: fetch_page_def split: sum.splits)
qed

lemma cached_flight_keeps:
  assumes "cached_flight rd p l u s = (x, s')"
  shows "repo_keeps s s'"
proof -
  obtain b s1 where b: "from_cache (GetBytes rd (EventsKey p l u)) s = (b, s1)" by fastforce
  obtain y s2 where y: "fetch_page p l u s1 = (y, s2)" by fastforce
  note 1 = from_cache_keeps [OF b] and 2 = repo_keeps_trans [OF from_cache_keeps [OF b] fetch_page_keeps [OF y]]
  show ?thesis
    using assms b y 1 2 repo_keeps_trans [OF 2 to_cache_keeps]
    by (auto simp: cached_flight_def Let_def split: option.splits sum.splits)
qed

lemma GetPaginatedCached_keeps:
  assumes "GetPaginatedCached rd fl p l u s = Some (x, s')"
  shows "repo_keeps s s'"
proof -
  obtain b s1 where b: "from_cache (GetBytes rd (EventsKey p l u)) s = (b, s1)" by fastforce
  obtain y s2 where y: "cached_flight rd p l u s1 = (y, s2)" by fastforce
  note 1 = from_cache_keeps [OF b] and 2 = repo_keeps_trans [OF from_cache_keeps [OF b] cached_flight_keeps [OF y]]
  show ?thesis
    using assms b y 1 2
    by (auto simp: GetPaginatedCached_def split: option.splits sum.splits prod.splits flight_result.splits)
qed

lemma GetOrCreateTypeID_repo_keeps:
  assumes "GetOrCreateTypeID_repo rd t s = (x, s')"
  shows "repo_keeps s s'"
proof -
  obtain b s1 where b: "from_cache (Get_cache rd unmarshal_int64 (EventTypeIdKey t)) s = (b, s1)" by fastforce
  obtain y s2 where y: "in_store (GetOrCreateTypeID t) s1 = (y, s2)" by fastforce
  have "repo_keeps s1 s2" by (rule in_store_keeps [OF y]) (use store_ops_keep in blast)
  note 1 = from_cache_keeps [OF b] and 2 = repo_keeps_trans [OF from_cache_keeps [OF b] this]
  show ?thesis
    using assms b y 1 2 repo_keeps_trans [OF 2 to_cache_keeps]
    by (auto simp: GetOrCreateTypeID_repo_def Let_def split: option.splits sum.splits)
qed

lemma InsertEventWithID_repo_keeps:
  assumes "InsertEventWithID_repo rd env e s = Some (x, s')"
  shows "repo_keeps s s'"
proof -
  obtain y s1 where y: "in_store (InsertEventWithID env e) s = (y, s1)" by fastforce
  have 1: "repo_keeps s s1" by (rule in_store_keeps [OF y]) (use store_ops_keep in blast)
  have "repo_keeps s1 s2" if "invalidateCaches rd s1 = Some s2" for s2
    by (rule repo_keeps_same) (rule invalidateCaches_store [OF that])
  then show ?thesis
    using assms y 1 repo_keeps_trans [OF 1] by (auto simp: InsertEventWithID_repo_def split: option.splits)
qed

lemma CreateEventWithType_repo_keeps:
  assumes "CreateEventWithType_repo rd env clk u t m k s = Some (x, s', k')"
  shows "repo_keeps s s'"
proof -
  obtain y st j where y: "CreateEventWithType env clk u t m k (repo_store s) = Some (y, st, j)"
    using assms by (auto simp: CreateEventWithType_repo_def split: option.splits)
  have "repo_store s' = st"
    using assms y invalidateCaches_store
    by (auto simp: CreateEventWithType_repo_def split: sum.splits option.splits dest: invalidateCaches_store)
  then show ?thesis using CreateEventWithType_keeps [OF _ y] by (simp add: repo_keeps_def)
qed

lemma GenerateEventID_repo_keeps: "GenerateEventID_repo clk k s = Some (x, s', k') \<Longrightarrow> repo_keeps s s'"
  using GenerateEventID_keeps by (auto simp: GenerateEventID_repo_def repo_keeps_def)

lemma GetStats_store_keeps:
  assumes "store_ok st"
  shows "keeps_store st (snd (on_db (GetStats_store env d) st))"
proof -
  have "snd (on_db (GetStats_store env d) st) = snd (on_db (query (\<lambda>d'. Inr (select_stats env d d'))) st)"
    by (auto simp: on_db_def GetStats_store_def split: prod.splits sum.splits)
  then show ?thesis using query_keeps [OF assms] by simp
qed

lemma GetStats_repo_keeps:
  assumes "GetStats_repo rd env d s = (x, s')"
  shows "repo_keeps s s'"
proof -
  obtain b s1 where b: "from_cache (GetBytes rd (stats_key d)) s = (b, s1)" by fastforce
  obtain y s2 where y: "in_store (on_db (GetStats_store env d)) s1 = (y, s2)" by fastforce
  have "repo_keeps s1 s2" by (rule in_store_keeps [OF y]) (rule GetStats_store_keeps)
  note 1 = from_cache_keeps [OF b] and 2 = repo_keeps_trans [OF from_cache_keeps [OF b] this]
  show ?thesis
    using assms b y 1 2 repo_keeps_trans [OF 2 to_cache_keeps]
    by (auto simp: GetStats_repo_def split: option.splits sum.splits)
qed

lemma lookup_type_keeps:
  assumes "lookup_type t s = (x, s')"
  shows "repo_keeps s s'"
proof -
  obtain y s1 where y: "GetEventTypeId_repo t s = (y, s1)" by fastforce
  have "repo_keeps s s1"
    by (rule in_store_keeps [OF y [unfolded GetEventTypeId_repo_def]]) (use store_ops_keep in blast)
  then show ?thesis using assms y by (auto simp: lookup_type_def split: if_splits sum.splits)
qed


section \<open>Requests keep the queue\<close>

definition other_calls :: "nat \<Rightarrow> enqueue_call list \<Rightarrow> enqueue_call list \<Rightarrow> bool" where
  "other_calls k cs cs' \<longleftrightarrow> length cs' = length cs \<and> (\<forall>j < length cs. j \<noteq> k \<longrightarrow> cs' ! j = cs ! j)"

lemma Enqueue_step_frame:
  assumes "Enqueue_step k now eq = Some eq'"
  shows "store eq' = store eq" and "other_calls k (enq_calls eq) (enq_calls eq')"
    and "running eq \<Longrightarrow> running eq'"
  using assms
  by (auto simp: Enqueue_step_def set_call_def other_calls_def running_def split: if_splits enqueue_call.splits option.splits)

lemma enqueue_steps:
  assumes "q_inv eq" and "running eq" and "((\<lambda>x. Option.bind x (Enqueue_step k now)) ^^ n) (Some eq) = Some eq'"
  shows "q_inv eq' \<and> store eq' = store eq \<and> running eq' \<and> other_calls k (enq_calls eq) (enq_calls eq')"
  using assms(3)
proof (induction n arbitrary: eq')
  case (Suc n)
  then obtain eq1 where e: "((\<lambda>x. Option.bind x (Enqueue_step k now)) ^^ n) (Some eq) = Some eq1"
      "Enqueue_step k now eq1 = Some eq'"
    by (auto simp: Option.bind_eq_Some_conv)
  then show ?case
    using Suc.IH [OF e(1)] Enqueue_step_inv [of eq1 k now] Enqueue_step_frame [OF e(2)]
    by (auto simp: other_calls_def)
qed (use assms(1,2) in \<open>simp add: other_calls_def\<close>)

text \<open>No call of \<open>Enqueue\<close> is under way beyond its first check.\<close>

definition calls_idle :: "('s, 'db) EventQueue \<Rightarrow> bool" where
  "calls_idle eq \<longleftrightarrow> list_all idle_call (enq_calls eq)"

lemma calls_idle_lock_free: "calls_idle eq \<Longrightarrow> lock_free eq"
  unfolding calls_idle_def lock_free_def by (erule list.pred_mono_strong) (auto elim!: idle_call.elims)

lemma Enqueue_alone_keeps:
  assumes "q_inv eq" and "calls_idle eq" and "running eq" and "Enqueue_alone u t m i now eq = Some (r, eq')"
  shows "q_inv eq' \<and> calls_idle eq' \<and> running eq' \<and> store eq' = store eq"
proof -
  let ?k = "length (enq_calls eq)" and ?eq = "eq\<lparr>enq_calls := enq_calls eq @ [E_check u t m i]\<rparr>"
  have q: "q_inv ?eq" using q_step_inv [OF assms(1), of _ "Q_enqueue u t m i"] by (simp add: q_step_def)
  have run: "((\<lambda>x. Option.bind x (Enqueue_step ?k now)) ^^ 6) (Some ?eq) = Some eq'"
    and ret: "enq_calls eq' ! ?k = E_return r"
    using assms(4) by (auto simp: Enqueue_alone_def Let_def split: option.splits enqueue_call.splits)
  have "running ?eq" using assms(3) by (simp add: running_def)
  note s = enqueue_steps [OF q this run]
  have "idle_call (enq_calls eq' ! j)" if "j < length (enq_calls eq')" for j
  proof (cases "j = ?k")
    case False
    then have "j < ?k" "enq_calls eq' ! j = enq_calls eq ! j"
      using s that by (auto simp: other_calls_def nth_append)
    then show ?thesis using assms(2) by (simp add: calls_idle_def list_all_length)
  qed (simp add: ret)
  then show ?thesis using s assms(3) by (simp add: calls_idle_def list_all_length)
qed


section \<open>The invariant of the service\<close>

text \<open>
  The queue and its calls are in order, the store agrees with the schema, and it has all the rows
  of the store at the start.
\<close>

definition service_ok :: "EventStore \<Rightarrow> ('r, 'db) Handlers \<Rightarrow> bool" where
  "service_ok st0 h \<longleftrightarrow> (\<exists>eq. eventQueue h = Some eq \<and> q_inv eq \<and> calls_idle eq \<and> running eq) \<and>
     keeps_store st0 (repo_store (repo h))"

lemma service_ok_repo:
  assumes "service_ok st0 h" and "repo_keeps (repo h) (repo h')" and "eventQueue h' = eventQueue h"
  shows "service_ok st0 h'"
  using assms keeps_store_trans by (auto simp: service_ok_def repo_keeps_def keeps_store_def)

lemma service_ok_queue:
  assumes "service_ok st0 h" and "repo_keeps (repo h) (repo h')" and "eventQueue h' = Some eq" and "q_inv eq" and "calls_idle eq" and "running eq"
  shows "service_ok st0 h'"
  using assms keeps_store_trans by (auto simp: service_ok_def repo_keeps_def keeps_store_def)

lemma insertEventSync_frame:
  assumes "insertEventSyncAndRespond rd ce input i md h = Some (r, h')"
  shows "repo_keeps (repo h) (repo h') \<and> eventQueue h' = eventQueue h"
proof -
  obtain g rp where g: "GetOrCreateTypeID_repo rd (in_Type input) (repo h) = (g, rp)" by fastforce
  note 1 = GetOrCreateTypeID_repo_keeps [OF g]
  show ?thesis
    using assms g 1 repo_keeps_trans [OF 1 InsertEventWithID_repo_keeps]
    by (auto simp: insertEventSyncAndRespond_def Let_def split: sum.splits option.splits)
qed

lemma createEventAsync_keeps:
  assumes "service_ok st0 h" and "eventQueue h = Some eq" and "createEventAsync rd ce input k eq h = Some (r, h', k')"
  shows "service_ok st0 h'"
proof -
  have q: "q_inv eq" "calls_idle eq" "running eq" using assms(1,2) by (auto simp: service_ok_def)
  obtain g rp k1 where g: "GenerateEventID_repo (ce_clock ce) k (repo h) = Some (g, rp, k1)"
    using assms(3) by (auto simp: createEventAsync_def split: option.splits)
  note rk = GenerateEventID_repo_keeps [OF g]
  show ?thesis
  proof (cases g)
    case (Inl e)
    then show ?thesis using assms(3) g rk by (auto simp: createEventAsync_def intro: service_ok_repo [OF assms(1)])
  next
    case (Inr i)
    obtain res eq' where e: "Enqueue_alone (in_UserID input) (in_Type input) (Some (or_empty_object (in_Metadata input))) i (ce_enqueued ce) eq = Some (res, eq')"
      using assms(3) g Inr by (auto simp: createEventAsync_def Let_def split: option.splits)
    note q' = Enqueue_alone_keeps [OF q e]
    let ?h2 = "h\<lparr>repo := rp, eventQueue := Some eq'\<rparr>"
    have h2: "service_ok st0 ?h2" by (rule service_ok_queue [OF assms(1), where eq = eq']) (use rk q' in simp_all)
    consider (sync) "insertEventSyncAndRespond rd ce input i (or_empty_object (in_Metadata input)) ?h2 = Some (r, h')"
      | (failed) "h' = ?h2" | (accepted) rp' where "invalidateCaches rd rp = Some rp'" "h' = ?h2\<lparr>repo := rp'\<rparr>"
      using assms(3) g Inr e
      by (auto simp: createEventAsync_def InvalidateCaches_def Let_def split: option.splits if_splits)
    then show ?thesis
    proof cases
      case sync
      then show ?thesis using insertEventSync_frame [OF sync] by (intro service_ok_repo [OF h2]) auto
    next
      case (accepted rp')
      have "repo_keeps rp rp'" by (rule repo_keeps_same) (rule invalidateCaches_store [OF accepted(1)])
      then show ?thesis using accepted(2) by (intro service_ok_repo [OF h2]) auto
    qed (simp add: h2)
  qed
qed

lemma GetStats_handler_frame:
  assumes "GetStats_handler rd ce req h = (r, h')"
  shows "repo_keeps (repo h) (repo h') \<and> eventQueue h' = eventQueue h"
proof -
  let ?from = "parseTimestamp (query_get req ''from'')" and ?to = "parseTimestamp (query_get req ''to'')"
  obtain q s1 where l: "lookup_type (query_get req ''type'') (repo h) = (q, s1)" by fastforce
  note 1 = lookup_type_keeps [OF l]
  have raw: "repo_keeps s1 s2" if "GetStatsRaw rd d s1 = (x, s2)" for d x s2
    using from_cache_keeps that unfolding GetStatsRaw_def by blast
  note 2 = repo_keeps_trans [OF 1 raw] and 3 = repo_keeps_trans [OF repo_keeps_trans [OF 1 raw] GetStats_repo_keeps]
  show ?thesis
    using assms l 1 2 3
    by (cases ?from; cases ?to; cases q)
      (auto simp: GetStats_handler_def Let_def split: prod.splits option.splits sum.splits)
qed

lemma handler_keeps:
  assumes "router_New rd ce req (h, k) = Answered r (h', k')" and "service_ok st0 h"
  shows "service_ok st0 h'"
proof -
  obtain eq where eq: "eventQueue h = Some eq" using assms(2) by (auto simp: service_ok_def)
  have page: "service_ok st0 (h\<lparr>repo := rp\<rparr>)" if "GetPaginatedCached rd fl p l u (repo h) = Some (x, rp)" for fl p l u x rp
    by (rule service_ok_repo [OF assms(2)]) (use GetPaginatedCached_keeps [OF that] in simp_all)
  consider (get) "GetEventsPaginated rd ce req h = Some (r, h')"
    | (create) "CreateEvent rd ce req k h = Some (r, h', k')"
    | (user) "GetUserEventsPaginated rd ce req h = Some (r, h')"
    | (stats) "GetStats_handler rd ce req h = (r, h')" | (none) "h' = h"
    using assms(1)
    by (auto simp: router_New_def events_route_def users_route_def stats_route_def methodHandler_def answer_def
        methodNotAllowed_def NotFound_def split: route.splits pattern.splits if_splits option.splits prod.splits)
  then show ?thesis
  proof cases
    case get
    then show ?thesis using page by (auto simp: GetEventsPaginated_def Let_def split: option.splits)
  next
    case user
    then show ?thesis
      using page assms(2) by (auto simp: GetUserEventsPaginated_def Let_def split: option.splits if_splits)
  next
    case stats
    then show ?thesis using GetStats_handler_frame [OF stats] by (intro service_ok_repo [OF assms(2)]) auto
  next
    case create
    then show ?thesis
      using assms(2) eq createEventAsync_keeps [OF assms(2) eq]
      by (auto simp: CreateEvent_def split: option.splits if_splits)
  qed (simp add: assms(2))
qed

text \<open>
  A step of the queue on the store that the repositories share.
\<close>

definition queue_turn :: "pg_env \<Rightarrow> q_action \<Rightarrow> ('r, 'db) Handlers \<Rightarrow> ('r, 'db) Handlers option" where
  "queue_turn env a h =
     (case eventQueue h of
        None \<Rightarrow> Some h
      | Some eq \<Rightarrow>
          map_option (\<lambda>eq'. h\<lparr>repo := (repo h)\<lparr>repo_store := store eq'\<rparr>, eventQueue := Some eq'\<rparr>)
            (q_step (BatchInsertEventsContext env) a (eq\<lparr>store := repo_store (repo h)\<rparr>)))"

lemma q_inv_store: "q_inv (eq\<lparr>store := s\<rparr>) = q_inv eq"
  by (simp add: q_inv_def loop_inv_def call_inv_def)

lemma queue_turn_ok:
  assumes "service_ok st0 h" and "background a"
  shows "\<exists>h'. queue_turn env a h = Some h' \<and> service_ok st0 h'"
proof -
  obtain eq where eq: "eventQueue h = Some eq" "q_inv eq" "calls_idle eq" "running eq" and k: "keeps_store st0 (repo_store (repo h))"
    using assms(1) by (auto simp: service_ok_def)
  obtain eq' where s: "q_step (BatchInsertEventsContext env) a (eq\<lparr>store := repo_store (repo h)\<rparr>) = Some eq'" "q_inv eq'"
    using q_step_inv [OF q_inv_store [THEN iffD2, OF eq(2)]] by blast
  have ins: "keeps_store st0 (snd (BatchInsertEventsContext env es st))" if "keeps_store st0 st" for es st
  proof -
    have "store_ok st" using that by (simp add: keeps_store_def)
    then have "keeps_store st (snd (BatchInsertEventsContext env es st))" using store_ops_keep by blast
    then show ?thesis by (rule keeps_store_trans [OF that])
  qed
  have "keeps_store st0 (store eq') \<and> enq_calls eq' = enq_calls (eq\<lparr>store := repo_store (repo h)\<rparr>)"
    by (rule background_keeps [OF assms(2) s(1)]) (simp_all add: ins k)
  moreover have "running eq'" using q_step_running [OF s(1)] eq(4) by (simp add: running_def)
  ultimately show ?thesis using eq s by (simp add: queue_turn_def service_ok_def calls_idle_def)
qed

inductive service_step :: "('r, 'it) redis \<Rightarrow> ('r, 'db) service \<Rightarrow> ('r, 'db) service \<Rightarrow> bool"
  for rd where
  request: "Logging (router_New rd ce) req (h, k) = Answered r (h', k') \<Longrightarrow> service_step rd (h, k) (h', k')"
| turn: "background a \<Longrightarrow> queue_turn env a h = Some h' \<Longrightarrow> service_step rd (h, k) (h', k)"

inductive_cases service_stepE: "service_step rd s s'"

lemma service_step_ok:
  assumes "service_step rd s s'" and "service_ok st0 (fst s)"
  shows "service_ok st0 (fst s')"
  using assms(1)
proof (cases rule: service_stepE [consumes 1, case_names request turn])
  case (request ce req h k r h' k')
  then show ?thesis using handler_keeps [of rd ce req h k r h' k' st0] assms(2) by (simp add: Logging_def)
next
  case (turn a env h h' k)
  then show ?thesis using queue_turn_ok [of st0 h a env] assms(2) by auto
qed

lemma service_run_ok:
  assumes "(service_step rd)\<^sup>*\<^sup>* s s'" and "service_ok st0 (fst s)"
  shows "service_ok st0 (fst s')"
  using assms by (induction rule: rtranclp_induct) (auto dest: service_step_ok)

section \<open>What the cache holds in a run\<close>

text \<open>Operations that change the store, or take entries out of the cache.\<close>

lemma cached_from_store:
  assumes "cached_from env con H s" and "repo_cache s' = repo_cache s" and "keeps_store (repo_store s) (repo_store s')"
  shows "cached_from env con H s'"
  by (rule adds_only_from [OF adds_only_cache [OF assms(2), where key = "[]" and v = None] assms(1)])
    (use assms(3) in \<open>auto simp: keeps_store_def store_le_def pg_le_def repo_db_def\<close>)

lemma cached_from_invalidate:
  assumes "redis_ok rd con glob" and "cached_from env con H s" and "invalidateCaches rd s = Some s'"
  shows "cached_from env con H s'"
proof -
  have "adds_only con s s' [] None" "repo_store s' = repo_store s"
    using invalidateCaches_law [OF assms(1), of s "[]" None] assms(3) by auto
  then show ?thesis by (intro adds_only_from [OF _ assms(2)]) (auto simp: repo_db_def)
qed

lemma GetOrCreateTypeID_cached:
  assumes "commands_ok rd con" and "cached_from env con H s" and "store_ok (repo_store s)"
    and "GetOrCreateTypeID_repo rd n s = (r, s')"
  shows "cached_from env con H s'"
proof -
  obtain i where i: "keeps_store (repo_store s) (repo_store s')"
      "adds_only con s s' (EventTypeIdKey n) (map_option (\<lambda>i. fmt_d (sint i)) i)"
      "\<forall>t. i = Some t \<longrightarrow> (t, n) \<in> set (event_types (repo_db s'))"
    using GetOrCreateTypeID_repo_law [OF assms(1) cached_from_types [OF assms(2)] assms(3), of n] assms(4) by auto
  show ?thesis
    by (rule adds_only_from [OF i(2) assms(2)])
      (use i(1,3) answer_type in \<open>auto simp: keeps_store_def store_le_def pg_le_def repo_db_def\<close>)
qed

lemma InsertEventWithID_cached:
  assumes "redis_ok rd con glob" and "cached_from env con H s" and "store_ok (repo_store s)"
    and "InsertEventWithID_repo rd pe e s = Some (r, s')"
  shows "cached_from env con H s'"
proof -
  obtain q st where q: "InsertEventWithID pe e (repo_store s) = (q, st)" by fastforce
  have "cached_from env con H (s\<lparr>repo_store := st\<rparr>)"
    by (rule cached_from_store [OF assms(2)]) (use InsertEventWithID_keeps [OF assms(3) q] in simp_all)
  then show ?thesis
    using assms(4) q cached_from_invalidate [OF assms(1)]
    by (auto simp: InsertEventWithID_repo_def in_store_def split: option.splits)
qed

lemma insertEventSync_cached:
  assumes "redis_ok rd con glob" and "cached_from env con H (repo h)" and "store_ok (repo_store (repo h))"
    and "insertEventSyncAndRespond rd ce input i md h = Some (r, h')"
  shows "cached_from env con H (repo h')"
proof -
  have cmd: "commands_ok rd con" using assms(1) by (simp add: redis_ok_def)
  obtain g rp where g: "GetOrCreateTypeID_repo rd (in_Type input) (repo h) = (g, rp)" by fastforce
  note c = GetOrCreateTypeID_cached [OF cmd assms(2,3) g]
  have "store_ok (repo_store rp)"
    using GetOrCreateTypeID_repo_keeps [OF g] assms(3) by (auto simp: repo_keeps_def keeps_store_def)
  note ins = InsertEventWithID_cached [OF assms(1) c this]
  show ?thesis
    using assms(4) g c ins by (auto simp: insertEventSyncAndRespond_def Let_def split: sum.splits option.splits)
qed

lemma createEventAsync_cached:
  assumes "redis_ok rd con glob" and "cached_from env con H (repo h)" and "store_ok (repo_store (repo h))"
    and "createEventAsync rd ce input k eq h = Some (r, h', k')"
  shows "cached_from env con H (repo h')"
proof -
  obtain g rp k1 where g: "GenerateEventID_repo (ce_clock ce) k (repo h) = Some (g, rp, k1)"
    using assms(4) by (auto simp: createEventAsync_def split: option.splits)
  have kp: "keeps_store (repo_store (repo h)) (repo_store rp)"
    using GenerateEventID_repo_keeps [OF g] assms(3) by (simp add: repo_keeps_def)
  have c: "cached_from env con H rp"
    by (rule cached_from_store [OF assms(2) GenerateEventID_repo_frame(1) [OF g] kp])
  have s: "store_ok (repo_store rp)" using kp by (simp add: keeps_store_def)
  show ?thesis
  proof (cases g)
    case (Inl e)
    then show ?thesis using assms(4) g c by (auto simp: createEventAsync_def)
  next
    case (Inr i)
    obtain res eq' where e: "Enqueue_alone (in_UserID input) (in_Type input) (Some (or_empty_object (in_Metadata input))) i (ce_enqueued ce) eq = Some (res, eq')"
      using assms(4) g Inr by (auto simp: createEventAsync_def Let_def split: option.splits)
    let ?h2 = "h\<lparr>repo := rp, eventQueue := Some eq'\<rparr>"
    consider (sync) "insertEventSyncAndRespond rd ce input i (or_empty_object (in_Metadata input)) ?h2 = Some (r, h')"
      | (failed) "h' = ?h2" | (accepted) rp' where "invalidateCaches rd rp = Some rp'" "h' = ?h2\<lparr>repo := rp'\<rparr>"
      using assms(4) g Inr e
      by (auto simp: createEventAsync_def InvalidateCaches_def Let_def split: option.splits if_splits)
    then show ?thesis
    proof cases
      case sync
      then show ?thesis by (rule insertEventSync_cached [OF assms(1), rotated 2]) (use c s in simp_all)
    next
      case (accepted rp')
      then show ?thesis using cached_from_invalidate [OF assms(1) c accepted(1)] by simp
    qed (simp add: c)
  qed
qed

lemma page_cached:
  assumes "commands_ok rd con" and "cached_from env con H s" and "repo_db s \<in> H"
    and "GetPaginatedCached rd None p l u s = Some (x, s')"
  shows "cached_from env con H s'"
proof -
  have a: "adds_only con s s' (EventsKey p l u) (page_text (current_page p l u (repo_db s)))" "same_db (repo_db s) (repo_db s')"
    using GetPaginatedCached_law [OF assms(1), of p l u s] assms(4) by auto
  show ?thesis
    by (rule adds_only_from [OF a(1) assms(2)]) (use same_db_select(4) [OF a(2)] answer_page [OF assms(3)] in auto)
qed

lemma stats_cached:
  assumes "commands_ok rd con" and "cached_from (ce_pg ce) con H (repo h)" and "repo_db (repo h) \<in> H"
    and "GetStats_handler rd ce req h = (r, h')"
  shows "cached_from (ce_pg ce) con H (repo h')"
proof -
  let ?from = "parseTimestamp (query_get req ''from'')" and ?to = "parseTimestamp (query_get req ''to'')"
  note law = GetStats_handler_law [OF assms(1), of ce req h, unfolded assms(4)]
  have ty: "event_types (repo_db (repo h')) = event_types (repo_db (repo h))" using law same_db_select(4) by blast
  have frame: "cached_from (ce_pg ce) con H (repo h')" if "repo_cache (repo h') = repo_cache (repo h)"
    by (rule adds_only_from [OF adds_only_cache [OF that, where key = "[]" and v = None] assms(2)]) (simp_all add: ty)
  show ?thesis
  proof (cases "isl ?from \<or> isl ?to")
    case True
    then have "h' = h" using law by (cases ?from; cases ?to) simp_all
    then show ?thesis using assms(2) by simp
  next
    case False
    then obtain f t where ft: "?from = Inr f" "?to = Inr t" by (cases ?from; cases ?to) auto
    then consider "repo_cache (repo h') = repo_cache (repo h)"
      | i g where "g = \<lparr>From = f, To = t, gs_TypeID = i\<rparr>"
        "adds_only con (repo h) (repo h') (stats_key g) (stats_text (select_stats (ce_pg ce) g (repo_db (repo h))))"
      using law by auto
    then show ?thesis
    proof cases
      case 1
      then show ?thesis by (rule frame)
    next
      case (2 i g)
      have rfc: "opt_rfc (From g)" "opt_rfc (To g)" using parseTimestamp_rfc ft 2(1) by simp_all
      show ?thesis
        by (rule adds_only_from [OF 2(2) assms(2)]) (use ty answer_stats [OF assms(3) rfc] in auto)
    qed
  qed
qed

lemma handler_cached:
  assumes "redis_ok rd con glob" and "router_New rd ce req (h, k) = Answered r (h', k')" and "service_ok st0 h"
    and "cached_from (ce_pg ce) con H (repo h)" and "repo_db (repo h) \<in> H" and "ce_inflight ce = None"
  shows "cached_from (ce_pg ce) con H (repo h')"
proof -
  have cmd: "commands_ok rd con" using assms(1) by (simp add: redis_ok_def)
  obtain eq where eq: "eventQueue h = Some eq" and st: "store_ok (repo_store (repo h))"
    using assms(3) by (auto simp: service_ok_def keeps_store_def)
  note page = page_cached [OF cmd assms(4,5)]
  consider (get) "GetEventsPaginated rd ce req h = Some (r, h')"
    | (create) "CreateEvent rd ce req k h = Some (r, h', k')"
    | (user) "GetUserEventsPaginated rd ce req h = Some (r, h')"
    | (stats) "GetStats_handler rd ce req h = (r, h')" | (none) "h' = h"
    using assms(2)
    by (auto simp: router_New_def events_route_def users_route_def stats_route_def methodHandler_def answer_def
        methodNotAllowed_def NotFound_def split: route.splits pattern.splits if_splits option.splits prod.splits)
  then show ?thesis
  proof cases
    case get
    then show ?thesis using page assms(6) by (auto simp: GetEventsPaginated_def Let_def split: option.splits)
  next
    case user
    then show ?thesis
      using page assms(4,6) by (auto simp: GetUserEventsPaginated_def Let_def split: option.splits if_splits)
  next
    case stats
    then show ?thesis by (rule stats_cached [OF cmd assms(4,5)])
  next
    case create
    then show ?thesis
      using assms(4) eq createEventAsync_cached [OF assms(1,4) st]
      by (auto simp: CreateEvent_def split: option.splits if_splits)
  qed (simp add: assms(4))
qed

text \<open>
  A run of the service together with the databases that it has seen between its steps. The
  database server is the same one throughout, and since a request is one step, no request finds
  another one in flight.
\<close>

inductive history ::
  "('r, 'it) redis \<Rightarrow> pg_env \<Rightarrow> ('r, 'db) service \<Rightarrow> pg set \<Rightarrow> ('r, 'db) service \<Rightarrow> bool"
  for rd env s0 where
  start: "history rd env s0 {repo_db (repo (fst s0))} s0"
| request: "history rd env s0 H (h, k) \<Longrightarrow> ce_pg ce = env \<Longrightarrow> ce_inflight ce = None \<Longrightarrow>
    Logging (router_New rd ce) req (h, k) = Answered r (h', k') \<Longrightarrow> history rd env s0 (insert (repo_db (repo h')) H) (h', k')"
| turn: "history rd env s0 H (h, k) \<Longrightarrow> background a \<Longrightarrow> queue_turn env a h = Some h' \<Longrightarrow>
    history rd env s0 (insert (repo_db (repo h')) H) (h', k)"

lemma history_steps: "history rd env s0 H s \<Longrightarrow> (service_step rd)\<^sup>*\<^sup>* s0 s"
proof (induction rule: history.induct)
  case (request H h k ce req r h' k')
  have "service_step rd (h, k) (h', k')" by (rule service_step.request [OF request(4)])
  with request.IH show ?case by (rule rtranclp.rtrancl_into_rtrancl)
next
  case (turn H h k a h')
  have "service_step rd (h, k) (h', k)" by (rule service_step.turn [OF turn(2,3)])
  with turn.IH show ?case by (rule rtranclp.rtrancl_into_rtrancl)
qed simp

lemma history_now: "history rd env s0 H s \<Longrightarrow> repo_db (repo (fst s)) \<in> H"
  by (induction rule: history.induct) simp_all

lemma cached_from_mono: "cached_from env con H s \<Longrightarrow> H \<subseteq> H' \<Longrightarrow> cached_from env con H' s"
  unfolding cached_from_def using answer_of_mono [OF _ _ order_refl] by blast

lemma queue_turn_cached:
  assumes "service_ok st0 h" and "background a" and "queue_turn env a h = Some h'" and "cached_from env con H (repo h)"
  shows "cached_from env con H (repo h')"
proof -
  have "service_ok (repo_store (repo h)) h" using assms(1) keeps_store_refl by (auto simp: service_ok_def keeps_store_def)
  then have "keeps_store (repo_store (repo h)) (repo_store (repo h'))"
    using queue_turn_ok [OF _ assms(2), of _ h env] assms(3) by (fastforce simp: service_ok_def)
  moreover have "repo_cache (repo h') = repo_cache (repo h)"
    using assms(3) by (auto simp: queue_turn_def split: option.splits)
  ultimately show ?thesis by (intro cached_from_store [OF assms(4)])
qed

lemma history_cached:
  assumes "redis_ok rd con glob" and "history rd env s0 H s" and "service_ok st0 (fst s0)"
    and "cached_from env con (insert (repo_db (repo (fst s0))) H0) (repo (fst s0))"
  shows "cached_from env con (H0 \<union> H) (repo (fst s))"
  using assms(2)
proof (induction rule: history.induct)
  case start
  then show ?case using assms(4) by simp
next
  case (request H h k ce req r h' k')
  have ok: "service_ok st0 h" using service_run_ok [OF history_steps [OF request(1)] assms(3)] by simp
  have d: "repo_db (repo h) \<in> H0 \<union> H" using history_now [OF request(1)] by simp
  have a: "router_New rd ce req (h, k) = Answered r (h', k')" using request(4) by (simp add: Logging_def)
  have c: "cached_from (ce_pg ce) con (H0 \<union> H) (repo h)" using request.IH request(2) by simp
  have "cached_from env con (H0 \<union> H) (repo h')"
    using handler_cached [OF assms(1) a ok c d request(3)] unfolding request(2) .
  then have "cached_from env con (H0 \<union> insert (repo_db (repo h')) H) (repo h')" by (rule cached_from_mono) blast
  then show ?case by simp
next
  case (turn H h k a h')
  have ok: "service_ok st0 h" using service_run_ok [OF history_steps [OF turn(1)] assms(3)] by simp
  have c: "cached_from env con (H0 \<union> H) (repo h)" using turn.IH by simp
  have "cached_from env con (H0 \<union> H) (repo h')" by (rule queue_turn_cached [OF ok turn(2,3) c])
  then have "cached_from env con (H0 \<union> insert (repo_db (repo h')) H) (repo h')" by (rule cached_from_mono) blast
  then show ?case by simp
qed

section \<open>What the store or the dead letters keep\<close>

text \<open>
  Between two states of the queue the events \<open>es\<close> were settled: each is a row of the table now or is
  among the letters \<open>ls\<close> that were added to the dead letter queue, and nothing stored was lost.
\<close>

definition settled ::
  "pg_env \<Rightarrow> PendingEvent list \<Rightarrow> Event DeadLetterEvent list \<Rightarrow> (EventStore, 'db) EventQueue \<Rightarrow> (EventStore, 'db) EventQueue \<Rightarrow> bool" where
  "settled pe es ls eq eq' \<longleftrightarrow> store_ok (store eq') \<and> dlq eq' = foldl Add (dlq eq) ls \<and> length ls \<le> length es \<and>
     (\<forall>e \<in> set es. stored pe (store eq') (model_event e) \<or> model_event e \<in> Event ` set ls) \<and>
     (\<forall>x. stored pe (store eq) x \<longrightarrow> stored pe (store eq') x)"

lemma settled_refl: "store_ok (store eq) \<Longrightarrow> store eq' = store eq \<Longrightarrow> dlq eq' = dlq eq \<Longrightarrow> settled pe [] [] eq eq'"
  by (simp add: settled_def)

lemma settled_append: "settled pe es ls eq eq1 \<Longrightarrow> settled pe fs ks eq1 eq2 \<Longrightarrow> settled pe (es @ fs) (ls @ ks) eq eq2"
  by (auto simp: settled_def)

lemma settled_room:
  assumes "settled pe es ls eq eq'" and "dlq_inv (dlq eq)" and "int (Len (dlq eq) + length es) \<le> dlq_maxSize (dlq eq)"
  shows "GetAll (dlq eq') = GetAll (dlq eq) @ ls"
  using assms unfolding GetAll_def settled_def
  by (auto simp: Len_def dlq_inv_def intro!: dlq.view_foldl_fits)

text \<open>Every step but the insert of a flush leaves the store and the dead letters alone.\<close>

lemma step_hands_none:
  assumes "q_step ins a eq = Some eq'" and "q_inv eq" and "\<And>env now d b. a = Q_loop env now \<Longrightarrow> flush_at eq \<noteq> F_insert d b"
  shows "store eq' = store eq \<and> dlq eq' = dlq eq \<and> step_hands ins a eq = []"
proof (cases a)
  case (Q_loop env now)
  then show ?thesis
    using assms(1,3)
    by (cases "flush_at eq") (auto simp: q_step_def step_hands_def loop_step_def flush_remove_def flush_account_def Let_def
        split: option.splits)
next
  case Q_start
  have l: "int (length (eventCh eq)) \<le> MaxSize (config eq)" using assms(2) by (simp add: q_inv_def loop_inv_def)
  show ?thesis by (rule Start_cases [OF l]) (use assms(1) Q_start in \<open>auto simp: q_step_def step_hands_def\<close>)
next
  case (Q_call k now)
  then show ?thesis
    using assms(1)
    by (auto simp: q_step_def step_hands_def Enqueue_step_def set_call_def split: if_splits enqueue_call.splits option.splits)
next
  case (Q_shut b)
  then show ?thesis
    using assms(1)
    by (auto simp: q_step_def step_hands_def Shutdown_step_def split: shutdown_call.splits option.splits if_splits)
qed (use assms(1) in \<open>auto simp: q_step_def step_hands_def loop_recv_def loop_tick_def loop_signal_def Shutdown_def
    split: option.splits flusher.splits list.splits if_splits prod.splits\<close>)

lemma flush_insert_settled:
  assumes "flush_insert (BatchInsertEventsContext pe) env b eq = Some (x, eq')" and "store_ok (store eq)"
    and "0 \<le> MaxAttempts (RetryConfig (config eq))"
  shows "\<exists>ls. settled pe b ls eq eq'"
proof -
  obtain s' q' where br: "BatchRetry env (RetryConfig (config eq)) (map model_event b)
      (batchInsertWrapper (BatchInsertEventsContext pe)) (insertSingleWrapper (BatchInsertEventsContext pe)) (store eq) (dlq eq) = Some (s', q')"
      and e': "store eq' = s'" "dlq eq' = q'"
    using assms(1) by (auto simp: flush_insert_def Let_def split: option.splits)
  obtain ls where ls: "q' = foldl Add (dlq eq) ls" "pg.sink.accounted pe (map model_event b) s' ls" "store_ok s'"
    using pg.sink.BatchRetry_accounted [OF br assms(3,2)] by blast
  have len: "length ls \<le> length b" and cover: "\<forall>x \<in> set (map model_event b). stored pe s' x \<or> x \<in> Event ` set ls"
    using ls(2) unfolding pg.sink.accounted_def length_map by blast+
  have "stored pe s' x \<and> store_ok s'" if "stored pe (store eq) x" for x
    using pg.keeps pg.stays_ok that assms(2)
    by (intro BatchRetry_keeps [OF _ _ _ br, where P = "\<lambda>s. stored pe s x \<and> store_ok s"])
      (auto simp: batchInsertWrapper_def insertSingleWrapper_def)
  then show ?thesis
    using ls(1,3) len cover by (intro exI [of _ ls]) (simp add: settled_def e')
qed

lemma q_step_settled:
  assumes "q_step (BatchInsertEventsContext pe) a eq = Some eq'" and "q_inv eq" and "running eq" and "store_ok (store eq)"
  shows "\<exists>ls. settled pe (step_hands (BatchInsertEventsContext pe) a eq) ls eq eq'"
proof (cases "\<exists>env now d b. a = Q_loop env now \<and> flush_at eq = F_insert d b")
  case False
  then have "store eq' = store eq" "dlq eq' = dlq eq" "step_hands (BatchInsertEventsContext pe) a eq = []"
    using step_hands_none [OF assms(1,2)] by blast+
  then show ?thesis using settled_refl [OF assms(4)] by auto
next
  case True
  then obtain env now d b where a: "a = Q_loop env now" and f: "flush_at eq = F_insert d b" by blast
  show ?thesis
  proof (cases "flush_insert (BatchInsertEventsContext pe) env b eq")
    case None
    then have "eq' = eq" "step_hands (BatchInsertEventsContext pe) a eq = []"
      using assms(1) a f by (simp_all add: q_step_def loop_step_def step_hands_def)
    then show ?thesis using settled_refl [OF assms(4)] by auto
  next
    case (Some y)
    then obtain i r fl n' eq1 where y: "flush_insert (BatchInsertEventsContext pe) env b eq = Some ((i, r, fl, n'), eq1)"
      by (cases y) auto
    have h: "step_hands (BatchInsertEventsContext pe) a eq = b" using a f y by (simp add: step_hands_def)
    have m: "0 \<le> MaxAttempts (RetryConfig (config eq))"
      using assms(3) by (simp add: running_def DefaultQueueConfig_def DefaultConfig_fields)
    have "eq' = eq1\<lparr>flush_at := F_remove d i r fl n'\<rparr>" using assms(1) a f y by (simp add: q_step_def loop_step_def)
    then show ?thesis using flush_insert_settled [OF y assms(4) m] h by (simp add: settled_def)
  qed
qed

lemma q_run_settled:
  assumes "q_run (BatchInsertEventsContext pe) as eq = Some eq'" and "q_inv eq" and "running eq" and "store_ok (store eq)"
  shows "\<exists>ls. settled pe (observe (step_hands (BatchInsertEventsContext pe)) (BatchInsertEventsContext pe) as eq) ls eq eq'"
  using assms
proof (induction as arbitrary: eq)
  case Nil
  then show ?case using settled_refl by auto
next
  case (Cons a as)
  obtain s where s: "q_step (BatchInsertEventsContext pe) a eq = Some s" "q_inv s" "q_run (BatchInsertEventsContext pe) as s = Some eq'"
    using q_step_inv [OF Cons.prems(2), of "BatchInsertEventsContext pe" a] Cons.prems(1) by auto
  obtain ls where ls: "settled pe (step_hands (BatchInsertEventsContext pe) a eq) ls eq s"
    using q_step_settled [OF s(1) Cons.prems(2-4)] by blast
  then have "store_ok (store s)" by (simp add: settled_def)
  from Cons.IH [OF s(3,2) q_step_running [OF s(1) Cons.prems(3)] this] obtain ks
    where "settled pe (observe (step_hands (BatchInsertEventsContext pe)) (BatchInsertEventsContext pe) as s) ks s eq'" by blast
  from settled_append [OF ls this] show ?case using s(1) by auto
qed

section \<open>The end of the process\<close>

fun turns :: "pg_env \<Rightarrow> q_action list \<Rightarrow> ('r, 'db) Handlers \<Rightarrow> ('r, 'db) Handlers option" where
  "turns env [] h = Some h"
| "turns env (a # as) h = Option.bind (queue_turn env a h) (turns env as)"

text \<open>
  \<open>main\<close> after the signal and after the HTTP server has finished its requests: the queue is shut
  down, which takes steps of this and of the other goroutines, the statistics are read, and the
  cache is closed. \<open>None\<close>: under this schedule \<open>Shutdown\<close> has not returned.
\<close>

definition main_stop ::
  "('r, 'it) redis \<Rightarrow> pg_env \<Rightarrow> q_action list \<Rightarrow> ('r, 'db) Handlers \<Rightarrow> (queue_Stats \<times> go_error option \<times> ('r, 'db) Handlers) option" where
  "main_stop rd env acts h =
     (case eventQueue h of
        None \<Rightarrow> None
      | Some eq \<Rightarrow>
          (case turns env (Q_shutdown # acts) h of
             None \<Rightarrow> None
           | Some h1 \<Rightarrow>
               (case eventQueue h1 of
                  None \<Rightarrow> None
                | Some eq1 \<Rightarrow>
                    if fst (Shutdown eq) = None \<and> shutdown_at eq1 \<noteq> S_done then None
                    else Some (GetStats_eq eq1,
                               case repo_cache (repo h1) of None \<Rightarrow> None | Some c \<Rightarrow> Close_cache rd c, h1))))"

lemma turns_run:
  assumes "eventQueue h = Some eq" and "store eq = repo_store (repo h)"
  shows "turns env as h = map_option (\<lambda>eq'. h\<lparr>repo := (repo h)\<lparr>repo_store := store eq'\<rparr>, eventQueue := Some eq'\<rparr>)
           (q_run (BatchInsertEventsContext env) as eq)"
  using assms
proof (induction as arbitrary: h eq)
  case (Cons a as)
  have eq: "eq\<lparr>store := repo_store (repo h)\<rparr> = eq" using Cons.prems(2) by (metis EventQueue.surjective EventQueue.update_convs(2))
  show ?case
  proof (cases "q_step (BatchInsertEventsContext env) a eq")
    case None
    then show ?thesis using Cons.prems(1) eq by (simp add: queue_turn_def)
  next
    case (Some eq1)
    then show ?thesis using Cons.prems(1) eq Cons.IH [of _ eq1] by (simp add: queue_turn_def)
  qed
qed simp

lemma turns_store:
  assumes "eventQueue h = Some eq"
  shows "turns env (a # as) h = turns env (a # as) (h\<lparr>eventQueue := Some (eq\<lparr>store := repo_store (repo h)\<rparr>)\<rparr>)"
  using assms by (simp add: queue_turn_def)


subsection \<open>The log can be closed\<close>

fun closer_rank :: "closer \<Rightarrow> nat" where
  "closer_rank C_done = 0"
| "closer_rank C_closing = 1"
| "closer_rank C_waiting = 2"
| "closer_rank C_marked = 3"
| "closer_rank C_idle = 4"

definition close_work :: "'db Persistence \<Rightarrow> nat" where
  "close_work p = closer_rank (closing p) + backlog p + (if writing p = W_exited then 0 else 1)"

lemma writeLoop_closing:
  assumes "writeLoop p = Some q"
  shows "closing q = closing p"
proof (cases "writing p")
  case (W_update req)
  obtain r d where "write_event (event req) p = (r, p\<lparr>disk := d\<rparr>)" using write_event_frame by (metis surj_pair)
  then show ?thesis using assms W_update by (auto simp: writeLoop_def)
qed (use assms in \<open>auto simp: writeLoop_def Persistence.answer_def split: list.splits if_splits\<close>)

lemma close_progress:
  assumes "p_inv p" and "closing p \<notin> {C_idle, C_done}"
  shows "\<exists>q. (closer_step p = Some q \<or> writeLoop p = Some q) \<and> p_inv q \<and> closing q \<noteq> C_idle \<and> close_work q < close_work p"
proof (cases "closing p = C_waiting \<and> writing p \<noteq> W_exited")
  case False
  obtain q where q: "closer_step p = Some q" "p_inv q" using closer_inv [OF assms(1)] by blast
  then have "closing q \<noteq> C_idle \<and> close_work q < close_work p"
    using assms(2) False
    by (cases "closing p") (auto simp: closer_step_def close_work_def backlog_def split: if_splits)
  then show ?thesis using q by blast
next
  case True
  obtain q where q: "writeLoop p = Some q" "p_inv q" using writer_inv [OF assms(1)] by blast
  have c: "closing q = closing p" by (rule writeLoop_closing [OF q(1)])
  have "close_work q < close_work p"
  proof (cases "backlog p = 0")
    case 0: True
    have "writeCh p = []" "writing p = W_recv"
      using 0 True by (auto simp: backlog_def split: writer.splits)
    moreover have "writeCh_closed p" using assms(1) True by (simp add: p_inv_def phase_inv_def)
    ultimately have "q = p\<lparr>writing := W_exited\<rparr>" using q(1) by (simp add: writeLoop_def)
    then show ?thesis using True 0 by (simp add: close_work_def backlog_def)
  next
    case pos: False
    then show ?thesis using writer_backlog [OF assms(1) q(1)] True c by (auto simp: close_work_def)
  qed
  then show ?thesis using q c True by (intro exI [of _ q]) simp
qed

fun close_action :: "q_action \<Rightarrow> bool" where
  "close_action Q_writer = True"
| "close_action (Q_shut b) = (\<not> b)"
| "close_action _ = False"

lemma close_ends:
  assumes "shutdown_at eq = S_close" and "persistence eq = Some p" and "p_inv p" and "closing p \<noteq> C_idle"
  shows "\<exists>as eq'. list_all close_action as \<and> q_run ins as eq = Some eq' \<and> shutdown_at eq' = S_done"
  using assms
proof (induction "close_work p" arbitrary: eq p rule: less_induct)
  case less
  show ?case
  proof (cases "closing p = C_done")
    case True
    then have "q_run ins [Q_shut False] eq = Some (eq\<lparr>shutdown_at := S_done\<rparr>)"
      using less.prems by (simp add: q_step_def Shutdown_step_def)
    then show ?thesis by (intro exI [of _ "[Q_shut False]"]) simp
  next
    case False
    then obtain q where q: "closer_step p = Some q \<or> writeLoop p = Some q" "p_inv q" "closing q \<noteq> C_idle" "close_work q < close_work p"
      using close_progress [OF less.prems(3)] less.prems(4) by blast
    let ?eq = "eq\<lparr>persistence := Some q\<rparr>"
    obtain a where a: "close_action a" "q_step ins a eq = Some ?eq"
    proof (cases "closer_step p = Some q")
      case True
      then show thesis using that [of "Q_shut False"] less.prems False by (simp add: q_step_def Shutdown_step_def)
    next
      case w: False
      then show thesis using that [of Q_writer] less.prems q(1) by (simp add: q_step_def)
    qed
    obtain as eq' where "list_all close_action as" "q_run ins as ?eq = Some eq'" "shutdown_at eq' = S_done"
      using less.hyps [OF q(4), of ?eq] less.prems(1) q(2,3) by auto
    then show ?thesis using a by (intro exI [of _ "a # as"]) simp
  qed
qed

subsection \<open>The shutdown runs to its end\<close>

lemma flusher_step_shutdown:
  assumes "flusher_action a" and "q_step ins a eq = Some eq'"
  shows "shutdown_at eq' = shutdown_at eq"
proof (cases a)
  case (Q_loop env now)
  then show ?thesis
    using assms(2) by (cases "flush_at eq")
      (auto simp: q_step_def loop_step_def flush_insert_def flush_remove_def flush_account_def Let_def
        split: option.splits prod.splits)
qed (use assms in \<open>auto simp: q_step_def loop_recv_def loop_signal_def split: flusher.splits list.splits if_splits\<close>)

lemma flusher_run_shutdown:
  "list_all flusher_action as \<Longrightarrow> q_run ins as eq = Some eq' \<Longrightarrow> shutdown_at eq' = shutdown_at eq"
  by (induction as arbitrary: eq) (auto dest: flusher_step_shutdown split: option.splits)

lemma stop_action: "flusher_action a \<or> close_action a \<Longrightarrow> background a \<and> a \<noteq> Q_shut True"
  by (cases a) auto

lemma shutdown_ends:
  assumes "q_inv eq" and "calls_idle eq" and "running eq" and "\<not> stopped eq"
  shows "\<exists>as eq'. list_all background as \<and> Q_shut True \<notin> set as \<and> q_run ins (Q_shutdown # as) eq = Some eq' \<and> shutdown_at eq' = S_done"
proof -
  have n: "shutdown_at eq = S_none" "\<not> signalled eq" using assms(1,4) by (auto simp: q_inv_def call_inv_def)
  let ?e1 = "eq\<lparr>stopped := True, shutdown_at := S_signal\<rparr>"
  let ?e2 = "eq\<lparr>stopped := True, signalled := True, shutdown_at := S_wait\<rparr>"
  have 1: "q_step ins Q_shutdown eq = Some ?e1" using assms(4) by (simp add: q_step_def Shutdown_def)
  have "lock_free ?e1" using calls_idle_lock_free [OF assms(2)] by (simp add: lock_free_def)
  then have 2: "q_step ins (Q_shut False) ?e1 = Some ?e2" using n(2) by (simp add: q_step_def Shutdown_step_def)
  obtain as e3 where 3: "list_all flusher_action as" "q_run ins as ?e2 = Some e3" "flush_at e3 = F_exited"
    using flusher_ends [of ?e2 ins] assms(3) by (auto simp: running_def)
  have s3: "shutdown_at e3 = S_wait" using flusher_run_shutdown [OF 3(1,2)] by simp
  have "q_inv e3"
    using q_run_inv [OF assms(1), of ins "Q_shutdown # Q_shut False # as"] 1 2 3(2) by simp
  then have pi: "p_inv p" if "persistence e3 = Some p" for p using that by (simp add: q_inv_def call_inv_def)
  let ?e5 = "e3\<lparr>ctx_cancelled := True, persistence := map_option Close (persistence e3), shutdown_at := S_close\<rparr>"
  have 5: "q_run ins [Q_shut False, Q_shut False] e3 = Some ?e5"
    using s3 3(3) by (simp add: q_step_def Shutdown_step_def)
  obtain bs e6 where 6: "list_all close_action bs" "q_run ins bs ?e5 = Some e6" "shutdown_at e6 = S_done"
  proof (cases "persistence e3")
    case None
    then have "q_run ins [Q_shut False] ?e5 = Some (?e5\<lparr>shutdown_at := S_done\<rparr>)" by (simp add: q_step_def Shutdown_step_def)
    then show thesis using that [of "[Q_shut False]"] by simp
  next
    case (Some p)
    have "p_inv (Close p)" using Close_inv [OF pi [OF Some]] .
    moreover have "closing (Close p) \<noteq> C_idle" using pi [OF Some] by (auto simp: Close_def p_inv_def phase_inv_def)
    ultimately show thesis using close_ends [of ?e5 "Close p" ins] Some that by auto
  qed
  let ?as = "Q_shut False # as @ [Q_shut False, Q_shut False] @ bs"
  have "q_run ins ([Q_shut False, Q_shut False] @ bs) e3 = Some e6"
    unfolding q_run_append 5 using 6(2) by simp
  then have "q_run ins (as @ [Q_shut False, Q_shut False] @ bs) ?e2 = Some e6"
    unfolding q_run_append [of ins as] 3(2) by simp
  then have "q_run ins (Q_shutdown # ?as) eq = Some e6" using 1 2 by simp
  moreover have "list_all background as \<and> Q_shut True \<notin> set as"
    using 3(1) stop_action by (auto simp: list_all_iff)
  moreover have "list_all background bs \<and> Q_shut True \<notin> set bs"
    using 6(1) stop_action by (auto simp: list_all_iff)
  ultimately show ?thesis using 6(3) by (intro exI [of _ ?as] exI [of _ e6]) auto
qed


subsection \<open>What the shutdown leaves\<close>

text \<open>Unless the timer fires, \<open>Shutdown\<close> goes on only after the flush goroutine has ended.\<close>

definition waited :: "('s, 'db) EventQueue \<Rightarrow> bool" where
  "waited eq \<longleftrightarrow> (shutdown_at eq \<in> {S_cancel, S_close, S_done} \<longrightarrow> flush_at eq = F_exited)"

lemma q_step_waited:
  assumes "q_step ins a eq = Some eq'" and "waited eq" and "running eq" and "a \<noteq> Q_shut True"
  shows "waited eq'"
proof (cases a)
  case (Q_loop env now)
  then have "shutdown_at eq' = shutdown_at eq" by (intro flusher_step_shutdown [OF _ assms(1)]) simp
  moreover have "flush_at eq = F_exited \<Longrightarrow> eq' = eq" using assms(1) Q_loop by (simp add: q_step_def loop_step_def)
  ultimately show ?thesis using assms(2) by (auto simp: waited_def)
next
  case Q_start
  then show ?thesis using assms by (auto simp: q_step_def Start_def running_def)
next
  case (Q_call k now)
  then show ?thesis
    using assms(1,2)
    by (auto simp: q_step_def waited_def Enqueue_step_def set_call_def split: if_splits enqueue_call.splits option.splits)
next
  case (Q_shut b)
  then show ?thesis
    using assms by (auto simp: q_step_def waited_def running_def Shutdown_step_def
        split: shutdown_call.splits option.splits if_splits)
qed (use assms(1,2) in \<open>auto simp: q_step_def waited_def loop_recv_def loop_tick_def loop_signal_def Shutdown_def
    split: option.splits flusher.splits list.splits if_splits prod.splits\<close>)

lemma q_run_waited:
  "q_run ins as eq = Some eq' \<Longrightarrow> waited eq \<Longrightarrow> running eq \<Longrightarrow> Q_shut True \<notin> set as \<Longrightarrow> waited eq' \<and> running eq'"
proof (induction as arbitrary: eq)
  case (Cons a as)
  then obtain s where s: "q_step ins a eq = Some s" "q_run ins as s = Some eq'" by (auto split: option.splits)
  have "waited s" "running s"
    using q_step_waited [OF s(1) Cons.prems(2,3)] q_step_running [OF s(1) Cons.prems(3)] Cons.prems(4) by auto
  then show ?case using Cons.IH [OF s(2)] Cons.prems(4) by simp
qed simp

lemma shutdown_result:
  assumes "q_inv eq" and "calls_idle eq" and "running eq" and "\<not> stopped eq" and "store_ok (store eq)"
    and "Q_shut True \<notin> set as"
    and "q_run (BatchInsertEventsContext pe) (Q_shutdown # as) eq = Some eq'" and "shutdown_at eq' = S_done"
  shows "flush_at eq' = F_exited \<and> eventCh eq' = [] \<and> (\<exists>ls. settled pe (pending eq) ls eq eq')"
proof -
  let ?ins = "BatchInsertEventsContext pe"
  have n: "shutdown_at eq = S_none" "\<not> signalled eq" using assms(1,4) by (auto simp: q_inv_def call_inv_def)
  let ?e1 = "eq\<lparr>stopped := True, shutdown_at := S_signal\<rparr>"
  have 1: "q_step ?ins Q_shutdown eq = Some ?e1" using assms(4) by (simp add: q_step_def Shutdown_def)
  have r: "q_run ?ins as ?e1 = Some eq'" using assms(7) 1 by simp
  have "draining (flush_at eq) \<Longrightarrow> signalled eq" using assms(1) by (auto simp: q_inv_def loop_inv_def)
  then have e: "\<not> ending (flush_at eq)" using n(2) by (cases "flush_at eq") auto
  then have "drained_inv ?e1" using assms(2,3) by (simp add: drained_inv_def quiet_def calls_idle_def running_def)
  then have d: "drained_inv eq'" "observe step_accepts ?ins as ?e1 = []" using q_run_drained r by blast+
  have "waited ?e1" by (simp add: waited_def)
  moreover have r1: "running ?e1" using assms(3) by (simp add: running_def)
  ultimately have x: "flush_at eq' = F_exited" using q_run_waited [OF r] assms(6,8) by (simp add: waited_def)
  have q1: "q_inv ?e1" using q_step_inv [OF assms(1), of ?ins Q_shutdown] 1 by simp
  have ch: "eventCh eq' = []" using d(1) x by (simp add: drained_inv_def)
  have h: "observe (step_hands ?ins) ?ins as ?e1 = pending eq"
    using q_run_ok [OF q1 r] d(2) x ch by (simp add: pending_def)
  obtain ls where "settled pe (pending eq) ls ?e1 eq'"
    using q_run_settled [OF r q1 r1] assms(5) h by auto
  then show ?thesis using x ch by (auto simp: settled_def)
qed

lemma service_start_ok:
  assumes "api_main w = Listening srv" and "\<forall>u d. w_dial_pg w u = Inr d \<longrightarrow> pg_ok d"
  shows "service_ok (repo_store (repo (srv_handlers srv))) (srv_handlers srv)"
proof -
  obtain eq where "eventQueue (srv_handlers srv) = Some eq" "q_inv eq" "enq_calls eq = []" "started eq"
      "flush_at eq = F_select []" "config eq = DefaultQueueConfig" "store_ok (repo_store (repo (srv_handlers srv)))"
    using api_main_law [of w] assms by blast
  then show ?thesis using keeps_store_refl by (auto simp: service_ok_def running_def calls_idle_def)
qed

end
