(* ===== verification/Tools.thy ===== *)
theory Tools
  imports Api
begin

text \<open>
  The maintenance tools: \<open>src/cmd/truncate/main.go\<close>, which empties the tables, and
  \<open>src/cmd/seed/main.go\<close>, which fills them with test data. The rows of an insert are their
  values and not the text of the statement; the text is put together from them with the quoting
  functions of the driver. The output on the terminal is not modelled.
\<close>


section \<open>Emptying the tables\<close>

text \<open>
  \<open>invalidateCaches\<close>, the same in both tools; \<open>None\<close>: the deletion loop has not ended.
\<close>

definition tool_invalidateCaches ::
  "('r, 'it) redis \<Rightarrow> (string \<Rightarrow> int \<Rightarrow> 'r) \<Rightarrow> (string \<Rightarrow> string) \<Rightarrow> 'r Cache option" where
  "tool_invalidateCaches rd dial getenv =
     (let redisURL = (if getenv ''REDIS_URL'' = [] then ''dragonfly:6379'' else getenv ''REDIS_URL'');
          c = NewFromURL rd dial redisURL 10
      in Option.bind (InvalidateEvents rd c) (InvalidateStats rd))"

text \<open>\<open>truncate table users, event_types, events restart identity cascade\<close>.\<close>

definition truncate_all :: "pg \<Rightarrow> (go_error + unit) \<times> pg" where
  "truncate_all d = (Inr (), d\<lparr>users := [], event_types := [], events := [], type_seq := 1\<rparr>)"

datatype 'r truncated = Tr_fatal string "pg option" | Tr_hangs | Tr_done pg "'r Cache"

text \<open>\<open>dial\<close> gives the database that a URL leads to, or the error of connecting to it.\<close>

definition truncate_main ::
  "('r, 'it) redis \<Rightarrow> (string \<Rightarrow> int \<Rightarrow> 'r) \<Rightarrow> (string \<Rightarrow> string) \<Rightarrow> (string \<Rightarrow> go_error + pg) \<Rightarrow> 'r truncated" where
  "truncate_main rd dial_redis getenv dial =
     (if getenv ''DATABASE_URL'' = [] then Tr_fatal ''DATABASE_URL environment variable is required'' None
      else case Connect dial (getenv ''DATABASE_URL'') of
        Inl e \<Rightarrow> Tr_fatal (error_text e) None
      | Inr (d1, _) \<Rightarrow>
          (case statement truncate_all d1 of
             (Inl e, d2) \<Rightarrow> Tr_fatal (error_text e) (Some d2)
           | (Inr _, d2) \<Rightarrow>
               (case tool_invalidateCaches rd dial_redis getenv of
                  None \<Rightarrow> Tr_hangs
                | Some c \<Rightarrow> Tr_done d2 c)))"


section \<open>The test data\<close>

definition batchSize :: nat where "batchSize = 25000"
definition numUsers :: nat where "numUsers = 1000"
definition poolSize :: nat where "poolSize = 1000"

lemmas seed_sizes = batchSize_def numUsers_def poolSize_def

text \<open>Name, identifier and page of the event types.\<close>

definition eventTypes :: "(string \<times> nat \<times> string) list" where
  "eventTypes =
     [(''usr_reg'', 1, ''/reg''), (''usr_login'', 2, ''/login''), (''usr_logout'', 3, ''/logout''),
      (''usr_upd'', 4, ''/profile''), (''ord_new'', 5, ''/order''), (''ord_paid'', 6, ''/pay''),
      (''ord_ship'', 7, ''/ship''), (''ord_dlv'', 8, ''/track''), (''pay_ok'', 9, ''/pay/ok''),
      (''pay_fail'', 10, ''/pay/fail''), (''pay_refund'', 11, ''/refund''), (''prod_view'', 12, ''/prod''),
      (''cart_add'', 13, ''/cart/add''), (''cart_rm'', 14, ''/cart/rm''), (''mail_sent'', 15, ''/mail/sent''),
      (''mail_open'', 16, ''/mail/open''), (''mail_click'', 17, ''/mail/click''), (''ntf_sent'', 18, ''/ntf/sent''),
      (''ntf_read'', 19, ''/ntf/read''), (''api_req'', 20, ''/api/req''), (''api_resp'', 21, ''/api/resp''),
      (''api_err'', 22, ''/api/err''), (''pwd_reset'', 23, ''/pwd/reset''), (''pwd_chg'', 24, ''/pwd/chg''),
      (''2fa_on'', 25, ''/2fa/on''), (''2fa_off'', 26, ''/2fa/off''), (''usr_del'', 27, ''/usr/del''),
      (''usr_ban'', 28, ''/usr/ban''), (''usr_act'', 29, ''/usr/act''), (''sub_start'', 30, ''/sub/start''),
      (''sub_end'', 31, ''/sub/end''), (''sub_renew'', 32, ''/sub/renew''), (''inv_send'', 33, ''/inv/send''),
      (''inv_acc'', 34, ''/inv/acc''), (''feedback'', 35, ''/feedback''), (''avatar'', 36, ''/avatar''),
      (''prefs'', 37, ''/prefs''), (''mail_ver'', 38, ''/verify''), (''login_fail'', 39, ''/login/fail''),
      (''prof_view'', 40, ''/prof/view''), (''ntf_prefs'', 41, ''/ntf/prefs''), (''news_sub'', 42, ''/news/sub''),
      (''ord_cancel'', 43, ''/ord/cancel''), (''ret_req'', 44, ''/ret/req''), (''ret_ok'', 45, ''/ret/ok''),
      (''ret_no'', 46, ''/ret/no''), (''review'', 47, ''/review''), (''invoice'', 48, ''/invoice''),
      (''pay_pend'', 49, ''/pay/pend''), (''pay_disp'', 50, ''/pay/disp''), (''pay_settle'', 51, ''/pay/settle''),
      (''cart_view'', 52, ''/cart''), (''cart_upd'', 53, ''/cart/upd''), (''cart_clear'', 54, ''/cart/clear''),
      (''chk_start'', 55, ''/chk/start''), (''chk_done'', 56, ''/chk/done''), (''prod_rev'', 57, ''/prod/rev''),
      (''wish_add'', 58, ''/wish/add''), (''wish_rm'', 59, ''/wish/rm''), (''compare'', 60, ''/compare''),
      (''share'', 61, ''/share''), (''restock'', 62, ''/restock''), (''stock_low'', 63, ''/stock/low''),
      (''mail_bounce'', 64, ''/mail/bounce''), (''unsub'', 65, ''/unsub''), (''ntf_dismiss'', 66, ''/ntf/dismiss''),
      (''ntf_fail'', 67, ''/ntf/fail''), (''sess_start'', 68, ''/sess/start''), (''sess_exp'', 69, ''/sess/exp''),
      (''sess_end'', 70, ''/sess/end''), (''adm_login'', 71, ''/adm/login''), (''adm_logout'', 72, ''/adm/logout''),
      (''adm_usr_upd'', 73, ''/adm/usr/upd''), (''adm_usr_del'', 74, ''/adm/usr/del''), (''adm_report'', 75, ''/adm/report''),
      (''adm_cfg'', 76, ''/adm/cfg''), (''file_up'', 77, ''/file/up''), (''file_del'', 78, ''/file/del''),
      (''file_dl'', 79, ''/file/dl''), (''file_prev'', 80, ''/file/prev''), (''sup_new'', 81, ''/sup/new''),
      (''sup_close'', 82, ''/sup/close''), (''sup_reopen'', 83, ''/sup/reopen''), (''sup_msg'', 84, ''/sup/msg''),
      (''sup_rate'', 85, ''/sup/rate''), (''search'', 86, ''/search''), (''filter'', 87, ''/filter''),
      (''sort'', 88, ''/sort''), (''cfg_upd'', 89, ''/cfg''), (''lang'', 90, ''/lang''),
      (''tz'', 91, ''/tz''), (''token_gen'', 92, ''/token/gen''), (''token_rev'', 93, ''/token/rev''),
      (''rate_limit'', 94, ''/rate''), (''cron_start'', 95, ''/cron/start''), (''cron_done'', 96, ''/cron/done''),
      (''cron_fail'', 97, ''/cron/fail''), (''hook_in'', 98, ''/hook/in''), (''hook_ok'', 99, ''/hook/ok''),
      (''hook_fail'', 100, ''/hook/fail'')]"

definition seed_indexes :: "string list" where
  "seed_indexes = [''idx_events_timestamp_desc'', ''idx_events_type_timestamp'', ''idx_events_stats'', ''idx_events_covering'']"

text \<open>User, type, wall-clock time in nanoseconds and metadata of a template.\<close>

type_synonym seed_template = "nat \<times> nat \<times> int \<times> string"

definition go_div :: "int \<Rightarrow> int \<Rightarrow> int" where
  "go_div a b = (if 0 \<le> a then a div b else - (- a div b))"

text \<open>
  The pool: \<open>typeNames\<close> is the order in which the range over the map of types comes out,
  \<open>now1\<close> and \<open>now2\<close> are the two readings of the clock in nanoseconds, and \<open>local\<close> the offset
  of the local time zone in seconds at an instant.
\<close>

definition newSeedPool :: "string list \<Rightarrow> int \<Rightarrow> int \<Rightarrow> (int \<Rightarrow> int) \<Rightarrow> seed_template list" where
  "newSeedPool typeNames now1 now2 local =
     (let startTs = (now1 - 30 * 24 * 3600 * second) div second;
          endTs = now2 div second;
          step = go_div (endTs - startTs) (int poolSize)
      in map (\<lambda>i.
           let userID = i mod numUsers + 1;
               typeName = typeNames ! (i mod length typeNames);
               (tid, page) = the (map_of eventTypes typeName);
               ts = startTs + int i * step
           in (userID, tid, (ts + local ts) * second, obj_text [(''page'', quote page)])) [0..<poolSize])"


section \<open>Statements\<close>

text \<open>The tables, the sequence behind the user identifiers, and the indexes that exist.\<close>

record seed_db =
  tables :: pg
  user_seq :: int
  indexes :: "string list"

text \<open>A statement may fail before or after it has run, as in the store.\<close>

definition exec :: "(seed_db \<Rightarrow> go_error option \<times> seed_db) \<Rightarrow> seed_db \<Rightarrow> go_error option \<times> seed_db" where
  "exec f w =
     (let rest = (\<lambda>fs. w\<lparr>tables := (tables w)\<lparr>faults := fs\<rparr>\<rparr>) in
      case faults (tables w) of
        [] \<Rightarrow> f w
      | F_ok # fs \<Rightarrow> f (rest fs)
      | F_before e # fs \<Rightarrow> (Some e, rest fs)
      | F_after e # fs \<Rightarrow> (Some e, snd (f (rest fs))))"

definition on_tables :: "(pg \<Rightarrow> go_error option \<times> pg) \<Rightarrow> seed_db \<Rightarrow> go_error option \<times> seed_db" where
  "on_tables f w = (case f (tables w) of (r, d) \<Rightarrow> (r, w\<lparr>tables := d\<rparr>))"

text \<open>\<open>MustExec\<close> panics on an error; \<open>Inl\<close> is the panic.\<close>

definition must :: "(seed_db \<Rightarrow> go_error option \<times> seed_db) \<Rightarrow> seed_db \<Rightarrow> go_error + seed_db" where
  "must f w = (case exec f w of (Some e, _) \<Rightarrow> Inl e | (None, w') \<Rightarrow> Inr w')"

definition prepareDB :: "seed_db \<Rightarrow> seed_db" where
  "prepareDB w = fold (\<lambda>ix w. snd (exec (\<lambda>w. (None, w\<lparr>indexes := filter (\<lambda>n. n \<noteq> ix) (indexes w)\<rparr>)) w)) seed_indexes w"

definition bind_seed :: "go_error + seed_db \<Rightarrow> (seed_db \<Rightarrow> go_error + seed_db) \<Rightarrow> go_error + seed_db" where
  "bind_seed x f = (case x of Inl e \<Rightarrow> Inl e | Inr w \<Rightarrow> f w)"

definition cleanDatabase :: "seed_db \<Rightarrow> go_error + seed_db" where
  "cleanDatabase w =
     bind_seed (must (\<lambda>w. (None, w\<lparr>tables := (tables w)\<lparr>events := []\<rparr>\<rparr>)) w) (\<lambda>w1.
     bind_seed (must (\<lambda>w. (None, w\<lparr>tables := (tables w)\<lparr>events := [], event_types := [], type_seq := 1\<rparr>\<rparr>)) w1)
       (must (\<lambda>w. (None, w\<lparr>tables := (tables w)\<lparr>events := [], users := []\<rparr>, user_seq := 1\<rparr>))))"

definition seq_bounds :: go_error where
  "seq_bounds = Ext ''22003'' ''value 0 is out of bounds for sequence''"

text \<open>The query of the largest identifier; an error, or \<open>null\<close>, leaves the variable 0.\<close>

definition select_max :: "(pg \<Rightarrow> int list) \<Rightarrow> seed_db \<Rightarrow> int \<times> seed_db" where
  "select_max f w =
     (case exec (\<lambda>w. (None, w)) w of
        (Some _, w1) \<Rightarrow> (0, w1)
      | (None, w1) \<Rightarrow> (if f (tables w1) = [] then 0 else Max (set (f (tables w1))), w1))"

definition insert_users :: "int64 list \<Rightarrow> pg \<Rightarrow> go_error option \<times> pg" where
  "insert_users us d =
     (if distinct (users d @ us) then (None, d\<lparr>users := users d @ us\<rparr>) else (Some unique_violation, d))"

definition seedUsers :: "seed_db \<Rightarrow> go_error + seed_db" where
  "seedUsers w =
     bind_seed (must (on_tables (insert_users (map of_nat [1..<numUsers + 1]))) w) (\<lambda>w1.
     case select_max (\<lambda>d. map sint (users d)) w1 of (maxID, w2) \<Rightarrow>
       must (\<lambda>w. if maxID < 1 then (Some seq_bounds, w) else (None, w\<lparr>user_seq := maxID + 1\<rparr>)) w2)"

definition insert_types :: "(int64 \<times> string) list \<Rightarrow> pg \<Rightarrow> go_error option \<times> pg" where
  "insert_types ts d =
     (if list_ex (\<lambda>(_, n). 255 < char_count n) ts then (Some too_long, d)
      else if distinct (map fst (event_types d @ ts)) \<and> distinct (map snd (event_types d @ ts))
      then (None, d\<lparr>event_types := event_types d @ ts\<rparr>) else (Some unique_violation, d))"

text \<open>\<open>order\<close> is the order in which the range over the map comes out.\<close>

definition seedEventTypes :: "(string \<times> nat \<times> string) list \<Rightarrow> seed_db \<Rightarrow> go_error + seed_db" where
  "seedEventTypes order w =
     bind_seed (must (on_tables (insert_types (map (\<lambda>(n, i, _). (of_nat i, n)) order))) w) (\<lambda>w1.
     case select_max (\<lambda>d. map (\<lambda>(i, _). sint i) (event_types d)) w1 of (maxID, w2) \<Rightarrow>
       must (\<lambda>w. if maxID < 1 then (Some seq_bounds, w)
                 else (None, w\<lparr>tables := (tables w)\<lparr>type_seq := maxID + 1\<rparr>\<rparr>)) w2)"

definition recreateIndexes :: "seed_db \<Rightarrow> go_error + seed_db" where
  "recreateIndexes w =
     foldl (\<lambda>x ix. bind_seed x (must (\<lambda>w. (None, w\<lparr>indexes := List.insert ix (indexes w)\<rparr>)))) (Inr w) seed_indexes"


section \<open>Batches\<close>

definition numBatches :: "nat \<Rightarrow> nat" where
  "numBatches totalEvents = (totalEvents + batchSize - 1) div batchSize"

definition thisBatchSize :: "nat \<Rightarrow> nat \<Rightarrow> nat" where
  "thisBatchSize totalEvents b =
     (if b = numBatches totalEvents - 1 \<and> totalEvents mod batchSize \<noteq> 0 then totalEvents mod batchSize else batchSize)"

text \<open>\<open>insert into events (event_id, user_id, type_id, timestamp, metadata)\<close>.\<close>

definition seed_row :: "pg_env \<Rightarrow> int64 \<times> seed_template \<Rightarrow> event_row option" where
  "seed_row env v =
     (case v of (i, u, t, ts, m) \<Rightarrow>
        map_option (\<lambda>j. \<lparr>row_event_id = i, row_user_id = of_nat u, row_type_id = of_nat t,
                         row_timestamp = pg_timestamp env \<lparr>wall = ts, zone = 0\<rparr>, row_metadata = j\<rparr>) (jsonb_in env m))"

definition insert_seed_rows :: "pg_env \<Rightarrow> (int64 \<times> seed_template) list \<Rightarrow> pg \<Rightarrow> go_error option \<times> pg" where
  "insert_seed_rows env vs d =
     (case those (map (seed_row env) vs) of
        None \<Rightarrow> (Some invalid_text, d)
      | Some rows \<Rightarrow>
          if \<not> distinct (map row_event_id (events d @ rows)) then (Some unique_violation, d)
          else if list_ex (\<lambda>r. row_type_id r \<notin> fst ` set (event_types d) \<or> row_user_id r \<notin> set (users d)) rows
          then (Some foreign_key_violation, d)
          else (None, d\<lparr>events := events d @ rows\<rparr>))"

text \<open>
  A batch waits for a slot of the semaphore, draws its identifiers from the shared generator one
  by one, inserts its rows, and is done.
\<close>

datatype batch = B_waiting | B_running "int64 list" | B_done "int64 list" "go_error option"

record seed_run =
  sd_db :: seed_db
  sd_gen :: Snowflake
  sd_clock :: nat
  sd_batches :: "batch list"

definition seed_values :: "seed_template list \<Rightarrow> nat \<Rightarrow> int64 list \<Rightarrow> (int64 \<times> seed_template) list" where
  "seed_values tpl b ids = map (\<lambda>i. (ids ! i, tpl ! ((b * batchSize + i) mod poolSize))) [0..<length ids]"

fun is_running :: "batch \<Rightarrow> bool" where
  "is_running (B_running _) = True"
| "is_running _ = False"

text \<open>
  The next step of batch \<open>b\<close>. Batches are started in order, at most \<open>maxWorkers\<close> at a time.
  \<open>None\<close>: the generator waits for a clock that has stopped.
\<close>

definition seedBatch_step ::
  "pg_env \<Rightarrow> clock \<Rightarrow> seed_template list \<Rightarrow> nat \<Rightarrow> nat \<Rightarrow> nat \<Rightarrow> seed_run \<Rightarrow> seed_run option" where
  "seedBatch_step env clk tpl totalEvents maxWorkers b st =
     (let bs = sd_batches st in
      if length bs \<le> b then Some st
      else case bs ! b of
        B_waiting \<Rightarrow>
          if B_waiting \<notin> set (take b bs) \<and> length (filter is_running bs) < maxWorkers
          then Some (st\<lparr>sd_batches := bs[b := B_running []]\<rparr>) else Some st
      | B_running ids \<Rightarrow>
          if length ids < thisBatchSize totalEvents b then
            (case Generate clk (sd_clock st) (sd_gen st) of
               None \<Rightarrow> None
             | Some (Inl e, sf, k) \<Rightarrow>
                 Some (st\<lparr>sd_gen := sf, sd_clock := k,
                          sd_batches := bs[b := B_done ids (Some (Wrap ''failed to generate snowflake ID: '' e ''''))]\<rparr>)
             | Some (Inr i, sf, k) \<Rightarrow>
                 Some (st\<lparr>sd_gen := sf, sd_clock := k, sd_batches := bs[b := B_running (ids @ [i])]\<rparr>))
          else (case exec (on_tables (insert_seed_rows env (seed_values tpl b ids))) (sd_db st) of
                  (Some e, w) \<Rightarrow>
                    Some (st\<lparr>sd_db := w, sd_batches := bs[b := B_done ids (Some (Wrap ''failed to insert batch: '' e ''''))]\<rparr>)
                | (None, w) \<Rightarrow> Some (st\<lparr>sd_db := w, sd_batches := bs[b := B_done ids None]\<rparr>))
      | B_done ids r \<Rightarrow> Some st)"

fun seedBatches ::
  "pg_env \<Rightarrow> clock \<Rightarrow> seed_template list \<Rightarrow> nat \<Rightarrow> nat \<Rightarrow> nat list \<Rightarrow> seed_run \<Rightarrow> seed_run option" where
  "seedBatches env clk tpl totalEvents maxWorkers [] st = Some st"
| "seedBatches env clk tpl totalEvents maxWorkers (b # sched) st =
     Option.bind (seedBatch_step env clk tpl totalEvents maxWorkers b st) (seedBatches env clk tpl totalEvents maxWorkers sched)"

fun is_done :: "batch \<Rightarrow> bool" where
  "is_done (B_done _ _) = True"
| "is_done _ = False"

definition seed_start :: "nat \<Rightarrow> seed_db \<Rightarrow> Snowflake \<Rightarrow> seed_run" where
  "seed_start totalEvents w sf =
     \<lparr>sd_db = w, sd_gen = sf, sd_clock = 0, sd_batches = replicate (numBatches totalEvents) B_waiting\<rparr>"

text \<open>
  \<open>seedEvents\<close> under a schedule of its goroutines. It returns when the batches are done;
  \<open>None\<close>: under this schedule it has not returned. The errors of the batches are only logged.
\<close>

definition seedEvents ::
  "pg_env \<Rightarrow> clock \<Rightarrow> seed_template list \<Rightarrow> nat \<Rightarrow> nat \<Rightarrow> nat list \<Rightarrow> seed_db \<Rightarrow> (string + seed_run) option" where
  "seedEvents env clk tpl totalEvents maxWorkers sched w =
     (case New_sf 1 of
        Inl e \<Rightarrow> Some (Inl (''Failed to create snowflake generator: '' @ error_text e))
      | Inr sf \<Rightarrow>
          (case seedBatches env clk tpl totalEvents maxWorkers sched (seed_start totalEvents w sf) of
             None \<Rightarrow> None
           | Some st \<Rightarrow> if list_all is_done (sd_batches st) then Some (Inr st) else None))"


section \<open>The program\<close>

datatype 'r seeded = Sd_fatal string | Sd_panic go_error | Sd_running | Sd_done seed_db "'r Cache" "batch list"

record 'r seed_world =
  sw_getenv :: "string \<Rightarrow> string"
  sw_dial :: "string \<Rightarrow> go_error + pg"
  sw_user_seq :: int
  sw_indexes :: "string list"
  sw_dial_redis :: "string \<Rightarrow> int \<Rightarrow> 'r"
  sw_clock :: clock
  sw_now1 :: int
  sw_now2 :: int
  sw_local :: "int \<Rightarrow> int"
  sw_cpus :: nat

text \<open>
  \<open>order\<close> and \<open>typeNames\<close> are the orders of the two ranges over the map of types. \<open>Ping\<close>
  is a statement that does nothing.
\<close>

definition seed_main ::
  "('r, 'it) redis \<Rightarrow> pg_env \<Rightarrow> (string \<times> nat \<times> string) list \<Rightarrow> string list \<Rightarrow> nat list \<Rightarrow> bool \<Rightarrow>
   'r seed_world \<Rightarrow> 'r seeded" where
  "seed_main rd env order typeNames sched prodFlag sw =
     (let totalEvents = (if prodFlag then 10000000 else 100000) in
      case Load (sw_getenv sw) of
        Inl e \<Rightarrow> Sd_fatal (''Failed to load config: '' @ error_text e)
      | Inr cfg \<Rightarrow>
      case Connect (sw_dial sw) (DatabaseURL cfg) of
        Inl e \<Rightarrow> Sd_fatal (''Failed to connect to database: '' @ error_text e)
      | Inr (d, _) \<Rightarrow>
      case exec (Pair None) \<lparr>tables = d, user_seq = sw_user_seq sw, indexes = sw_indexes sw\<rparr> of
        (Some e, _) \<Rightarrow> Sd_fatal (''Failed to ping database: '' @ error_text e)
      | (None, w) \<Rightarrow>
      case bind_seed (bind_seed (cleanDatabase (prepareDB w)) seedUsers) (seedEventTypes order) of
        Inl e \<Rightarrow> Sd_panic e
      | Inr w1 \<Rightarrow>
      case seedEvents env (sw_clock sw) (newSeedPool typeNames (sw_now1 sw) (sw_now2 sw) (sw_local sw))
             totalEvents (sw_cpus sw) sched w1 of
        None \<Rightarrow> Sd_running
      | Some (Inl msg) \<Rightarrow> Sd_fatal msg
      | Some (Inr st) \<Rightarrow>
      case recreateIndexes (sd_db st) of
        Inl e \<Rightarrow> Sd_panic e
      | Inr w2 \<Rightarrow>
      case tool_invalidateCaches rd (sw_dial_redis sw) (sw_getenv sw) of
        None \<Rightarrow> Sd_running
      | Some c \<Rightarrow> Sd_done w2 c (sd_batches st))"


section \<open>Sizes in words\<close>

text \<open>
  The loop of \<open>formatBytes\<close>: the divisor, a 64-bit word, and the index of the unit; \<open>None\<close> is
  the panic of an index out of range.
\<close>

function unit_loop :: "nat \<Rightarrow> 64 word \<Rightarrow> nat \<Rightarrow> 64 word \<times> nat" where
  "unit_loop n div' exp' = (if 1024 \<le> n then unit_loop (n div 1024) (div' * 1024) (exp' + 1) else (div', exp'))"
  by pat_completeness auto
termination
  by (relation "measure (\<lambda>(n, _, _). n)") auto

declare unit_loop.simps [simp del]

definition formatBytes_unit :: "64 word \<Rightarrow> (64 word \<times> char) option" where
  "formatBytes_unit b =
     (if b < 1024 then Some (1, CHR ''B'')
      else case unit_loop (unat b div 1024) 1024 0 of (d, e) \<Rightarrow>
        if e < 6 then Some (d, ''KMGTPE'' ! e) else None)"

section \<open>Set-up\<close>

lemma exec_ok [simp]: "faults (tables w) = [] \<Longrightarrow> exec f w = f w"
  by (simp add: exec_def)

lemma must_ok [simp]: "faults (tables w) = [] \<Longrightarrow> must f w = (case f w of (Some e, _) \<Rightarrow> Inl e | (None, w') \<Rightarrow> Inr w')"
  by (simp add: must_def)

lemma bind_seed_Inr [simp]: "bind_seed (Inr w) f = f w"
  by (simp add: bind_seed_def)

lemma prepareDB_ok:
  assumes "faults (tables w) = []"
  shows "tables (prepareDB w) = tables w" and "user_seq (prepareDB w) = user_seq w"
  using assms by (simp_all add: prepareDB_def seed_indexes_def)

lemma cleanDatabase_ok:
  assumes "faults (tables w) = []"
  shows "cleanDatabase w = Inr (w\<lparr>tables := (tables w)\<lparr>users := [], event_types := [], events := [], type_seq := 1\<rparr>, user_seq := 1\<rparr>)"
  using assms by (simp add: cleanDatabase_def)

definition seeded_users :: "int64 list" where
  "seeded_users = map of_nat [1..<numUsers + 1]"

lemma of_nat_sint: "n < 2 ^ 63 \<Longrightarrow> sint (of_nat n :: int64) = int n"
  by (simp add: signed_of_nat signed_take_bit_int_eq_self)

lemma inj_of_nat: "inj_on (of_nat :: nat \<Rightarrow> int64) {n. n < 2 ^ 63}"
  by (rule inj_onI) (metis mem_Collect_eq of_nat_eq_iff of_nat_sint)

lemma seeded_users_law:
  shows "distinct seeded_users" and "Max (sint ` set seeded_users) = int numUsers"
    and "set seeded_users = of_nat ` {1..numUsers}"
proof -
  show s: "set seeded_users = of_nat ` {1..numUsers}"
    by (auto simp: seeded_users_def)
  have "{1..numUsers} \<subseteq> {n. n < 2 ^ 63}" by (auto simp: numUsers_def)
  then have "inj_on (of_nat :: nat \<Rightarrow> int64) {1..numUsers}"
    by (rule inj_on_subset [OF inj_of_nat])
  moreover have "set [1..<numUsers + 1] = {1..numUsers}" by auto
  ultimately show "distinct seeded_users"
    unfolding seeded_users_def distinct_map by simp
  have "sint ` set seeded_users = int ` {1..numUsers}"
    unfolding s image_image by (rule image_cong) (auto simp: of_nat_sint numUsers_def)
  also have "Max \<dots> = int numUsers"
    by (rule Max_eqI) (auto simp: numUsers_def)
  finally show "Max (sint ` set seeded_users) = int numUsers" .
qed

lemma seedUsers_ok:
  assumes "faults (tables w) = []" and "users (tables w) = []"
  shows "seedUsers w = Inr (w\<lparr>tables := (tables w)\<lparr>users := seeded_users\<rparr>, user_seq := int numUsers + 1\<rparr>)"
proof -
  have "seeded_users \<noteq> []" by (simp add: seeded_users_def numUsers_def)
  moreover have "(1 :: int) \<le> int numUsers" by (simp add: numUsers_def)
  ultimately show ?thesis
    unfolding seedUsers_def seeded_users_def [symmetric]
    using assms seeded_users_law(1,2) by (simp add: on_tables_def insert_users_def select_max_def)
qed

lemma eventTypes_law:
  shows "map (\<lambda>(n, i, p). i) eventTypes = [1..<101]" and "distinct (map fst eventTypes)"
    and "list_all (\<lambda>(n, i, p). length n \<le> 255) eventTypes"
  by (simp_all add: eventTypes_def upt_rec [of _ "numeral n" for n])

lemma char_count_le: "char_count s \<le> length s"
  by (simp add: char_count_def)

lemma eventTypes_ids: "(\<lambda>(n, i, p). i) ` set eventTypes = {1..100}"
proof -
  have "(\<lambda>(n, i, p). i) ` set eventTypes = set (map (\<lambda>(n, i, p). i) eventTypes)" by simp
  also have "\<dots> = {1..100}" unfolding eventTypes_law(1) by auto
  finally show ?thesis .
qed

definition seeded_types :: "(string \<times> nat \<times> string) list \<Rightarrow> (int64 \<times> string) list" where
  "seeded_types order = map (\<lambda>(n, i, p). (of_nat i, n)) order"

lemma seeded_types_law:
  assumes "mset order = mset eventTypes"
  shows "distinct (map fst (seeded_types order))" and "distinct (map snd (seeded_types order))"
    and "fst ` set (seeded_types order) = of_nat ` {1..100}"
    and "Max (sint ` fst ` set (seeded_types order)) = 100"
    and "list_all (\<lambda>(t, n). char_count n \<le> 255) (seeded_types order)"
proof -
  have s: "set order = set eventTypes" using assms by (metis set_mset_mset)
  have ids: "mset (map (\<lambda>(n, i, p). i) order) = mset (map (\<lambda>(n, i, p). i) eventTypes)"
    using assms by simp
  then have d: "distinct (map (\<lambda>(n, i, p). i) order)"
    unfolding eventTypes_law(1) by (metis distinct_upt mset_eq_imp_distinct_iff)
  have sub: "{1..100 :: nat} \<subseteq> {n. n < 2 ^ 63}" by auto
  have m: "map fst (seeded_types order) = map of_nat (map (\<lambda>(n, i, p). i) order)"
    by (simp add: seeded_types_def split_def)
  have i: "set (map (\<lambda>(n, i, p). i) order) = {1..100}" using s eventTypes_ids by simp
  show "distinct (map fst (seeded_types order))"
    unfolding m distinct_map using d i inj_on_subset [OF inj_of_nat sub] by (simp add: distinct_map)
  show f: "fst ` set (seeded_types order) = of_nat ` {1..100}"
    using m i by (metis image_set)
  have "sint ` fst ` set (seeded_types order) = int ` {1..100}"
    unfolding f image_image by (rule image_cong) (auto simp: of_nat_sint)
  also have "Max \<dots> = 100" by (rule Max_eqI) (auto intro: image_eqI [of _ _ 100])
  finally show "Max (sint ` fst ` set (seeded_types order)) = 100" .
  have "mset (map snd (seeded_types order)) = mset (map fst eventTypes)"
    using assms by (simp add: seeded_types_def split_def o_def)
  then show "distinct (map snd (seeded_types order))"
    using eventTypes_law(2) by (metis mset_eq_imp_distinct_iff)
  have "char_count n \<le> 255" if "(n, i, p) \<in> set order" for n i p
  proof -
    have "length n \<le> 255" using eventTypes_law(3) s that by (auto simp: list_all_iff)
    then show ?thesis using char_count_le [of n] by simp
  qed
  then show "list_all (\<lambda>(t, n). char_count n \<le> 255) (seeded_types order)"
    by (auto simp: seeded_types_def list_all_iff)
qed

lemma seedEventTypes_ok:
  assumes "faults (tables w) = []" and "event_types (tables w) = []" and "mset order = mset eventTypes"
  shows "seedEventTypes order w = Inr (w\<lparr>tables := (tables w)\<lparr>event_types := seeded_types order, type_seq := 101\<rparr>\<rparr>)"
proof -
  note l = seeded_types_law [OF assms(3)]
  have "order \<noteq> []" using assms(3) by (auto simp: eventTypes_def)
  then have n: "seeded_types order \<noteq> []" by (simp add: seeded_types_def)
  have "\<not> list_ex (\<lambda>(_, n). 255 < char_count n) (seeded_types order)"
    using l(5) by (auto simp: list_all_iff list_ex_iff)
  moreover have "Max ((\<lambda>(i, _). sint i) ` set (seeded_types order)) = 100"
    using l(4) by (simp add: image_image split_def)
  ultimately show ?thesis
    unfolding seedEventTypes_def seeded_types_def [symmetric]
    using assms l(1,2) n by (simp add: on_tables_def insert_types_def select_max_def)
qed

text \<open>What the inserts rely on of a template: its user and its type are seeded, its metadata is JSON.\<close>

definition template_ok :: "pg_env \<Rightarrow> seed_template \<Rightarrow> bool" where
  "template_ok env t \<longleftrightarrow>
     (case t of (u, ty, ts, m) \<Rightarrow> u \<in> {1..numUsers} \<and> ty \<in> {1..100} \<and> jsonb_in env m \<noteq> None)"

definition pages_ok :: "pg_env \<Rightarrow> bool" where
  "pages_ok env \<longleftrightarrow> list_all (\<lambda>(n, i, page). jsonb_in env (obj_text [(''page'', quote page)]) \<noteq> None) eventTypes"

lemma newSeedPool_ok:
  assumes "mset typeNames = mset (map fst eventTypes)" and "pages_ok env"
  shows "length (newSeedPool typeNames now1 now2 loc) = poolSize"
    and "list_all (template_ok env) (newSeedPool typeNames now1 now2 loc)"
proof -
  have ne: "typeNames \<noteq> []" using assms(1) by (auto simp: eventTypes_def)
  have lk: "\<exists>tid page. map_of eventTypes (typeNames ! (i mod length typeNames)) = Some (tid, page) \<and>
      tid \<in> {1..100} \<and> jsonb_in env (obj_text [(''page'', quote page)]) \<noteq> None" for i
  proof -
    have "typeNames ! (i mod length typeNames) \<in> set (map fst eventTypes)"
      using ne assms(1) by (metis length_greater_0_conv mod_less_divisor nth_mem set_mset_mset)
    then obtain tid page where m: "map_of eventTypes (typeNames ! (i mod length typeNames)) = Some (tid, page)"
      by (metis domD dom_map_of_conv_image_fst image_set prod.exhaust)
    then have e: "(typeNames ! (i mod length typeNames), tid, page) \<in> set eventTypes"
      by (rule map_of_SomeD)
    then have "tid \<in> {1..100}" using eventTypes_ids by force
    moreover have "jsonb_in env (obj_text [(''page'', quote page)]) \<noteq> None"
      using assms(2) e by (auto simp: pages_ok_def list_all_iff)
    ultimately show ?thesis using m by blast
  qed
  have "template_ok env (case the (map_of eventTypes (typeNames ! (i mod length typeNames))) of
      (tid, page) \<Rightarrow> (i mod numUsers + 1, tid, ts, obj_text [(''page'', quote page)]))" for i ts
  proof -
    have "i mod numUsers < numUsers" by (simp add: numUsers_def)
    then show ?thesis using lk [of i] by (auto simp: template_ok_def Suc_le_eq)
  qed
  then show "list_all (template_ok env) (newSeedPool typeNames now1 now2 loc)"
    by (auto simp: newSeedPool_def Let_def list_all_iff)
qed (simp add: newSeedPool_def Let_def)


section \<open>Batch sizes\<close>

lemma numBatches_eq:
  "numBatches n = (if n mod batchSize = 0 then n div batchSize else Suc (n div batchSize))"
proof -
  obtain q r where n: "n = batchSize * q + r" "r < batchSize" "q = n div batchSize" "r = n mod batchSize"
    by (simp add: batchSize_def)
  have "(n + batchSize - 1) div batchSize = (if r = 0 then q else Suc q)"
    using n(1,2) by (intro div_nat_eqI) (auto simp: batchSize_def)
  then show ?thesis using n(3,4) by (simp add: numBatches_def)
qed

text \<open>The batches divide the events exactly.\<close>

lemma batch_sizes: "(\<Sum>b<numBatches n. thisBatchSize n b) = n"
proof (cases "n mod batchSize = 0")
  case True
  then have "(\<Sum>b<numBatches n. thisBatchSize n b) = n div batchSize * batchSize"
    by (simp add: numBatches_eq thisBatchSize_def)
  then show ?thesis using True by (metis add.right_neutral div_mult_mod_eq)
next
  case False
  have "thisBatchSize n b = batchSize" if "b < n div batchSize" for b
    using that False by (simp add: thisBatchSize_def numBatches_eq)
  then have "(\<Sum>b<numBatches n. thisBatchSize n b) = n div batchSize * batchSize + n mod batchSize"
    using False by (simp add: numBatches_eq thisBatchSize_def [of n "n div batchSize"])
  then show ?thesis by simp
qed


section \<open>Draws from the shared generator\<close>

lemma generate_ids_add:
  "generate_ids clk (m + n) k s =
     (case generate_ids clk m k s of
        None \<Rightarrow> None
      | Some (is, s', k') \<Rightarrow> map_option (\<lambda>(js, t). (is @ js, t)) (generate_ids clk n k' s'))"
proof (induction m arbitrary: k s)
  case 0
  then show ?case by (simp add: option.map_ident split_def)
next
  case (Suc m)
  then show ?case by (auto split: option.splits sum.splits prod.splits)
qed

lemma generate_ids_length: "generate_ids clk n k s = Some (is, t) \<Longrightarrow> length is \<le> n"
  by (induction n arbitrary: k s "is") (fastforce split: option.splits sum.splits prod.splits)+

text \<open>If the generator can issue \<open>n\<close> identifiers one after another, none of these draws fails.\<close>

lemma next_draw:
  assumes "generate_ids clk n 0 sf = Some (all, t)" and "length all = n"
    and "generate_ids clk m 0 sf = Some (is, s, k)" and "m < n"
  obtains i s' k' where "Generate clk k s = Some (Inr i, s', k')"
    and "generate_ids clk (Suc m) 0 sf = Some (is @ [i], s', k')"
proof -
  obtain r where r: "n = m + Suc r" using assms(4) less_iff_Suc_add by auto
  obtain js where js: "generate_ids clk (Suc r) k s = Some (js, t)" "all = is @ js"
    using assms(1,3) generate_ids_add [of clk m "Suc r" 0 sf] r by (auto split: option.splits)
  have "length js = Suc r"
    using generate_ids_length [OF assms(3)] generate_ids_length [OF js(1)] assms(2) js(2) r by simp
  then obtain i s' k' where g: "Generate clk k s = Some (Inr i, s', k')"
    using js(1) by (auto split: option.splits sum.splits prod.splits dest: generate_ids_length)
  then have "generate_ids clk (Suc m) 0 sf = Some (is @ [i], s', k')"
    using generate_ids_add [of clk m "Suc 0" 0 sf] assms(3) by simp
  with g show thesis by (rule that)
qed

section \<open>Runs of the batches\<close>

fun batch_ids :: "batch \<Rightarrow> int64 list" where
  "batch_ids B_waiting = []"
| "batch_ids (B_running ids) = ids"
| "batch_ids (B_done ids _) = ids"

fun inserted_ids :: "batch \<Rightarrow> int64 list" where
  "inserted_ids (B_done ids None) = ids"
| "inserted_ids _ = []"

fun batch_ok :: "nat \<Rightarrow> batch \<Rightarrow> bool" where
  "batch_ok n B_waiting = True"
| "batch_ok n (B_running ids) = (length ids \<le> n)"
| "batch_ok n (B_done ids r) = (r = None \<and> length ids = n)"

lemma mset_concat_update:
  assumes "b < length bs" and "mset (f x) = mset (f (bs ! b)) + A"
  shows "mset (concat (map f (bs[b := x]))) = mset (concat (map f bs)) + A"
proof -
  have "mset (concat (map f bs)) = mset (concat (map f (take b bs @ bs ! b # drop (Suc b) bs)))"
    using assms(1) by (simp add: id_take_nth_drop [symmetric])
  then show ?thesis using assms by (simp add: upd_conv_take_nth_drop)
qed

lemma batch_ids_bound:
  assumes "length bs = numBatches n" and "\<forall>b < length bs. batch_ok (thisBatchSize n b) (bs ! b)"
  shows "length (concat (map batch_ids bs)) \<le> n"
    and "b < length bs \<Longrightarrow> length (batch_ids (bs ! b)) < thisBatchSize n b \<Longrightarrow> length (concat (map batch_ids bs)) < n"
    and "list_all is_done bs \<Longrightarrow> length (concat (map batch_ids bs)) = n"
proof -
  have l: "length (concat (map batch_ids bs)) = (\<Sum>b<numBatches n. length (batch_ids (bs ! b)))"
    using assms(1) by (simp add: length_concat sum_list_sum_nth atLeast0LessThan)
  have le: "length (batch_ids (bs ! b)) \<le> thisBatchSize n b" if "b < numBatches n" for b
    using assms that by (cases "bs ! b") (auto dest: spec [of _ b])
  have "(\<Sum>b<numBatches n. length (batch_ids (bs ! b))) \<le> (\<Sum>b<numBatches n. thisBatchSize n b)"
    using le by (intro sum_mono) simp
  then show "length (concat (map batch_ids bs)) \<le> n" by (simp only: l batch_sizes)
  show "length (concat (map batch_ids bs)) < n" if "b < length bs" "length (batch_ids (bs ! b)) < thisBatchSize n b"
  proof -
    have "(\<Sum>b<numBatches n. length (batch_ids (bs ! b))) < (\<Sum>b<numBatches n. thisBatchSize n b)"
      using that le assms(1) by (intro sum_strict_mono_ex1) auto
    then show ?thesis by (simp only: l batch_sizes)
  qed
  show "length (concat (map batch_ids bs)) = n" if "list_all is_done bs"
  proof -
    have "length (batch_ids (bs ! b)) = thisBatchSize n b" if "b < numBatches n" for b
    proof -
      have "is_done (bs ! b)" "batch_ok (thisBatchSize n b) (bs ! b)"
        using that \<open>list_all is_done bs\<close> assms by (auto simp: list_all_length)
      then show ?thesis by (cases "bs ! b") auto
    qed
    then have "(\<Sum>b<numBatches n. length (batch_ids (bs ! b))) = (\<Sum>b<numBatches n. thisBatchSize n b)"
      by (intro sum.cong) auto
    then show ?thesis by (simp only: l batch_sizes)
  qed
qed

lemma inserted_sub: "mset (concat (map inserted_ids bs)) \<subseteq># mset (concat (map batch_ids bs))"
proof (induction bs)
  case (Cons x bs)
  have "mset (inserted_ids x) \<subseteq># mset (batch_ids x)" by (cases x rule: inserted_ids.cases) auto
  then show ?case using Cons by (auto intro: subset_mset.add_mono)
qed simp

lemma inserted_done:
  assumes "\<forall>b < length bs. batch_ok (thisBatchSize n b) (bs ! b)" and "list_all is_done bs"
  shows "map inserted_ids bs = map batch_ids bs"
proof (rule map_cong [OF refl])
  fix x assume "x \<in> set bs"
  then obtain b where "b < length bs" "x = bs ! b" by (auto simp: in_set_conv_nth)
  then have "batch_ok (thisBatchSize n b) x" "is_done x" using assms by (auto simp: list_all_length)
  then show "inserted_ids x = batch_ids x" by (cases x) auto
qed

text \<open>
  The invariant of a run, from the tables \<open>w\<close> and the generator \<open>sf\<close>: the generator is where
  a single caller would have left it, its identifiers are in the batches, and the table of events
  has the rows of the batches that are done.
\<close>

definition seed_inv :: "clock \<Rightarrow> nat \<Rightarrow> seed_db \<Rightarrow> Snowflake \<Rightarrow> seed_run \<Rightarrow> bool" where
  "seed_inv clk n w sf st \<longleftrightarrow>
     (let bs = sd_batches st; es = events (tables (sd_db st)) in
      (\<exists>is. generate_ids clk (length is) 0 sf = Some (is, sd_gen st, sd_clock st) \<and>
            mset is = mset (concat (map batch_ids bs))) \<and>
      length bs = numBatches n \<and> (\<forall>b < length bs. batch_ok (thisBatchSize n b) (bs ! b)) \<and>
      sd_db st = w\<lparr>tables := (tables w)\<lparr>events := es\<rparr>\<rparr> \<and>
      mset (map row_event_id es) = mset (concat (map inserted_ids bs)) \<and>
      (\<forall>r \<in> set es. row_type_id r \<in> fst ` set (event_types (tables w)) \<and> row_user_id r \<in> set (users (tables w))))"

definition seed_ready :: "pg_env \<Rightarrow> clock \<Rightarrow> seed_template list \<Rightarrow> nat \<Rightarrow> seed_db \<Rightarrow> Snowflake \<Rightarrow> bool" where
  "seed_ready env clk tpl n w sf \<longleftrightarrow>
     sf_inv DefaultEpoch sf \<and> clock_after DefaultEpoch clk \<and>
     (\<exists>all t. generate_ids clk n 0 sf = Some (all, t) \<and> length all = n) \<and>
     length tpl = poolSize \<and> list_all (template_ok env) tpl \<and>
     faults (tables w) = [] \<and> events (tables w) = [] \<and>
     set (users (tables w)) = of_nat ` {1..numUsers} \<and> fst ` set (event_types (tables w)) = of_nat ` {1..100}"

lemma seed_start_inv: "events (tables w) = [] \<Longrightarrow> seed_inv clk n w sf (seed_start n w sf)"
  by (auto simp: seed_inv_def seed_start_def intro: exI [of _ "[]"])

lemma seed_values_nth: "map fst (seed_values tpl b ids) = ids"
  by (simp add: seed_values_def map_nth o_def)

text \<open>The rows of a batch: an insert of new identifiers succeeds.\<close>

lemma insert_seed_rows_ok:
  assumes "length tpl = poolSize" and "list_all (template_ok env) tpl"
    and "set (users d) = of_nat ` {1..numUsers}" and "fst ` set (event_types d) = of_nat ` {1..100}"
    and "distinct (map row_event_id (events d) @ ids)"
  obtains rows where "insert_seed_rows env (seed_values tpl b ids) d = (None, d\<lparr>events := events d @ rows\<rparr>)"
    and "map row_event_id rows = ids"
    and "\<forall>r \<in> set rows. row_type_id r \<in> fst ` set (event_types d) \<and> row_user_id r \<in> set (users d)"
proof -
  let ?ok = "\<lambda>v r. seed_row env v = Some r \<and> row_event_id r = fst v \<and>
      row_type_id r \<in> fst ` set (event_types d) \<and> row_user_id r \<in> set (users d)"
  have "\<exists>r. ?ok v r" if "v \<in> set (seed_values tpl b ids)" for v
  proof -
    have "snd v \<in> set tpl"
      using that assms(1) by (auto simp: seed_values_def poolSize_def)
    then have "template_ok env (snd v)" using assms(2) by (simp add: list_all_iff)
    then show ?thesis
      unfolding assms(3,4) by (cases v) (auto simp: template_ok_def seed_row_def)
  qed
  then obtain g where g: "?ok v (g v)" if "v \<in> set (seed_values tpl b ids)" for v by metis
  let ?rows = "map g (seed_values tpl b ids)"
  have t: "those (map (seed_row env) (seed_values tpl b ids)) = Some ?rows"
    by (rule those_map_fun) (use g in blast)
  have "map row_event_id ?rows = map fst (seed_values tpl b ids)"
    unfolding map_map o_def by (rule map_cong [OF refl]) (use g in blast)
  then have i: "map row_event_id ?rows = ids" by (simp only: seed_values_nth)
  have fk: "\<forall>r \<in> set ?rows. row_type_id r \<in> fst ` set (event_types d) \<and> row_user_id r \<in> set (users d)"
    using g by auto
  have "insert_seed_rows env (seed_values tpl b ids) d = (None, d\<lparr>events := events d @ ?rows\<rparr>)"
    using t i fk assms(5) by (auto simp: insert_seed_rows_def list_ex_iff simp del: map_map)
  then show thesis using i fk by (rule that)
qed

lemma distinct_submset:
  assumes "distinct ys" and "mset xs \<subseteq># mset ys"
  shows "distinct xs"
proof -
  obtain zs where "mset ys = mset (xs @ zs)"
    using assms(2) by (metis ex_mset mset_append mset_subset_eq_exists_conv)
  then have "distinct (xs @ zs)" using assms(1) by (metis mset_eq_imp_distinct_iff)
  then show ?thesis by simp
qed

lemma batch_ok_update:
  assumes "\<forall>c < length bs. batch_ok (thisBatchSize n c) (bs ! c)" and "batch_ok (thisBatchSize n b) x"
  shows "\<forall>c < length (bs[b := x]). batch_ok (thisBatchSize n c) (bs[b := x] ! c)"
proof (intro allI impI)
  fix c assume "c < length (bs[b := x])"
  then show "batch_ok (thisBatchSize n c) (bs[b := x] ! c)" using assms by (cases "c = b") simp_all
qed

lemma seed_inv_start:
  assumes "seed_inv clk n w sf st" and "b < length (sd_batches st)" and "sd_batches st ! b = B_waiting"
  shows "seed_inv clk n w sf (st\<lparr>sd_batches := (sd_batches st)[b := B_running []]\<rparr>)"
proof -
  have u: "mset (concat (map f ((sd_batches st)[b := B_running []]))) = mset (concat (map f (sd_batches st)))"
    if "f (B_running []) = []" "f B_waiting = []" for f :: "batch \<Rightarrow> int64 list"
    using mset_concat_update [OF assms(2), of f "B_running []" "{#}"] that assms(3) by simp
  show ?thesis
    using assms(1) u [of batch_ids] u [of inserted_ids] batch_ok_update [of "sd_batches st" n b "B_running []"]
    by (simp add: seed_inv_def Let_def)
qed

lemma seed_inv_draw:
  assumes "seed_inv clk n w sf st" and "b < length (sd_batches st)" and "sd_batches st ! b = B_running ids"
    and "length ids < thisBatchSize n b"
    and "generate_ids clk n 0 sf = Some (all, t)" and "length all = n"
  obtains i s' k' where "Generate clk (sd_clock st) (sd_gen st) = Some (Inr i, s', k')"
    and "seed_inv clk n w sf (st\<lparr>sd_gen := s', sd_clock := k', sd_batches := (sd_batches st)[b := B_running (ids @ [i])]\<rparr>)"
proof -
  obtain "is" where g: "generate_ids clk (length is) 0 sf = Some (is, sd_gen st, sd_clock st)"
      and m: "mset is = mset (concat (map batch_ids (sd_batches st)))"
      and bs: "length (sd_batches st) = numBatches n" "\<forall>b < length (sd_batches st). batch_ok (thisBatchSize n b) (sd_batches st ! b)"
    using assms(1) by (auto simp: seed_inv_def Let_def)
  have "length is = length (concat (map batch_ids (sd_batches st)))" using m by (metis size_mset)
  then have "length is < n"
    using batch_ids_bound(2) [OF bs assms(2)] assms(3,4) by simp
  then obtain i s' k' where d: "Generate clk (sd_clock st) (sd_gen st) = Some (Inr i, s', k')"
      "generate_ids clk (Suc (length is)) 0 sf = Some (is @ [i], s', k')"
    using next_draw [OF assms(5,6) g] by blast
  let ?st = "st\<lparr>sd_gen := s', sd_clock := k', sd_batches := (sd_batches st)[b := B_running (ids @ [i])]\<rparr>"
  have "mset (is @ [i]) = mset (concat (map batch_ids (sd_batches ?st)))"
    using mset_concat_update [OF assms(2), of batch_ids "B_running (ids @ [i])" "{#i#}"] m assms(3) by simp
  then have "\<exists>js. generate_ids clk (length js) 0 sf = Some (js, sd_gen ?st, sd_clock ?st) \<and>
      mset js = mset (concat (map batch_ids (sd_batches ?st)))"
    using d(2) by (intro exI [of _ "is @ [i]"]) simp
  moreover have "mset (concat (map inserted_ids (sd_batches ?st))) = mset (concat (map inserted_ids (sd_batches st)))"
    using mset_concat_update [OF assms(2), of inserted_ids "B_running (ids @ [i])" "{#}"] assms(3) by simp
  moreover have "batch_ok (thisBatchSize n b) (B_running (ids @ [i]))" using assms(4) by simp
  then have "\<forall>c < length (sd_batches ?st). batch_ok (thisBatchSize n c) (sd_batches ?st ! c)"
    using batch_ok_update [OF bs(2)] by simp
  moreover have "length (sd_batches ?st) = numBatches n" "sd_db ?st = sd_db st" using bs(1) by simp_all
  ultimately have "seed_inv clk n w sf ?st"
    using assms(1) unfolding seed_inv_def Let_def by presburger
  with d(1) show thesis by (rule that)
qed

lemma seed_inv_insert:
  assumes "seed_inv clk n w sf st" and "seed_ready env clk tpl n w sf" and "b < length (sd_batches st)"
    and "sd_batches st ! b = B_running ids" and "\<not> length ids < thisBatchSize n b"
  obtains w' where "exec (on_tables (insert_seed_rows env (seed_values tpl b ids))) (sd_db st) = (None, w')"
    and "seed_inv clk n w sf (st\<lparr>sd_db := w', sd_batches := (sd_batches st)[b := B_done ids None]\<rparr>)"
proof -
  let ?bs = "sd_batches st" and ?d = "tables (sd_db st)"
  let ?bs' = "?bs[b := B_done ids None]"
  obtain "is" where g: "generate_ids clk (length is) 0 sf = Some (is, sd_gen st, sd_clock st)"
      and m: "mset is = mset (concat (map batch_ids ?bs))"
      and bs: "length ?bs = numBatches n" "\<forall>b < length ?bs. batch_ok (thisBatchSize n b) (?bs ! b)"
      and db: "sd_db st = w\<lparr>tables := (tables w)\<lparr>events := events ?d\<rparr>\<rparr>"
      and es: "mset (map row_event_id (events ?d)) = mset (concat (map inserted_ids ?bs))"
      and fk: "\<forall>r \<in> set (events ?d). row_type_id r \<in> fst ` set (event_types (tables w)) \<and> row_user_id r \<in> set (users (tables w))"
    using assms(1) unfolding seed_inv_def Let_def by blast
  have all: "mset (concat (map batch_ids ?bs')) = mset is"
    using mset_concat_update [OF assms(3), of batch_ids "B_done ids None" "{#}"] m assms(4) by simp
  have ins: "mset (concat (map inserted_ids ?bs')) = mset (map row_event_id (events ?d) @ ids)"
    using mset_concat_update [OF assms(3), of inserted_ids "B_done ids None" "mset ids"] es assms(4) by simp
  have "distinct is"
    using sf.issue_distinct [where ep = DefaultEpoch and s = "(sf, 0)" and clk = clk] g assms(2)
    by (auto simp: generate_ids_issue seed_ready_def)
  then have dis: "distinct (map row_event_id (events ?d) @ ids)"
    by (rule distinct_submset) (use inserted_sub [of ?bs'] all ins in simp)
  have tb: "users ?d = users (tables w)" "event_types ?d = event_types (tables w)" "faults ?d = []"
    using db assms(2) by (metis (no_types, lifting) pg.select_convs pg.surjective pg.update_convs seed_db.select_convs(1)
        seed_db.surjective seed_db.update_convs(1) seed_ready_def)+
  obtain rows where r: "insert_seed_rows env (seed_values tpl b ids) ?d = (None, ?d\<lparr>events := events ?d @ rows\<rparr>)"
      "map row_event_id rows = ids"
      "\<forall>r \<in> set rows. row_type_id r \<in> fst ` set (event_types ?d) \<and> row_user_id r \<in> set (users ?d)"
    by (rule insert_seed_rows_ok [of tpl env ?d ids b]) (use assms(2) tb dis in \<open>auto simp: seed_ready_def\<close>)
  let ?w' = "(sd_db st)\<lparr>tables := ?d\<lparr>events := events ?d @ rows\<rparr>\<rparr>"
  have "exec (on_tables (insert_seed_rows env (seed_values tpl b ids))) (sd_db st) = (None, ?w')"
    using r(1) tb(3) by (simp add: on_tables_def)
  moreover have "batch_ok (thisBatchSize n b) (B_done ids None)"
    using bs(2) assms(3,4,5) by (auto dest!: spec [of _ b])
  then have "\<forall>c < length ?bs'. batch_ok (thisBatchSize n c) (?bs' ! c)" by (rule batch_ok_update [OF bs(2)])
  moreover have "?w' = w\<lparr>tables := (tables w)\<lparr>events := events ?d @ rows\<rparr>\<rparr>"
    by (subst (1 2) db) simp
  ultimately show thesis
    using g all ins bs(1) fk r(2,3) tb
    by (intro that [of ?w']) (auto simp: seed_inv_def Let_def)
qed

section \<open>What the rows hold\<close>

text \<open>
  Everything of a row but its identifier, and what the event number \<open>g\<close> of the run is to hold by
  its template: with no statement failing, the table has exactly the rows for the event numbers of the
  batches that are done.
\<close>

definition row_body :: "event_row \<Rightarrow> int64 \<times> int64 \<times> int \<times> string option" where
  "row_body r = (row_user_id r, row_type_id r, row_timestamp r, Some (row_metadata r))"

definition seed_body :: "pg_env \<Rightarrow> seed_template list \<Rightarrow> nat \<Rightarrow> int64 \<times> int64 \<times> int \<times> string option" where
  "seed_body env tpl g =
     (case tpl ! (g mod poolSize) of (u, t, ts, m) \<Rightarrow>
        (of_nat u, of_nat t, pg_timestamp env \<lparr>wall = ts, zone = 0\<rparr>, jsonb_in env m))"

fun slots :: "nat \<Rightarrow> batch \<Rightarrow> nat list" where
  "slots b (B_done ids None) = [b * batchSize..<b * batchSize + length ids]"
| "slots b _ = []"

definition all_slots :: "batch list \<Rightarrow> nat list" where
  "all_slots bs = concat (map (\<lambda>b. slots b (bs ! b)) [0..<length bs])"

definition seed_bodies :: "pg_env \<Rightarrow> seed_template list \<Rightarrow> seed_run \<Rightarrow> bool" where
  "seed_bodies env tpl st \<longleftrightarrow> faults (tables (sd_db st)) = [] \<and>
     mset (map row_body (events (tables (sd_db st)))) = mset (map (seed_body env tpl) (all_slots (sd_batches st)))"

lemma all_slots_update:
  assumes "b < length bs" and "slots b (bs ! b) = []"
  shows "mset (all_slots (bs[b := x])) = mset (all_slots bs) + mset (slots b x)"
proof -
  have m: "mset (all_slots cs) = (\<Sum>c<length cs. mset (slots c (cs ! c)))" for cs
    by (simp add: all_slots_def mset_concat o_def interv_sum_list_conv_sum_set_nat atLeast0LessThan)
  have f: "finite {..<length bs}" "b \<in> {..<length bs}" using assms(1) by simp_all
  have "(\<Sum>c<length bs. mset (slots c (bs[b := x] ! c))) =
      mset (slots b x) + (\<Sum>c \<in> {..<length bs} - {b}. mset (slots c (bs[b := x] ! c)))"
    using sum.remove [OF f, of "\<lambda>c. mset (slots c (bs[b := x] ! c))"] assms(1) by simp
  also have "(\<Sum>c \<in> {..<length bs} - {b}. mset (slots c (bs[b := x] ! c))) =
      (\<Sum>c \<in> {..<length bs} - {b}. mset (slots c (bs ! c)))"
    by (rule sum.cong) auto
  also have "\<dots> = (\<Sum>c<length bs. mset (slots c (bs ! c)))"
    using sum.remove [OF f, of "\<lambda>c. mset (slots c (bs ! c))"] assms(2) by simp
  finally show ?thesis by (simp add: m)
qed

lemma map_slots_update:
  assumes "b < length bs" and "slots b (bs ! b) = []"
  shows "mset (map f (all_slots (bs[b := x]))) = mset (map f (all_slots bs)) + mset (map f (slots b x))"
  using all_slots_update [OF assms, of x] by simp

lemma seed_rows_bodies:
  assumes "those (map (seed_row env) (seed_values tpl b ids)) = Some rows"
  shows "map row_body rows = map (seed_body env tpl) [b * batchSize..<b * batchSize + length ids]"
proof -
  have m: "map (seed_row env) (seed_values tpl b ids) = map Some rows" using assms by (simp only: those_map_Some)
  have "length (map (seed_row env) (seed_values tpl b ids)) = length (map Some rows)" by (simp only: m)
  then have len: "length rows = length ids" by (simp add: seed_values_def)
  have "row_body (rows ! i) = seed_body env tpl (b * batchSize + i)" if i: "i < length ids" for i
  proof -
    have "seed_row env (ids ! i, tpl ! ((b * batchSize + i) mod poolSize)) = map (seed_row env) (seed_values tpl b ids) ! i"
      using i by (simp add: seed_values_def)
    also have "\<dots> = Some (rows ! i)" unfolding m using i len by simp
    finally have s: "seed_row env (ids ! i, tpl ! ((b * batchSize + i) mod poolSize)) = Some (rows ! i)" .
    obtain u ty ts md where tp: "tpl ! ((b * batchSize + i) mod poolSize) = (u, ty, ts, md)" by (metis prod_cases4)
    have "row_body r = seed_body env tpl (b * batchSize + i)"
      if "seed_row env (ids ! i, u, ty, ts, md) = Some r" for r
      using that tp by (auto simp: seed_row_def row_body_def seed_body_def)
    then show ?thesis using s tp by simp
  qed
  then show ?thesis using len by (intro nth_equalityI) simp_all
qed

lemma insert_seed_rows_bodies:
  assumes "insert_seed_rows env (seed_values tpl b ids) d = (r, d')"
  shows "faults d' = faults d"
    and "r \<noteq> None \<Longrightarrow> events d' = events d"
    and "r = None \<Longrightarrow> map row_body (events d') = map row_body (events d) @
           map (seed_body env tpl) [b * batchSize..<b * batchSize + length ids]"
  using assms seed_rows_bodies [of env tpl b ids]
  by (auto simp: insert_seed_rows_def split: option.splits if_splits)

lemma seedBatch_step_bodies:
  assumes "seed_bodies env tpl st" and "seedBatch_step env clk tpl n mw b st = Some st'"
  shows "seed_bodies env tpl st'"
proof (cases "b < length (sd_batches st)")
  case False
  then show ?thesis using assms by (simp add: seedBatch_step_def)
next
  case b: True
  let ?bs = "sd_batches st"
  have idle: "seed_bodies env tpl (st\<lparr>sd_gen := s, sd_clock := k, sd_batches := ?bs[b := x]\<rparr>)"
    if "slots b (?bs ! b) = []" "slots b x = []" for x s k
    using assms(1) map_slots_update [OF b that(1), of "seed_body env tpl" x] that(2) by (simp add: seed_bodies_def)
  show ?thesis
  proof (cases "?bs ! b")
    case B_waiting
    then have "seed_bodies env tpl (st\<lparr>sd_batches := ?bs[b := B_running []]\<rparr>)"
      using idle [where x = "B_running []" and s = "sd_gen st" and k = "sd_clock st"] by simp
    then show ?thesis using assms B_waiting b by (auto simp: seedBatch_step_def Let_def split: if_splits)
  next
    case (B_running ids)
    show ?thesis
    proof (cases "length ids < thisBatchSize n b")
      case True
      then show ?thesis
        using assms(2) b B_running idle
        by (auto simp: seedBatch_step_def Let_def split: option.splits sum.splits)
    next
      case False
      obtain r d' where i: "insert_seed_rows env (seed_values tpl b ids) (tables (sd_db st)) = (r, d')" by fastforce
      note l = insert_seed_rows_bodies [OF i]
      have f: "faults (tables (sd_db st)) = []" using assms(1) by (simp add: seed_bodies_def)
      then have x: "exec (on_tables (insert_seed_rows env (seed_values tpl b ids))) (sd_db st) = (r, (sd_db st)\<lparr>tables := d'\<rparr>)"
        using i by (simp add: on_tables_def)
      have s: "slots b (?bs ! b) = []" using B_running by simp
      show ?thesis
      proof (cases r)
        case None
        have e: "st' = st\<lparr>sd_db := (sd_db st)\<lparr>tables := d'\<rparr>, sd_batches := ?bs[b := B_done ids None]\<rparr>"
          using assms(2) b B_running False x None by (simp add: seedBatch_step_def)
        have "mset (map row_body (events d')) = mset (map row_body (events (tables (sd_db st)))) +
            mset (map (seed_body env tpl) (slots b (B_done ids None)))"
          by (simp only: l(3) [OF None] mset_append slots.simps)
        then show ?thesis
          using assms(1) map_slots_update [OF b s, of "seed_body env tpl" "B_done ids None"] l(1)
          by (simp add: seed_bodies_def e del: slots.simps mset_map)
      next
        case (Some err)
        have e: "st' = st\<lparr>sd_db := (sd_db st)\<lparr>tables := d'\<rparr>, sd_batches := ?bs[b := B_done ids (Some (Wrap ''failed to insert batch: '' err ''''))]\<rparr>"
          using assms(2) b B_running False x Some by (simp add: seedBatch_step_def)
        show ?thesis
          using assms(1) map_slots_update [OF b s, of "seed_body env tpl" "B_done ids (Some (Wrap ''failed to insert batch: '' err ''''))"] l(1,2) Some
          by (simp add: seed_bodies_def e)
      qed
    qed
  next
    case (B_done ids r)
    then show ?thesis using assms b by (simp add: seedBatch_step_def)
  qed
qed

lemma seedBatches_bodies:
  "seed_bodies env tpl st \<Longrightarrow> seedBatches env clk tpl n mw sched st = Some st' \<Longrightarrow> seed_bodies env tpl st'"
proof (induction sched arbitrary: st)
  case (Cons b sched)
  obtain s where s: "seedBatch_step env clk tpl n mw b st = Some s" "seedBatches env clk tpl n mw sched s = Some st'"
    using Cons.prems(2) by (auto simp: Option.bind_eq_Some_conv)
  then show ?case using Cons.IH [OF seedBatch_step_bodies [OF Cons.prems(1) s(1)]] by blast
qed simp

lemma seed_start_bodies:
  "events (tables w) = [] \<Longrightarrow> faults (tables w) = [] \<Longrightarrow> seed_bodies env tpl (seed_start n w sf)"
proof -
  have "all_slots (replicate m B_waiting) = []" for m by (simp add: all_slots_def)
  then show "events (tables w) = [] \<Longrightarrow> faults (tables w) = [] \<Longrightarrow> ?thesis" by (simp add: seed_bodies_def seed_start_def)
qed

text \<open>The slots of the batches are the event numbers of the run, each once.\<close>

lemma concat_slots: "concat (map (\<lambda>b. [b * m..<b * m + m]) [0..<k]) = [0..<k * m]"
proof (induction k)
  case (Suc k)
  have "[0..<k * m] @ [k * m..<k * m + m] = [0..<k * m + m]" by (rule upt_add_eq_append [symmetric]) simp
  then show ?case using Suc by (simp add: add.commute)
qed simp

lemma all_slots_done:
  assumes "length bs = numBatches n" and "\<forall>b < length bs. batch_ok (thisBatchSize n b) (bs ! b)" and "list_all is_done bs"
  shows "all_slots bs = [0..<n]"
proof -
  have s: "slots b (bs ! b) = [b * batchSize..<b * batchSize + thisBatchSize n b]" if "b < numBatches n" for b
  proof -
    have "is_done (bs ! b)" "batch_ok (thisBatchSize n b) (bs ! b)" using that assms by (auto simp: list_all_length)
    then show ?thesis by (cases "bs ! b") auto
  qed
  let ?f = "\<lambda>b. [b * batchSize..<b * batchSize + thisBatchSize n b]"
  have a: "all_slots bs = concat (map ?f [0..<numBatches n])"
    unfolding all_slots_def assms(1) by (rule arg_cong [where f = concat], rule map_cong) (simp_all add: s)
  have full: "concat (map ?f [0..<n div batchSize]) = [0..<n div batchSize * batchSize]"
  proof -
    have "thisBatchSize n b = batchSize" if "b < n div batchSize" for b
      using that by (auto simp: thisBatchSize_def numBatches_eq)
    then have "map ?f [0..<n div batchSize] = map (\<lambda>b. [b * batchSize..<b * batchSize + batchSize]) [0..<n div batchSize]"
      by (intro map_cong) simp_all
    then show ?thesis by (simp only: concat_slots)
  qed
  show ?thesis
  proof (cases "n mod batchSize = 0")
    case True
    then have "n div batchSize * batchSize = n" by (metis add.right_neutral div_mult_mod_eq)
    then show ?thesis using a full True by (simp add: numBatches_eq)
  next
    case False
    have l: "?f (n div batchSize) = [n div batchSize * batchSize..<n]"
      using False by (simp add: thisBatchSize_def numBatches_eq)
    have "[0..<n div batchSize * batchSize] @ [n div batchSize * batchSize..<n] = [0..<n]"
      using upt_add_eq_append [of 0 "n div batchSize * batchSize" "n - n div batchSize * batchSize"] by simp
    then show ?thesis using a full l False by (simp add: numBatches_eq)
  qed
qed

section \<open>Progress\<close>

fun batch_work :: "nat \<Rightarrow> batch \<Rightarrow> nat" where
  "batch_work n B_waiting = n + 2"
| "batch_work n (B_running ids) = n - length ids + 1"
| "batch_work n (B_done ids r) = 0"

definition seed_work :: "nat \<Rightarrow> batch list \<Rightarrow> nat" where
  "seed_work n bs = (\<Sum>b<length bs. batch_work (thisBatchSize n b) (bs ! b))"

definition can_step :: "nat \<Rightarrow> batch list \<Rightarrow> nat \<Rightarrow> bool" where
  "can_step maxWorkers bs b \<longleftrightarrow>
     b < length bs \<and> (is_running (bs ! b) \<or>
       bs ! b = B_waiting \<and> B_waiting \<notin> set (take b bs) \<and> length (filter is_running bs) < maxWorkers)"

lemma seed_work_update:
  assumes "b < length bs" and "batch_work (thisBatchSize n b) x < batch_work (thisBatchSize n b) (bs ! b)"
  shows "seed_work n (bs[b := x]) < seed_work n bs"
  unfolding seed_work_def length_list_update using assms
  by (intro sum_strict_mono_ex1) (auto simp: nth_list_update)

text \<open>A step keeps the invariant and, where the batch can move, leaves less to do.\<close>

lemma seedBatch_step_inv:
  assumes "seed_inv clk n w sf st" and "seed_ready env clk tpl n w sf"
  obtains st' where "seedBatch_step env clk tpl n mw b st = Some st'" and "seed_inv clk n w sf st'"
    and "can_step mw (sd_batches st) b \<Longrightarrow> seed_work n (sd_batches st') < seed_work n (sd_batches st)"
proof (cases "b < length (sd_batches st)")
  case False
  then show thesis using assms(1) by (intro that [of st]) (auto simp: seedBatch_step_def can_step_def)
next
  case b: True
  show thesis
  proof (cases "sd_batches st ! b")
    case B_waiting
    show thesis
    proof (cases "can_step mw (sd_batches st) b")
      case True
      then show thesis
        using B_waiting seed_inv_start [OF assms(1) b B_waiting] b
        by (intro that [of "st\<lparr>sd_batches := (sd_batches st)[b := B_running []]\<rparr>"])
          (auto simp: seedBatch_step_def can_step_def intro: seed_work_update)
    next
      case False
      then show thesis using B_waiting assms(1) b by (intro that [of st]) (auto simp: seedBatch_step_def can_step_def)
    qed
  next
    case (B_running ids)
    show thesis
    proof (cases "length ids < thisBatchSize n b")
      case True
      obtain all t where a: "generate_ids clk n 0 sf = Some (all, t)" "length all = n"
        using assms(2) by (auto simp: seed_ready_def)
      from seed_inv_draw [OF assms(1) b B_running True a] obtain i s' k' where
        "Generate clk (sd_clock st) (sd_gen st) = Some (Inr i, s', k')"
        "seed_inv clk n w sf (st\<lparr>sd_gen := s', sd_clock := k', sd_batches := (sd_batches st)[b := B_running (ids @ [i])]\<rparr>)"
        by blast
      then show thesis using B_running b True
        by (intro that) (auto simp: seedBatch_step_def intro!: seed_work_update)
    next
      case False
      from seed_inv_insert [OF assms b B_running False] obtain w' where
        "exec (on_tables (insert_seed_rows env (seed_values tpl b ids))) (sd_db st) = (None, w')"
        "seed_inv clk n w sf (st\<lparr>sd_db := w', sd_batches := (sd_batches st)[b := B_done ids None]\<rparr>)"
        by blast
      then show thesis using B_running b False
        by (intro that) (auto simp: seedBatch_step_def intro!: seed_work_update)
    qed
  next
    case (B_done ids r)
    then show thesis using assms(1) b by (intro that [of st]) (auto simp: seedBatch_step_def can_step_def)
  qed
qed

lemma seedBatches_inv:
  assumes "seed_inv clk n w sf st" and "seed_ready env clk tpl n w sf"
  shows "\<exists>st'. seedBatches env clk tpl n mw sched st = Some st' \<and> seed_inv clk n w sf st'"
  using assms(1)
proof (induction sched arbitrary: st)
  case (Cons b sched)
  from seedBatch_step_inv [OF Cons.prems assms(2)] obtain st1
    where "seedBatch_step env clk tpl n mw b st = Some st1" "seed_inv clk n w sf st1" by blast
  then show ?case using Cons.IH by simp
qed simp

text \<open>The semaphore never blocks for good: unless all batches are done, one of them can move.\<close>

lemma some_can_step:
  assumes "\<not> list_all is_done bs" and "0 < mw"
  shows "\<exists>b. can_step mw bs b"
proof (cases "\<exists>x \<in> set bs. is_running x")
  case True
  then show ?thesis by (auto simp: can_step_def in_set_conv_nth)
next
  case False
  then have r: "filter is_running bs = []" by (simp add: filter_empty_conv)
  obtain x where x: "x \<in> set bs" "\<not> is_done x" using assms(1) by (auto simp: list_all_iff)
  then have "\<not> is_running x" using False by blast
  then have "x = B_waiting" using x(2) by (cases x) simp_all
  then have "B_waiting \<in> set bs" using x(1) by simp
  then obtain ys zs where "bs = ys @ B_waiting # zs" "B_waiting \<notin> set ys" by (meson split_list_first)
  then show ?thesis using r assms(2) by (intro exI [of _ "length ys"]) (simp add: can_step_def)
qed

lemma seedBatches_append:
  "seedBatches env clk tpl n mw (xs @ ys) st = Option.bind (seedBatches env clk tpl n mw xs st) (seedBatches env clk tpl n mw ys)"
  by (induction xs arbitrary: st) (auto split: Option.bind_splits)

lemma seedBatches_finish:
  assumes "seed_inv clk n w sf st" and "seed_ready env clk tpl n w sf" and "0 < mw"
  shows "\<exists>sched st'. seedBatches env clk tpl n mw sched st = Some st' \<and> list_all is_done (sd_batches st')"
  using assms(1)
proof (induction "seed_work n (sd_batches st)" arbitrary: st rule: less_induct)
  case less
  show ?case
  proof (cases "list_all is_done (sd_batches st)")
    case True
    then show ?thesis by (intro exI [of _ "[]"]) simp
  next
    case False
    then obtain b where "can_step mw (sd_batches st) b" using some_can_step assms(3) by blast
    then obtain st1 where 1: "seedBatch_step env clk tpl n mw b st = Some st1" "seed_inv clk n w sf st1"
        "seed_work n (sd_batches st1) < seed_work n (sd_batches st)"
      using seedBatch_step_inv [OF less.prems assms(2), of mw b] by blast
    from less.hyps [OF 1(3,2)] obtain sched st'
      where "seedBatches env clk tpl n mw sched st1 = Some st'" "list_all is_done (sd_batches st')" by blast
    then show ?thesis using 1(1) by (intro exI [of _ "b # sched"]) auto
  qed
qed

section \<open>The whole program\<close>

lemma recreateIndexes_ok:
  assumes "faults (tables w) = []"
  shows "\<exists>w'. recreateIndexes w = Inr w' \<and> tables w' = tables w \<and> user_seq w' = user_seq w \<and>
           set (indexes w') = set (indexes w) \<union> set seed_indexes"
  using assms by (simp add: recreateIndexes_def seed_indexes_def) blast

text \<open>A generator that can issue the identifiers on its own, one after another.\<close>

definition issues :: "clock \<Rightarrow> nat \<Rightarrow> int64 list \<Rightarrow> bool" where
  "issues clk n is \<longleftrightarrow>
     length is = n \<and> (case New_sf 1 of Inl _ \<Rightarrow> False
       | Inr sf \<Rightarrow> map_option fst (generate_ids clk n 0 sf) = Some is)"

lemma New_sf_1: "New_sf 1 = Inr demo_sf"
  by (simp add: New_sf_def demo_New)

text \<open>The tables before the events are inserted.\<close>

definition seeded_db :: "(string \<times> nat \<times> string) list \<Rightarrow> seed_db \<Rightarrow> seed_db" where
  "seeded_db order w =
     w\<lparr>tables := (tables w)\<lparr>users := seeded_users, event_types := seeded_types order, events := [], type_seq := 101\<rparr>,
       user_seq := int numUsers + 1\<rparr>"

lemma seed_prelims:
  assumes "faults (tables w) = []" and "mset order = mset eventTypes"
  shows "bind_seed (bind_seed (cleanDatabase (prepareDB w)) seedUsers) (seedEventTypes order) =
           Inr (seeded_db order (prepareDB w))"
  using assms by (simp add: cleanDatabase_ok prepareDB_ok seedUsers_ok seedEventTypes_ok seeded_db_def)

lemma seed_ready_seeded:
  assumes "faults (tables w) = []" and "mset order = mset eventTypes"
    and "mset typeNames = mset (map fst eventTypes)" and "pages_ok env"
    and "clock_after DefaultEpoch clk" and "issues clk n is"
  shows "seed_ready env clk (newSeedPool typeNames now1 now2 loc) n (seeded_db order (prepareDB w)) demo_sf"
  using assms newSeedPool_ok [OF assms(3,4)] seeded_users_law(3) seeded_types_law(3) [OF assms(2)] demo_inv(1)
  by (auto simp: seed_ready_def seeded_db_def prepareDB_ok issues_def New_sf_1)

text \<open>What the tables hold when all batches are done.\<close>

lemma seed_inv_done:
  assumes "seed_inv clk n w demo_sf st" and "list_all is_done (sd_batches st)" and "issues clk n is"
  shows "mset (map row_event_id (events (tables (sd_db st)))) = mset is"
    and "sd_db st = w\<lparr>tables := (tables w)\<lparr>events := events (tables (sd_db st))\<rparr>\<rparr>"
    and "\<forall>r \<in> set (events (tables (sd_db st))). row_type_id r \<in> fst ` set (event_types (tables w)) \<and>
           row_user_id r \<in> set (users (tables w))"
proof -
  obtain js where g: "generate_ids clk (length js) 0 demo_sf = Some (js, sd_gen st, sd_clock st)"
      and m: "mset js = mset (concat (map batch_ids (sd_batches st)))"
      and bs: "length (sd_batches st) = numBatches n"
        "\<forall>b < length (sd_batches st). batch_ok (thisBatchSize n b) (sd_batches st ! b)"
      and es: "mset (map row_event_id (events (tables (sd_db st)))) = mset (concat (map inserted_ids (sd_batches st)))"
    using assms(1) unfolding seed_inv_def Let_def by blast
  have "length js = n" using batch_ids_bound(3) [OF bs assms(2)] m by (metis size_mset)
  then have "js = is" using g assms(3) by (simp add: issues_def New_sf_1)
  then show "mset (map row_event_id (events (tables (sd_db st)))) = mset is"
    using es m inserted_done [OF bs(2) assms(2)] by simp
qed (use assms(1) in \<open>auto simp: seed_inv_def Let_def\<close>)

text \<open>
  What \<open>invalidateCaches\<close> does to the Redis server, in the state \<open>r\<close> when the tool connects. If the
  server does not answer the ping, the cache object has no client, so that not one command is sent and
  no error is counted, and the server keeps everything. If it answers, commands are sent; no entry
  is added, and if none of them failed, no event list and no statistics are left.
\<close>

definition server_cleared :: "('r, 'it) redis \<Rightarrow> ('r \<Rightarrow> string \<rightharpoonup> string) \<Rightarrow> 'r \<Rightarrow> 'r Cache \<Rightarrow> bool" where
  "server_cleared rd con r c \<longleftrightarrow>
     (if Ping rd r \<noteq> None then client c = None \<and> cache_errors c = 0
      else \<exists>r'. client c = Some r' \<and> con r' \<subseteq>\<^sub>m con r \<and>
        (cache_errors c = 0 \<longrightarrow> (\<forall>k. prefix ''events:'' k \<or> prefix ''stats:'' k \<longrightarrow> con r' k = None)))"

definition tool_server :: "(string \<Rightarrow> int \<Rightarrow> 'r) \<Rightarrow> (string \<Rightarrow> string) \<Rightarrow> 'r" where
  "tool_server dial getenv = dial (if getenv ''REDIS_URL'' = [] then ''dragonfly:6379'' else getenv ''REDIS_URL'') 10"

lemma DeleteByPattern_client: "DeleteByPattern rd p c = Some c' \<Longrightarrow> client c' = None \<longleftrightarrow> client c = None"
  by (auto simp: DeleteByPattern_def Let_def split: option.splits prod.splits)

lemma NewFromURL_client:
  "Ping rd (dial u n) = None \<Longrightarrow> client (NewFromURL rd dial u n) = Some (dial u n)"
  "Ping rd (dial u n) = Some e \<Longrightarrow> client (NewFromURL rd dial u n) = None"
  "cache_errors (NewFromURL rd dial u n) = 0"
  by (simp_all add: NewFromURL_def NewCache_def Let_def split: option.splits)

lemma invalidate_none:
  "client c = None \<Longrightarrow> Option.bind (InvalidateEvents rd c) (InvalidateStats rd) = Some c"
  by (simp add: InvalidateEvents_def InvalidateStats_def DeleteByPattern_def)

lemma invalidate_both:
  assumes "redis_ok rd con glob" and "client c = Some r" and "cache_errors c = 0"
  shows "\<exists>c' r'. Option.bind (InvalidateEvents rd c) (InvalidateStats rd) = Some c' \<and> client c' = Some r' \<and>
           con r' \<subseteq>\<^sub>m con r \<and>
           (cache_errors c' = 0 \<longrightarrow> (\<forall>k. prefix ''events:'' k \<or> prefix ''stats:'' k \<longrightarrow> con r' k = None))"
proof -
  obtain c1 where 1: "InvalidateEvents rd c = Some c1" "entries con c1 \<subseteq>\<^sub>m entries con c" "cache_errors c \<le> cache_errors c1"
      "cache_errors c1 = cache_errors c \<longrightarrow> (\<forall>k. prefix ''events:'' k \<longrightarrow> entries con c1 k = None)"
    using Invalidate_law(1) [OF assms(1)] by blast
  obtain c2 where 2: "InvalidateStats rd c1 = Some c2" "entries con c2 \<subseteq>\<^sub>m entries con c1" "cache_errors c1 \<le> cache_errors c2"
      "cache_errors c2 = cache_errors c1 \<longrightarrow> (\<forall>k. prefix ''stats:'' k \<longrightarrow> entries con c2 k = None)"
    using Invalidate_law(2) [OF assms(1)] by blast
  have "client c2 \<noteq> None"
    using DeleteByPattern_client 1(1) 2(1) assms(2) unfolding InvalidateEvents_def InvalidateStats_def
    by (metis option.distinct(1))
  then obtain r' where r': "client c2 = Some r'" by blast
  have "entries con c2 k = None" if "cache_errors c2 = 0" "prefix ''events:'' k \<or> prefix ''stats:'' k" for k
  proof -
    have "cache_errors c1 = cache_errors c" "cache_errors c2 = cache_errors c1" using that(1) assms(3) 1(3) 2(3) by simp_all
    then have e: "prefix ''events:'' k \<Longrightarrow> entries con c1 k = None" "prefix ''stats:'' k \<Longrightarrow> entries con c2 k = None"
      using 1(4) 2(4) by blast+
    have gone: "entries con c1 k = None \<Longrightarrow> entries con c2 k = None"
      using 2(2) by (metis domIff map_le_implies_dom_le subsetD)
    from that(2) show ?thesis by (rule disjE) (erule gone [OF e(1)], erule e(2))
  qed
  moreover have "entries con c2 \<subseteq>\<^sub>m entries con c" using 2(2) 1(2) by (rule map_le_trans)
  ultimately show ?thesis
    using 1(1) 2(1) r' assms(2) by (intro exI [of _ c2] exI [of _ r']) (simp add: entries_def)
qed

lemma tool_invalidateCaches_ok:
  assumes "redis_ok rd con glob"
  shows "\<exists>c. tool_invalidateCaches rd dial getenv = Some c \<and> server_cleared rd con (tool_server dial getenv) c"
proof -
  let ?r = "tool_server dial getenv"
  let ?c = "NewFromURL rd dial (if getenv ''REDIS_URL'' = [] then ''dragonfly:6379'' else getenv ''REDIS_URL'') 10"
  have t: "tool_invalidateCaches rd dial getenv = Option.bind (InvalidateEvents rd ?c) (InvalidateStats rd)"
    by (simp only: tool_invalidateCaches_def Let_def)
  show ?thesis
  proof (cases "Ping rd ?r")
    case None
    have "client ?c = Some ?r" "cache_errors ?c = 0"
      using NewFromURL_client None unfolding tool_server_def by blast+
    from invalidate_both [OF assms this] show ?thesis
      unfolding t using None by (auto simp: server_cleared_def)
  next
    case (Some e)
    have "client ?c = None" "cache_errors ?c = 0"
      using NewFromURL_client Some unfolding tool_server_def by blast+
    then show ?thesis unfolding t using invalidate_none [of ?c rd] Some by (simp add: server_cleared_def)
  qed
qed

lemma issues_distinct:
  assumes "issues clk n is" and "clock_after DefaultEpoch clk"
  shows "distinct is" and "length is = n"
proof -
  obtain t where "generate_ids clk n 0 demo_sf = Some (is, t)"
    using assms(1) by (auto simp: issues_def New_sf_1)
  then show "distinct is"
    using sf.issue_distinct [where ep = DefaultEpoch and s = "(demo_sf, 0)" and clk = clk] demo_inv(1) assms(2)
    by (cases t) (auto simp: generate_ids_issue)
qed (use assms(1) in \<open>simp add: issues_def\<close>)

text \<open>The tables that seeding is to leave.\<close>

definition expected_body ::
  "pg_env \<Rightarrow> string list \<Rightarrow> int \<Rightarrow> int \<Rightarrow> (int \<Rightarrow> int) \<Rightarrow> nat \<Rightarrow> int64 \<times> int64 \<times> int \<times> string option" where
  "expected_body env typeNames now1 now2 loc g =
     (let i = g mod 1000;
          startTs = (now1 - 30 * 24 * 3600 * second) div second;
          ts = startTs + int i * go_div (now2 div second - startTs) 1000;
          (typeID, page) = the (map_of eventTypes (typeNames ! (i mod 100)))
      in (of_nat (i + 1), of_nat typeID, pg_timestamp env \<lparr>wall = (ts + loc ts) * second, zone = 0\<rparr>,
          jsonb_in env (obj_text [(''page'', quote page)])))"

definition fully_seeded ::
  "(string \<times> nat \<times> string) list \<Rightarrow> (nat \<Rightarrow> int64 \<times> int64 \<times> int \<times> string option) \<Rightarrow> int64 list \<Rightarrow> seed_db \<Rightarrow> bool" where
  "fully_seeded order body is w \<longleftrightarrow>
     pg_ok (tables w) \<and> users (tables w) = map of_nat [1..<1001] \<and>
     event_types (tables w) = map (\<lambda>(n, i, p). (of_nat i, n)) order \<and>
     mset (map row_event_id (events (tables w))) = mset is \<and>
     mset (map row_body (events (tables w))) = mset (map body [0..<length is]) \<and>
     user_seq w = 1001 \<and> type_seq (tables w) = 101 \<and>
     set [''idx_events_timestamp_desc'', ''idx_events_type_timestamp'', ''idx_events_stats'', ''idx_events_covering''] \<subseteq> set (indexes w)"

lemma seed_body_expected:
  assumes "length typeNames = 100"
  shows "seed_body env (newSeedPool typeNames now1 now2 loc) = expected_body env typeNames now1 now2 loc"
proof
  fix g
  have i: "g mod poolSize < poolSize" by (simp add: poolSize_def)
  show "seed_body env (newSeedPool typeNames now1 now2 loc) g = expected_body env typeNames now1 now2 loc g"
    unfolding seed_body_def newSeedPool_def expected_body_def Let_def using i assms
    by (simp add: seed_sizes split: prod.splits)
qed

lemma fully_seededI:
  assumes "mset order = mset eventTypes" and "distinct is" and "seed_inv clk n (seeded_db order w0) demo_sf st"
    and "seed_bodies env tpl st"
    and "list_all is_done (sd_batches st)" and "issues clk n is"
    and "tables w = tables (sd_db st)" and "user_seq w = user_seq (sd_db st)" and "set seed_indexes \<subseteq> set (indexes w)"
  shows "fully_seeded order (seed_body env tpl) is w"
proof -
  note d = seed_inv_done [OF assms(3,5,6)] and l = seeded_types_law [OF assms(1)]
  have t: "users (tables (sd_db st)) = seeded_users" "event_types (tables (sd_db st)) = seeded_types order"
      "type_seq (tables (sd_db st)) = 101" "user_seq (sd_db st) = 1001"
    by (subst d(2), simp add: seeded_db_def numUsers_def)+
  have "sint t < 101" if "(t, n) \<in> set (seeded_types order)" for t n
  proof -
    have "t \<in> of_nat ` {1..100}" using that l(3) by (metis fst_conv image_eqI)
    then show ?thesis by (auto simp: of_nat_sint)
  qed
  moreover have "distinct (map row_event_id (events (tables w)))"
    using d(1) assms(2,7) by (metis mset_eq_imp_distinct_iff)
  ultimately have "pg_ok (tables w)"
    using d(3) assms(7) t l(1,2) by (auto simp: pg_ok_def seeded_db_def)
  moreover have "all_slots (sd_batches st) = [0..<length is]"
    using all_slots_done [of "sd_batches st" n] assms(3,5,6) by (simp add: seed_inv_def Let_def issues_def)
  then have "mset (map row_body (events (tables w))) = mset (map (seed_body env tpl) [0..<length is])"
    using assms(4,7) by (simp add: seed_bodies_def)
  ultimately show ?thesis
    using d(1) t assms(7,8,9)
    by (simp add: fully_seeded_def seeded_users_def seeded_types_def seed_indexes_def numUsers_def)
qed

lemma seedEvents_ok:
  fixes now1 now2 :: int and loc :: "int \<Rightarrow> int"
  assumes "faults (tables w) = []" and "mset order = mset eventTypes"
    and "mset typeNames = mset (map fst eventTypes)" and "pages_ok env"
    and "clock_after DefaultEpoch clk" and "issues clk n is"
  defines "w1 \<equiv> seeded_db order (prepareDB w)" and "tpl \<equiv> newSeedPool typeNames now1 now2 loc"
  shows "seedEvents env clk tpl n mw sched w1 = None \<or>
           (\<exists>st. seedEvents env clk tpl n mw sched w1 = Some (Inr st) \<and> seed_inv clk n w1 demo_sf st \<and>
                 seed_bodies env tpl st \<and> list_all is_done (sd_batches st))"
    and "0 < mw \<Longrightarrow> \<exists>more st. seedEvents env clk tpl n mw (sched @ more) w1 = Some (Inr st)"
proof -
  have r: "seed_ready env clk tpl n w1 demo_sf"
    unfolding w1_def tpl_def by (rule seed_ready_seeded [OF assms(1-6)])
  have "events (tables w1) = []" by (simp add: w1_def seeded_db_def)
  then have i: "seed_inv clk n w1 demo_sf (seed_start n w1 demo_sf)" by (rule seed_start_inv)
  obtain st where st: "seedBatches env clk tpl n mw sched (seed_start n w1 demo_sf) = Some st" "seed_inv clk n w1 demo_sf st"
    using seedBatches_inv [OF i r] by blast
  have "faults (tables w1) = []" using r by (simp add: seed_ready_def)
  then have "seed_bodies env tpl st"
    using seedBatches_bodies [OF seed_start_bodies st(1)] \<open>events (tables w1) = []\<close> by blast
  then show "seedEvents env clk tpl n mw sched w1 = None \<or>
      (\<exists>st. seedEvents env clk tpl n mw sched w1 = Some (Inr st) \<and> seed_inv clk n w1 demo_sf st \<and>
            seed_bodies env tpl st \<and> list_all is_done (sd_batches st))"
    using st by (simp add: seedEvents_def New_sf_1)
  show "\<exists>more st. seedEvents env clk tpl n mw (sched @ more) w1 = Some (Inr st)" if pos: "0 < mw"
  proof -
    obtain more st' where "seedBatches env clk tpl n mw more st = Some st'" "list_all is_done (sd_batches st')"
      using seedBatches_finish [OF st(2) r pos] by blast
    then show ?thesis
      using st(1) by (intro exI [of _ more] exI [of _ st']) (simp add: seedEvents_def New_sf_1 seedBatches_append)
  qed
qed

text \<open>The rest of \<open>main\<close> after the events.\<close>

lemma seed_main_eq:
  assumes "Load (sw_getenv sw) = Inr cfg" and "sw_dial sw (DatabaseURL cfg) = Inr d" and "faults d = []"
    and "mset order = mset eventTypes"
  defines "w \<equiv> prepareDB \<lparr>tables = d, user_seq = sw_user_seq sw, indexes = sw_indexes sw\<rparr>"
  shows "seed_main rd env order typeNames sched prodFlag sw =
     (case seedEvents env (sw_clock sw) (newSeedPool typeNames (sw_now1 sw) (sw_now2 sw) (sw_local sw))
             (if prodFlag then 10000000 else 100000) (sw_cpus sw) sched (seeded_db order w) of
        None \<Rightarrow> Sd_running
      | Some (Inl msg) \<Rightarrow> Sd_fatal msg
      | Some (Inr st) \<Rightarrow>
      case recreateIndexes (sd_db st) of
        Inl e \<Rightarrow> Sd_panic e
      | Inr w2 \<Rightarrow>
      case tool_invalidateCaches rd (sw_dial_redis sw) (sw_getenv sw) of
        None \<Rightarrow> Sd_running
      | Some c \<Rightarrow> Sd_done w2 c (sd_batches st))"
  using assms(1-4) by (simp add: seed_main_def Connect_def ConnectWithPool_def seed_prelims w_def Let_def)

lemma seed_finish:
  assumes "seed_inv clk n (seeded_db order (prepareDB w)) demo_sf st" and "seed_bodies env tpl st"
    and "list_all is_done (sd_batches st)" and "issues clk n is" and "clock_after DefaultEpoch clk" and "mset order = mset eventTypes" and "faults (tables w) = []"
  obtains w2 where "recreateIndexes (sd_db st) = Inr w2" and "fully_seeded order (seed_body env tpl) is w2"
proof -
  have "faults (tables (sd_db st)) = []"
    by (subst seed_inv_done(2) [OF assms(1,3,4)]) (simp add: seeded_db_def prepareDB_ok assms(7))
  then obtain w2 where "recreateIndexes (sd_db st) = Inr w2" "tables w2 = tables (sd_db st)" "user_seq w2 = user_seq (sd_db st)"
      "set seed_indexes \<subseteq> set (indexes w2)"
    using recreateIndexes_ok by blast
  then show thesis
    using fully_seededI [OF assms(6) issues_distinct(1) [OF assms(4,5)] assms(1,2,3,4)] that by blast
qed

section \<open>A world for the witness\<close>

text \<open>A clock that ticks at every reading, for the first \<open>2 ^ 30\<close> readings.\<close>

definition tick_clock :: clock where
  "tick_clock k = DefaultEpoch + 1 + of_nat (min k (2 ^ 30))"

lemma tick_sint: "sint (tick_clock k) = sint DefaultEpoch + 1 + int (min k (2 ^ 30))"
proof -
  have "tick_clock k = of_nat (1704067200001 + min k (2 ^ 30))"
    by (simp add: tick_clock_def DefaultEpoch_def)
  moreover have "1704067200001 + min k (2 ^ 30) < 2 ^ 63" by (simp add: min_def)
  ultimately have "sint (tick_clock k) = int (1704067200001 + min k (2 ^ 30))"
    by (simp only: of_nat_sint)
  then show ?thesis by (simp add: DefaultEpoch_def)
qed

lemma tick_after: "clock_after DefaultEpoch tick_clock"
  by (simp add: clock_after_def tick_sint)

lemma tick_Generate:
  assumes "sint (lastTime s) < sint (tick_clock k)" and "epoch s = DefaultEpoch"
  obtains i where "Generate tick_clock k s = Some (Inr i, s\<lparr>sequence := 0, lastTime := tick_clock k\<rparr>, Suc k)"
proof -
  have "tick_clock k - DefaultEpoch = of_nat (1 + min k (2 ^ 30))" by (simp add: tick_clock_def)
  moreover have "1 + min k (2 ^ 30) < 2 ^ 63" by (simp add: min_def)
  ultimately have "sint (tick_clock k - DefaultEpoch) = int (1 + min k (2 ^ 30))" by (simp only: of_nat_sint)
  then have "\<not> MaxTimestamp <s tick_clock k - DefaultEpoch" by (simp add: word_sless_alt max_eqs min_def)
  then show thesis
    using assms by (intro that) (auto simp: Generate_def emit_def Let_def word_sless_alt)
qed

lemma tick_ids:
  assumes "k + n \<le> 2 ^ 30" and "sint (lastTime s) < sint (tick_clock k)" and "epoch s = DefaultEpoch"
  shows "\<exists>is t. generate_ids tick_clock n k s = Some (is, t) \<and> length is = n"
  using assms
proof (induction n arbitrary: k s)
  case (Suc n)
  obtain i where g: "Generate tick_clock k s = Some (Inr i, s\<lparr>sequence := 0, lastTime := tick_clock k\<rparr>, Suc k)"
    using tick_Generate [OF Suc.prems(2,3)] by blast
  obtain js t where "generate_ids tick_clock n (Suc k) (s\<lparr>sequence := 0, lastTime := tick_clock k\<rparr>) = Some (js, t)" "length js = n"
    using Suc.IH [of "Suc k" "s\<lparr>sequence := 0, lastTime := tick_clock k\<rparr>"] Suc.prems(1,3) by (auto simp: tick_sint)
  then show ?case using g by (cases t) (intro exI [of _ "i # js"] exI [of _ t], simp)
qed simp

lemma tick_issues:
  assumes "n \<le> 2 ^ 30"
  obtains "is" where "issues tick_clock n is"
proof -
  have "sint (lastTime demo_sf) < sint (tick_clock 0)" "epoch demo_sf = DefaultEpoch"
    by (simp_all add: demo_sf_def tick_sint DefaultEpoch_def)
  then obtain js t where "generate_ids tick_clock n 0 demo_sf = Some (js, t)" "length js = n"
    using tick_ids [of 0 n demo_sf] assms by auto
  then show thesis by (intro that [of js]) (simp add: issues_def New_sf_1)
qed

definition demo_seed :: "(string \<times> string) list seed_world" where
  "demo_seed =
     \<lparr>sw_getenv = (\<lambda>v. if v = ''DATABASE_URL'' then ''postgres://db'' else []), sw_dial = (\<lambda>_. Inr two_users),
      sw_user_seq = 3, sw_indexes = [], sw_dial_redis = (\<lambda>_ _. []), sw_clock = tick_clock, sw_now1 = 0, sw_now2 = 0,
      sw_local = (\<lambda>_. 0), sw_cpus = 4\<rparr>"


section \<open>Properties\<close>



text \<open>
  C40. The truncating tool ends. Without a database URL it fails with the message that the URL is
  required, and when the database cannot be reached with the error of connecting; nothing is touched. When
  the statement fails it reports that error, and the tables are as they were, or empty if only the
  reply was lost. When it reports success the tables are empty, the constraints of the schema hold
  and the type identifiers start from 1 again; and if Redis answered the ping and no command failed, the
  server holds no event list and no statistics any more. If Redis did not answer, success is
  reported although no command was sent and the server keeps what it holds.
\<close>

theorem truncate_clears:
  assumes "redis_ok rd con glob"
  shows "case truncate_main rd dial_redis getenv dial of
      Tr_hangs \<Rightarrow> False
    | Tr_fatal msg None \<Rightarrow>
        getenv ''DATABASE_URL'' = [] \<and> msg = ''DATABASE_URL environment variable is required'' \<or>
        getenv ''DATABASE_URL'' \<noteq> [] \<and> (\<exists>e. dial (getenv ''DATABASE_URL'') = Inl e \<and> msg = error_text e)
    | Tr_fatal msg (Some d') \<Rightarrow> (\<exists>d e fs. dial (getenv ''DATABASE_URL'') = Inr d \<and> msg = error_text e \<and>
        (faults d = F_before e # fs \<and> d' = d\<lparr>faults := fs\<rparr> \<or>
         faults d = F_after e # fs \<and> users d' = [] \<and> event_types d' = [] \<and> events d' = []))
    | Tr_done d' c \<Rightarrow>
        (\<exists>d. dial (getenv ''DATABASE_URL'') = Inr d) \<and>
        users d' = [] \<and> event_types d' = [] \<and> events d' = [] \<and> type_seq d' = 1 \<and> pg_ok d' \<and>
        server_cleared rd con (tool_server dial_redis getenv) c"
proof -
  obtain c where "tool_invalidateCaches rd dial_redis getenv = Some c" "server_cleared rd con (tool_server dial_redis getenv) c"
    using tool_invalidateCaches_ok [OF assms] by blast
  then show ?thesis
    by (auto simp: truncate_main_def Connect_def ConnectWithPool_def statement_def truncate_all_def pg_ok_def
        split: sum.splits list.splits fault.splits)
qed

lemma mem_tool_errors:
  assumes "tool_invalidateCaches mem_redis dial getenv = Some c"
  shows "cache_errors c = 0"
proof -
  obtain v n where "Option.bind (InvalidateEvents mem_redis (NewFromURL mem_redis dial v n)) (InvalidateStats mem_redis) = Some c"
    using assms unfolding tool_invalidateCaches_def Let_def by blast
  then obtain c1 where "DeleteByPattern mem_redis (keyPrefixEvents @ '':*'') (NewFromURL mem_redis dial v n) = Some c1"
      "DeleteByPattern mem_redis (keyPrefixStats @ '':*'') c1 = Some c"
    by (auto simp: InvalidateEvents_def InvalidateStats_def Option.bind_eq_Some_conv)
  then have "cache_errors c = cache_errors (NewFromURL mem_redis dial v n)" using mem_DeleteByPattern_errors by metis
  also have "\<dots> = 0" by (simp add: NewFromURL_def NewCache_def Let_def split: option.splits)
  finally show ?thesis .
qed

theorem truncate_clears_witness:
  "\<exists>d' c r'. truncate_main mem_redis (\<lambda>_ _. [(''events:page:1'', ''old'')]) (\<lambda>v. if v = ''DATABASE_URL'' then ''db'' else [])
     (\<lambda>_. Inr two_users) = Tr_done d' c \<and> users d' = [] \<and> client c = Some r' \<and> map_of r' ''events:page:1'' = None"
proof -
  let ?dial = "\<lambda>_ _. [(''events:page:1'', ''old'')]" and ?env = "\<lambda>v. if v = ''DATABASE_URL'' then ''db'' else []"
  obtain c where c: "tool_invalidateCaches mem_redis ?dial ?env = Some c"
    using tool_invalidateCaches_ok [OF mem_redis_ok] by blast
  obtain d' where d: "truncate_main mem_redis ?dial ?env (\<lambda>_. Inr two_users) = Tr_done d' c"
    using c by (simp add: truncate_main_def Connect_def ConnectWithPool_def statement_def truncate_all_def two_users_def)
  have "users d' = []" "server_cleared mem_redis map_of (tool_server ?dial ?env) c"
    using truncate_clears [OF mem_redis_ok, where dial_redis = ?dial and getenv = ?env and dial = "\<lambda>_. Inr two_users"] d by simp_all
  moreover have "Ping mem_redis r = None" for r by (simp add: mem_redis_def)
  ultimately obtain r' where "client c = Some r'" "prefix ''events:'' ''events:page:1'' \<longrightarrow> map_of r' ''events:page:1'' = None"
    using mem_tool_errors [OF c] by (auto simp: server_cleared_def)
  moreover have "prefix ''events:'' ''events:page:1''" by simp
  ultimately show ?thesis using d \<open>users d' = []\<close> by blast
qed

text \<open>
  The identifiers of the types are cached under keys of their own, which neither tool deletes,
  although the identifiers start again from 1.
\<close>

theorem truncate_keeps_type_ids:
  "\<exists>d' c. truncate_main mem_redis (\<lambda>_ _. [(EventTypeIdKey ''view'', ''7'')]) (\<lambda>v. if v = ''DATABASE_URL'' then ''db'' else [])
     (\<lambda>_. Inr two_users) = Tr_done d' c \<and> event_types d' = [] \<and> entries map_of c (EventTypeIdKey ''view'') = Some ''7''"
  by (simp add: truncate_main_def tool_invalidateCaches_def Connect_def ConnectWithPool_def statement_def truncate_all_def
      two_users_def NewFromURL_def NewCache_def InvalidateEvents_def InvalidateStats_def DeleteByPattern_def Let_def
      del_loop.simps mem_redis_def mem_glob_def EventTypeIdKey_def keyPrefixEvents_def keyPrefixStats_def
      keyPrefixEventTypeId_def entries_def)


lemma unit_loop_law:
  assumes "n < 1024 ^ Suc k"
  shows "\<exists>j \<le> k. unit_loop n d e = (d * 1024 ^ j, e + j) \<and> (j = 0 \<or> 1024 ^ j \<le> n) \<and> n < 1024 ^ Suc j"
  using assms
proof (induction k arbitrary: n d e)
  case 0
  then show ?case by (simp add: unit_loop.simps)
next
  case (Suc k)
  show ?case
  proof (cases "n < 1024")
    case True
    then show ?thesis by (intro exI [of _ 0]) (simp add: unit_loop.simps)
  next
    case False
    have "n div 1024 < 1024 ^ Suc k" using Suc.prems by (simp add: less_mult_imp_div_less)
    then obtain j where j: "j \<le> k" "unit_loop (n div 1024) (d * 1024) (e + 1) = (d * 1024 * 1024 ^ j, e + 1 + j)"
        "j = 0 \<or> 1024 ^ j \<le> n div 1024" "n div 1024 < 1024 ^ Suc j"
      using Suc.IH by blast
    have "n < 1024 ^ Suc (Suc j)" using j(4) by (simp add: div_less_iff_less_mult mult.commute)
    moreover have "1024 ^ Suc j \<le> n" using j(3) False by (auto simp: less_eq_div_iff_mult_less_eq mult.commute)
    ultimately show ?thesis using j(1,2) False by (intro exI [of _ "Suc j"]) (simp add: unit_loop.simps [of n])
  qed
qed

text \<open>
  The units of \<open>formatBytes\<close>: the index never leaves the table of letters, so there is no
  panic, the divisor is a power of 1024 that has not wrapped, and it is the right one: the size is
  at least one unit and less than 1024 units.
\<close>

theorem formatBytes_scale:
  "case formatBytes_unit b of
     None \<Rightarrow> False
   | Some (d, u) \<Rightarrow>
       unat b < 1024 \<and> d = 1 \<and> u = CHR ''B'' \<or>
       (\<exists>j < 6. unat d = 1024 ^ Suc j \<and> u = ''KMGTPE'' ! j \<and> unat d \<le> unat b \<and> unat b < 1024 * unat d)"
proof (cases "b < 1024")
  case True
  then show ?thesis by (simp add: formatBytes_unit_def word_less_nat_alt)
next
  case False
  then have b: "1024 \<le> unat b" by (simp add: word_less_nat_alt)
  have "unat b < 2 ^ 64" using unsigned_less [of b] by simp
  then have "unat b div 1024 < 1024 ^ Suc 5" by (intro less_mult_imp_div_less) simp
  from unit_loop_law [OF this, of 1024 0] obtain j where j: "j \<le> 5" "unit_loop (unat b div 1024) 1024 0 = (1024 ^ Suc j, j)"
      "j = 0 \<or> 1024 ^ j \<le> unat b div 1024" "unat b div 1024 < 1024 ^ Suc j"
    by auto
  have "(1024 :: nat) ^ Suc j \<le> 1024 ^ 6" using j(1) by (intro power_increasing) simp_all
  then have "(1024 :: nat) ^ Suc j < 2 ^ 64" by (rule le_less_trans) simp
  then have "unat (of_nat (1024 ^ Suc j) :: 64 word) = 1024 ^ Suc j"
    unfolding unat_of_nat by (intro mod_less) simp
  then have d: "unat (1024 ^ Suc j :: 64 word) = 1024 ^ Suc j" by simp
  have "1024 ^ Suc j \<le> unat b" using j(3) b by (auto simp: less_eq_div_iff_mult_less_eq mult.commute)
  moreover have "unat b < 1024 * 1024 ^ Suc j" using j(4) by (simp add: div_less_iff_less_mult mult.commute)
  ultimately show ?thesis
    using False j(1,2) d by (auto simp: formatBytes_unit_def intro!: exI [of _ j])
qed

end
