(* ===== verification/Spec2Isabelle.thy ===== *)
theory Spec2Isabelle
  imports Snowflake Retry Persistence EventQueue Stores Repositories Config Router Api Service Tools
begin

text \<open>
  go-collider is an event-tracking service in Go: an HTTP server accepts events, queues them in
  memory with a persistent log behind the queue, writes them in batches to PostgreSQL, and serves
  pages of events and statistics through a Redis cache. This library models the service from the
  identifier generator up to the running process and proves what each part promises and what the
  parts promise together.

  \<^bold>\<open>How the parts interact.\<close> \<open>main\<close> (\<open>src/cmd/api\<close>) loads the configuration, connects to
  the database and the cache, builds the store, the repositories and the queue, and starts the
  server. A request goes through the logging middleware and the router to a handler. A read goes to
  a repository, which asks the cache first and the store otherwise. A new event gets an identifier
  from the generator and is handed to the queue; when the queue is full the handler writes it to
  the store itself. The flush goroutine of the queue collects events into batches and gives them
  to the store through the retry package, which keeps what cannot be stored as dead letters; the
  queue also writes every event to the persistent log and removes it after the flush.

  \<^bold>\<open>The theories, in the order of their imports.\<close>

  \<^item> \<open>Go_Prelude\<close>: errors and their texts, 64-bit integers, decimal numerals, and the lemmas
    that the components share. \<open>Go_Float\<close>: the rounding of \<open>float64\<close> that the backoff uses.
    \<open>Go_Json\<close>: UTF-8, JSON documents, their printer and parser, Base64, and that a printed
    document parses back. \<open>Go_Time\<close>: the calendar and the RFC 3339 texts of \<open>time\<close>.
  \<^item> \<open>Snowflake\<close> (\<open>src/internal/snowflake\<close>): the generator as a function of a clock, which is a
    sequence of readings. \<open>Generate\<close> returns \<open>None\<close> when its wait loop does not end within the
    fuel, which is the rest of the clock; \<open>Generate_returns\<close> shows that it ends as soon as the
    clock advances. The interface is the locale \<open>increasing_source\<close>.
  \<^item> \<open>Retry\<close> (\<open>src/internal/retry\<close>): the retry loop with its delays, the dead letter queue
    (locale \<open>bounded_log\<close>), and \<open>BatchRetry\<close> with its goroutines cut into atomic steps under a
    schedule (locale \<open>accepting_store\<close> for what it relies on).
  \<^item> \<open>Persistence\<close> (\<open>src/internal/queue/persistence.go\<close>, \<open>errors.go\<close>): the log over bbolt, which
    is a record of its transactions with its documented behaviour as \<open>bolt_ok\<close>; the writer
    goroutine, the readers of the answers and \<open>Close\<close> are steps that interleave. The contract is
    the locale \<open>durable_log\<close>.
  \<^item> \<open>Models\<close> (\<open>src/internal/models\<close>): the data types. \<open>EventQueue\<close>
    (\<open>src/internal/queue/event_queue.go\<close>): the queue; calls of \<open>Enqueue\<close>, the flush goroutine and
    \<open>Shutdown\<close> are cut where another goroutine can come in between. The store is a parameter with
    the contract \<open>event_sink\<close>.
  \<^item> \<open>Database\<close> (\<open>src/sql/init.sql\<close>, \<open>src/internal/stores/database.go\<close>): the tables, their
    constraints and the statements that the sources contain; every statement may fail before or
    after it has run. \<open>Stores\<close> (\<open>src/internal/stores\<close>): both stores; the interpretation \<open>pg\<close> shows
    that the event store keeps the contract \<open>event_sink\<close> of the queue.
  \<^item> \<open>Codec\<close>: the JSON texts of the models, written and read, with round trips. \<open>Cache\<close>
    (\<open>src/internal/cache\<close>): the keys and the operations over a Redis client, which is a record of
    commands with their documented behaviour as \<open>redis_ok\<close>. \<open>Repositories\<close>
    (\<open>src/internal/repositories\<close>): both repositories and the invariant \<open>coherent\<close>: every entry of
    the cache is what the database would answer.
  \<^item> \<open>Pagination\<close> (\<open>src/pkg/pagination\<close>), \<open>Config\<close> (\<open>src/internal/config\<close>), \<open>Handlers\<close>
    (\<open>src/internal/handlers\<close>), \<open>Router\<close> (\<open>src/internal/router\<close>, \<open>src/internal/middleware\<close>):
    requests as records, responses as status and body; the part of \<open>http.ServeMux\<close> in use.
  \<^item> \<open>Api\<close> (\<open>src/cmd/api\<close>): the start of the process in a given world. \<open>Service\<close>: the step
    relation of the running service, its invariant, and the stop of the process. \<open>Tools\<close> (\<open>src/cmd/truncate\<close>, \<open>src/cmd/seed\<close>):
    the two maintenance programs; the goroutines of the seeding are steps under a schedule.
  \<^item> This theory: the properties that span the queue, the store and the whole service.

  \<^bold>\<open>What is shown.\<close> Identifiers increase, are unique across nodes and can be taken apart again.
  Retries call the operation as often as configured with the configured delays; the dead letter
  queue keeps the most recent entries; a batch retry ends. No interleaving of the persistent log or
  of the queue panics; every enqueued event gets one answer; recovery after a crash yields exactly
  the events written and not removed; the queue is first in first out, within its bounds, and is
  drained by a shutdown. A batch insert is all or nothing, the schema is invariant, pages and
  statistics are what their queries mean. Cache keys do not collide, invalidation ends and is
  complete, a synchronous write leaves a coherent cache. JSON bodies and cached values survive the
  round trip. The endpoints answer with the current contents of the database, a 202 means that the
  event is queued or stored, and the router is the documented dispatch. A flush leaves every event
  stored or in the dead letter queue, the invariants hold in every reachable state of the service,
  and a graceful stop from any of them loses no pending event. The truncating tool leaves empty tables and no stale pages; the seeding tool fills the
  tables completely under every schedule of its workers.

  \<^bold>\<open>Conventions.\<close> A Go \<open>int64\<close> is a 64-bit word where it can wrap, and an integer where it
  counts. Errors are values of \<open>go_error\<close>; a function with an error result returns a sum; \<open>None\<close>
  stands for a panic or for a loop that has not ended. Fuel occurs in the wait loop of the
  generator (the readings of the clock that are left), in the JSON parser (one more than the length
  of the text, which is enough because every step consumes a character) and in the schedules of
  goroutines (theorems state that enough turns lead to the end).

  \<^bold>\<open>Not modelled.\<close> Log lines and the periodic report of statistics; TLS, timeouts and
  connection handling of \<open>net/http\<close>; the limit that \<open>net/url\<close> sets on the number of query
  parameters; cancellation of a request in the middle of a handler; expiry of cache entries other
  than that a key may vanish at any command; the text of the insert statements and the output on the
  terminal of the seeding tool; the tests and benchmarks.
\<close>

section \<open>From acceptance to storage\<close>



text \<open>
  No step outside a request touches the cache: what a page in the cache shows is not renewed when
  the events that were accepted before it was cached reach the database.
\<close>

theorem flush_keeps_cache:
  "queue_turn env a h = Some h' \<Longrightarrow> repo_cache (repo h') = repo_cache (repo h)"
  by (auto simp: queue_turn_def split: option.splits)


section \<open>The running service\<close>

text \<open>
  C7. The service as a whole: from a start on a database that satisfies its schema, after any
  sequence of requests and of steps of the flush goroutine, the persistent log and the shutdown,
  the queue runs within its bounds and keeps its invariant, the database satisfies its schema, the
  type cache agrees with it, no row that was there at the start is gone, and no further step of
  the background goroutines panics.
\<close>

theorem service_invariant:
  assumes "api_main w = Listening srv" and "\<forall>u d. w_dial_pg w u = Inr d \<longrightarrow> pg_ok d"
    and "(service_step rd)\<^sup>*\<^sup>* (srv_handlers srv, k) (h, k')"
  shows "\<exists>eq. eventQueue h = Some eq \<and> q_inv eq \<and> calls_idle eq \<and> running eq \<and> int (length (eventCh eq)) \<le> MaxSize (config eq) \<and>
     pg_ok (db (repo_store (repo h))) \<and> keeps_store (repo_store (repo (srv_handlers srv))) (repo_store (repo h)) \<and>
     (\<forall>env a. background a \<longrightarrow> queue_turn env a h \<noteq> None)"
proof -
  let ?st0 = "repo_store (repo (srv_handlers srv))"
  have ok: "service_ok ?st0 h" using service_run_ok [OF assms(3)] service_start_ok [OF assms(1,2)] by simp
  then obtain eq where eq: "eventQueue h = Some eq" "q_inv eq" "calls_idle eq" "running eq" "keeps_store ?st0 (repo_store (repo h))"
    by (auto simp: service_ok_def)
  moreover have "int (length (eventCh eq)) \<le> MaxSize (config eq)" using eq(2) by (simp add: q_inv_def loop_inv_def)
  moreover have "pg_ok (db (repo_store (repo h)))" using eq(5) by (simp add: keeps_store_def store_ok_def)
  moreover have "\<forall>env a. background a \<longrightarrow> queue_turn env a h \<noteq> None" using queue_turn_ok [OF ok] by fastforce
  ultimately show ?thesis by blast
qed

theorem service_invariant_witness:
  "\<exists>srv h eq. api_main demo_world = Listening srv \<and> eventQueue h = Some eq \<and> q_inv eq \<and>
     service_step mem_redis (srv_handlers srv, 0) (h, 0)"
proof -
  obtain srv where srv: "api_main demo_world = Listening srv" using demo_world_listens by blast
  have "pg_ok two_users" using demo_store_ok [of "[]"] by (simp add: store_ok_def demo_store_def pg_ok_def)
  then have d: "\<forall>u d. w_dial_pg demo_world u = Inr d \<longrightarrow> pg_ok d" by (simp add: demo_world_def)
  have "service_ok (repo_store (repo (srv_handlers srv))) (srv_handlers srv)"
    by (rule service_start_ok [OF srv d])
  then obtain h where h: "queue_turn plain_env Q_tick (srv_handlers srv) = Some h"
    using queue_turn_ok [of _ _ Q_tick plain_env] by fastforce
  then have s: "service_step mem_redis (srv_handlers srv, 0) (h, 0)" by (intro service_step.turn) simp_all
  then have "(service_step mem_redis)\<^sup>*\<^sup>* (srv_handlers srv, 0) (h, 0)" by blast
  from service_invariant [OF srv d this] srv s show ?thesis by blast
qed



end
